(* ===== verification/Kprelude.thy ===== *)
theory Kprelude
  imports Main "HOL-Library.Word" "HOL-Library.Monad_Syntax" "HOL-Library.Multiset"
begin

text \<open>
  The prelude of the development: the machine types shared by the components
  (32-bit addresses, bytes, wrapped C integers), the result type of kernel
  code that may panic, and the generic lemmas on null-terminated pointer
  chains that the heap-allocated lists of the kernel are verified with.
\<close>

section \<open>Machine types\<close>

type_synonym addr = "32 word"
type_synonym u32 = "32 word"
type_synonym byte = "8 word"

text \<open>
  A process pointer (\<^verbatim>\<open>struct proc*\<close>): 0 is null and \<^verbatim>\<open>&ptable.proc[i]\<close>
  is \<open>Suc i\<close>.
\<close>

type_synonym procp = nat

text \<open>C's signed \<^verbatim>\<open>int\<close> and \<^verbatim>\<open>long long\<close>, reduced to their width.\<close>

definition s32 :: "int \<Rightarrow> int" where
  "s32 x = (x + 2 ^ 31) mod 2 ^ 32 - 2 ^ 31"

definition s64 :: "int \<Rightarrow> int" where
  "s64 x = (x + 2 ^ 63) mod 2 ^ 64 - 2 ^ 63"

lemma s32_id [simp]: "- (2 ^ 31) \<le> x \<Longrightarrow> x < 2 ^ 31 \<Longrightarrow> s32 x = x"
  by (simp add: s32_def)

lemma s64_id [simp]: "- (2 ^ 63) \<le> x \<Longrightarrow> x < 2 ^ 63 \<Longrightarrow> s64 x = x"
  by (simp add: s64_def)

lemma s32_range: "- (2 ^ 31) \<le> s32 x" "s32 x < 2 ^ 31"
proof -
  have "0 \<le> (x + 2 ^ 31) mod 2 ^ 32" and "(x + 2 ^ 31) mod 2 ^ 32 < 2 ^ 32"
    by (rule pos_mod_sign pos_mod_bound, simp)+
  then show "- (2 ^ 31) \<le> s32 x" "s32 x < 2 ^ 31"
    by (simp_all add: s32_def)
qed

lemma s64_range: "- (2 ^ 63) \<le> s64 x" "s64 x < 2 ^ 63"
proof -
  have "0 \<le> (x + 2 ^ 63) mod 2 ^ 64" and "(x + 2 ^ 63) mod 2 ^ 64 < 2 ^ 64"
    by (rule pos_mod_sign pos_mod_bound, simp)+
  then show "- (2 ^ 63) \<le> s64 x" "s64 x < 2 ^ 63"
    by (simp_all add: s64_def)
qed

section \<open>Results of kernel code\<close>

text \<open>
  \<open>Panic m\<close> is a call of \<^verbatim>\<open>panic(m)\<close>; \<open>Spin\<close> a loop that only another CPU can
  end (\<^verbatim>\<open>while(xchg(...))\<close>), or a sleep that only another process can end; \<open>Hang\<close> a
  loop that never ends; \<open>Fault\<close> an access through a null pointer or outside an array.
\<close>

datatype kerr = Panic string | Spin | Hang | Fault

type_synonym 'a kres = "kerr + 'a"

definition kbind :: "'a kres \<Rightarrow> ('a \<Rightarrow> 'b kres) \<Rightarrow> 'b kres" where
  "kbind m f = (case m of Inl e \<Rightarrow> Inl e | Inr x \<Rightarrow> f x)"

definition returns :: "'a option \<Rightarrow> 'a kres" where
  "returns m = (case m of None \<Rightarrow> Inl Hang | Some x \<Rightarrow> Inr x)"

lemma kbind_simps [simp]:
  "kbind (Inl e) f = Inl e"
  "kbind (Inr x) f = f x"
  by (simp_all add: kbind_def)

text \<open>A sequence of actions, each of which other CPUs can separate from the next.\<close>

fun run_prog :: "('s \<Rightarrow> 's kres) list \<Rightarrow> 's \<Rightarrow> 's kres" where
  "run_prog [] s = Inr s"
| "run_prog (a # as) s = kbind (a s) (run_prog as)"

lemma kbind_Inr_iff: "kbind m f = Inr y \<longleftrightarrow> (\<exists>x. m = Inr x \<and> f x = Inr y)"
  by (auto simp: kbind_def split: sum.splits)

lemma kbind_InrE [elim]:
  assumes "kbind m f = Inr y"
  obtains x where "m = Inr x" "f x = Inr y"
  using assms by (auto simp: kbind_Inr_iff)

lemma returns_simps [simp]:
  "returns None = Inl Hang"
  "returns (Some x) = Inr x"
  by (simp_all add: returns_def)

section \<open>Null-terminated chains\<close>

text \<open>
  \<open>chain nx a xs\<close>: following \<open>nx\<close> from address \<open>a\<close> visits exactly the non-null
  addresses \<open>xs\<close> and then reaches null.
\<close>

named_theorems chain_simps

fun chain :: "(addr \<Rightarrow> addr) \<Rightarrow> addr \<Rightarrow> addr list \<Rightarrow> bool" where
  "chain nx a [] \<longleftrightarrow> a = 0"
| "chain nx a (x # xs) \<longleftrightarrow> a = x \<and> x \<noteq> 0 \<and> chain nx (nx x) xs"

lemma chain_0 [simp]: "chain nx 0 xs \<longleftrightarrow> xs = []"
  by (cases xs) auto

lemma chain_nonnull: "a \<noteq> 0 \<Longrightarrow> chain nx a xs \<longleftrightarrow> (\<exists>ys. xs = a # ys \<and> chain nx (nx a) ys)"
  by (cases xs) auto

lemma chain_cong:
  "(\<And>x. x \<in> set xs \<Longrightarrow> f x = g x) \<Longrightarrow> chain f a xs \<longleftrightarrow> chain g a xs"
  by (induction xs arbitrary: a) auto

lemma chain_upd [simp]:
  "u \<notin> set xs \<Longrightarrow> chain (nx(u := v)) a xs \<longleftrightarrow> chain nx a xs"
  by (rule chain_cong) auto

lemma chain_if [simp]:
  "u \<notin> set xs \<Longrightarrow> chain (\<lambda>x. if x = u then v else nx x) a xs \<longleftrightarrow> chain nx a xs"
  by (rule chain_cong) auto

lemma chain_mem_nonnull: "chain nx a xs \<Longrightarrow> 0 \<notin> set xs"
  by (induction xs arbitrary: a) auto

lemma chain_unique: "chain nx a xs \<Longrightarrow> chain nx a ys \<Longrightarrow> xs = ys"
proof (induction xs arbitrary: a ys)
  case Nil
  then show ?case by simp
next
  case (Cons x xs)
  then show ?case by (cases ys) auto
qed

lemma chain_append_next:
  "chain nx a (xs @ x # ys) \<Longrightarrow> chain nx (nx x) ys"
  by (induction xs arbitrary: a) auto

lemma chain_append_addr:
  "chain nx a (xs @ x # ys) \<Longrightarrow> chain nx x (x # ys)"
  by (induction xs arbitrary: a) auto

lemma chain_distinct: "chain nx a xs \<Longrightarrow> distinct xs"
proof (induction xs arbitrary: a)
  case Nil
  then show ?case by simp
next
  case (Cons x xs)
  then have tail: "chain nx (nx x) xs" by simp
  have "x \<notin> set xs"
  proof
    assume "x \<in> set xs"
    then obtain us vs where xs: "xs = us @ x # vs"
      by (auto simp: in_set_conv_decomp)
    from tail xs have "chain nx (nx x) vs" by (auto dest: chain_append_next)
    with tail have "xs = vs" by (rule chain_unique)
    with xs show False by simp
  qed
  with Cons show ?case by auto
qed

text \<open>Linking a second chain behind the last cell of a first one.\<close>

lemma chain_link_last:
  assumes "chain nx a xs" and "xs \<noteq> []" and "chain nx b ys" and "set xs \<inter> set ys = {}"
  shows "chain (nx(last xs := b)) a (xs @ ys)"
  using assms
proof (induction xs arbitrary: a)
  case Nil
  then show ?case by simp
next
  case (Cons x xs)
  show ?case
  proof (cases "xs = []")
    case True
    with Cons.prems show ?thesis by auto
  next
    case False
    with Cons.prems have "chain (nx(last xs := b)) (nx x) (xs @ ys)"
      by (intro Cons.IH) auto
    moreover have "x \<noteq> last xs"
      using False chain_distinct [OF Cons.prems(1)] by (auto dest: last_in_set)
    ultimately show ?thesis using False Cons.prems by (auto simp: fun_upd_def)
  qed
qed

text \<open>Unlinking an inner cell by redirecting its predecessor.\<close>

lemma chain_unlink:
  assumes "chain nx a (xs @ x # y # ys)"
  shows "chain (nx(x := nx y)) a (xs @ x # ys)"
proof -
  from assms have d: "distinct (xs @ x # y # ys)" by (rule chain_distinct)
  from assms d show ?thesis
  proof (induction xs arbitrary: a)
    case Nil
    then show ?case by auto
  next
    case (Cons z zs)
    then show ?case by auto
  qed
qed

end
