(* ===== verification/Kalloc.thy ===== *)
theory Kalloc
  imports Kprelude
begin

text \<open>
  The physical page allocator (\<^verbatim>\<open>kalloc.c\<close>) with the address macros it uses from
  \<^verbatim>\<open>mmu.h\<close> and \<^verbatim>\<open>memlayout.h\<close>. Memory is an explicit store from word addresses to
  words: the allocator keeps its free list inside the free pages themselves.
  \<^verbatim>\<open>kmem.lock\<close> is not part of the state; a call of \<open>kalloc\<close> or \<open>kfree\<close> is one
  atomic section. The linker symbol \<^verbatim>\<open>end\<close> is the argument \<open>kend\<close>.
\<close>

unbundle bit_operations_syntax

section \<open>Address macros\<close>

abbreviation PGSIZE :: u32 where "PGSIZE \<equiv> 4096"
abbreviation KERNBASE :: u32 where "KERNBASE \<equiv> 0x80000000"
abbreviation PHYSTOP :: u32 where "PHYSTOP \<equiv> 0xE000000"

definition PGROUNDUP :: "u32 \<Rightarrow> u32" where
  "PGROUNDUP sz = (sz + PGSIZE - 1) AND NOT (PGSIZE - 1)"

definition PGROUNDDOWN :: "u32 \<Rightarrow> u32" where
  "PGROUNDDOWN a = a AND NOT (PGSIZE - 1)"

definition V2P :: "addr \<Rightarrow> u32" where
  "V2P a = a - KERNBASE"

definition P2V :: "u32 \<Rightarrow> addr" where
  "P2V a = a + KERNBASE"

section \<open>State and operations\<close>

record kmem =
  mem :: "addr \<Rightarrow> u32"
  use_lock :: bool
  freelist :: addr

text \<open>
  \<^verbatim>\<open>memset(v, c, n)\<close> of \<^verbatim>\<open>string.c\<close> on a word-aligned block takes its \<^verbatim>\<open>stosl\<close>
  branch: every word of the block becomes the byte \<open>c\<close> four times.
\<close>

definition memset_words :: "(addr \<Rightarrow> u32) \<Rightarrow> addr \<Rightarrow> u32 \<Rightarrow> u32 \<Rightarrow> (addr \<Rightarrow> u32)" where
  "memset_words m v c n =
     (let c' = c AND 0xFF; w = push_bit 24 c' OR push_bit 16 c' OR push_bit 8 c' OR c'
      in (\<lambda>x. if x - v < n then w else m x))"

definition kfree :: "addr \<Rightarrow> addr \<Rightarrow> kmem \<Rightarrow> kmem kres" where
  "kfree kend v s =
     (if v mod PGSIZE \<noteq> 0 \<or> v < kend \<or> V2P v \<ge> PHYSTOP then Inl (Panic ''kfree'')
      else let m = memset_words (mem s) v 1 PGSIZE
           in Inr (s\<lparr>mem := m(v := freelist s), freelist := v\<rparr>))"

definition kalloc :: "kmem \<Rightarrow> addr \<times> kmem" where
  "kalloc s =
     (let r = freelist s
      in (r, if r \<noteq> 0 then s\<lparr>freelist := mem s r\<rparr> else s))"

lemma kfree_guard_no_wrap:
  assumes "V2P p < PHYSTOP"
  shows "p < p + PGSIZE"
proof -
  have "p - 0x80000000 < 0xE000000" using assms by (simp add: V2P_def)
  then show ?thesis by uint_arith simp_all
qed

function freerange_loop :: "addr \<Rightarrow> addr \<Rightarrow> addr \<Rightarrow> kmem \<Rightarrow> kmem kres" where
  "freerange_loop kend p vend s =
     (if p + PGSIZE \<le> vend
      then case kfree kend p s of
             Inl e \<Rightarrow> Inl e
           | Inr s' \<Rightarrow> freerange_loop kend (p + PGSIZE) vend s'
      else Inr s)"
  by pat_completeness auto
termination
proof (relation "measure (\<lambda>(kend, p, vend, s). 2 ^ 32 - unat p)", goal_cases)
  case 1
  then show ?case by simp
next
  case (2 kend p vend s s')
  then have "p < p + PGSIZE"
    by (intro kfree_guard_no_wrap) (auto simp: kfree_def split: if_splits)
  moreover have "unat (p + PGSIZE) < 2 ^ 32" using unsigned_less [of "p + PGSIZE", where ?'a = nat] by simp
  ultimately show ?case by (simp add: word_less_nat_alt)
qed

declare freerange_loop.simps [simp del]

definition freerange :: "addr \<Rightarrow> addr \<Rightarrow> addr \<Rightarrow> kmem \<Rightarrow> kmem kres" where
  "freerange kend vstart vend s = freerange_loop kend (PGROUNDUP vstart) vend s"

definition kinit1 :: "addr \<Rightarrow> addr \<Rightarrow> addr \<Rightarrow> kmem \<Rightarrow> kmem kres" where
  "kinit1 kend vstart vend s = freerange kend vstart vend (s\<lparr>use_lock := False\<rparr>)"

definition kinit2 :: "addr \<Rightarrow> addr \<Rightarrow> addr \<Rightarrow> kmem \<Rightarrow> kmem kres" where
  "kinit2 kend vstart vend s =
     kbind (freerange kend vstart vend s) (\<lambda>s. Inr (s\<lparr>use_lock := True\<rparr>))"

section \<open>The free list\<close>

text \<open>\<open>page_ok\<close> is the negation of the guard of \<^verbatim>\<open>kfree\<close>: a page it accepts.\<close>

definition page_ok :: "addr \<Rightarrow> addr \<Rightarrow> bool" where
  "page_ok kend v \<longleftrightarrow> v mod PGSIZE = 0 \<and> kend \<le> v \<and> V2P v < PHYSTOP"

text \<open>\<open>free_pages kend s xs\<close>: the free list holds exactly the acceptable pages \<open>xs\<close>.\<close>

definition free_pages :: "addr \<Rightarrow> kmem \<Rightarrow> addr list \<Rightarrow> bool" where
  "free_pages kend s xs \<longleftrightarrow> chain (mem s) (freelist s) xs \<and> (\<forall>x \<in> set xs. page_ok kend x)"

lemma free_pages_distinct: "free_pages kend s xs \<Longrightarrow> distinct xs"
  by (auto simp: free_pages_def dest: chain_distinct)

lemma aligned_diff_small:
  fixes x v :: addr
  assumes "x mod PGSIZE = 0" and "v mod PGSIZE = 0" and "x - v < PGSIZE"
  shows "x = v"
proof -
  have "unat x mod 4096 = 0" "unat v mod 4096 = 0"
    using assms(1,2) by (simp_all add: word_arith_nat_mod unat_of_nat flip: unat_eq_zero)
  then obtain a b where a: "unat x = 4096 * a" and b: "unat v = 4096 * b"
    by (auto simp: mod_eq_0_iff_dvd elim!: dvdE)
  have small: "unat (x - v) < 4096" using assms(3) by (simp add: word_less_nat_alt)
  have diff: "unat (x - v) = (if 4096 * b \<le> 4096 * a then 4096 * a - 4096 * b else 4096 * a + 4294967296 - 4096 * b)"
    using unat_sub_if' [of x v] by (simp add: a b)
  have "4096 * b < 4294967296" using unsigned_less [of v, where ?'a = nat] by (simp add: b)
  with small diff have "a = b"
    by (simp split: if_splits)
  then show ?thesis using a b by (metis word_unat_eq_iff)
qed

lemma page_ok_nonnull: "page_ok kend v \<Longrightarrow> v \<noteq> 0"
  by (auto simp: page_ok_def V2P_def)

lemma kfree_accepts: "(\<exists>s'. kfree kend v s = Inr s') \<longleftrightarrow> page_ok kend v"
  by (auto simp: kfree_def page_ok_def Let_def not_less not_le)

lemma kfree_frame:
  "kfree kend v s = Inr s' \<Longrightarrow> \<not> x - v < PGSIZE \<Longrightarrow> mem s' x = mem s x"
  by (auto simp: kfree_def memset_words_def Let_def split: if_splits)

lemma kfree_spec:
  assumes fp: "free_pages kend s xs" and ok: "page_ok kend v" and new: "v \<notin> set xs"
  obtains s' where "kfree kend v s = Inr s'" "free_pages kend s' (v # xs)"
    "use_lock s' = use_lock s"
proof -
  from ok obtain s' where s': "kfree kend v s = Inr s'" using kfree_accepts by blast
  then have head: "freelist s' = v" "mem s' v = freelist s" "use_lock s' = use_lock s"
    by (auto simp: kfree_def Let_def split: if_splits)
  have "mem s' x = mem s x" if "x \<in> set xs" for x
  proof -
    from fp ok that new have "x mod PGSIZE = 0" "v mod PGSIZE = 0" "x \<noteq> v"
      by (auto simp: free_pages_def page_ok_def)
    then have "\<not> x - v < PGSIZE" using aligned_diff_small [of x v] by auto
    with s' show ?thesis by (rule kfree_frame)
  qed
  then have "chain (mem s') (freelist s) xs \<longleftrightarrow> chain (mem s) (freelist s) xs"
    by (rule chain_cong)
  with head fp ok have "free_pages kend s' (v # xs)"
    by (auto simp: free_pages_def page_ok_nonnull)
  with s' head that show ?thesis by blast
qed

lemma kalloc_empty: "free_pages kend s [] \<Longrightarrow> kalloc s = (0, s)"
  by (simp add: free_pages_def kalloc_def Let_def)

lemma kalloc_spec:
  assumes "free_pages kend s (x # xs)"
  shows "fst (kalloc s) = x" "x \<noteq> 0" "page_ok kend x" "x \<notin> set xs"
    "free_pages kend (snd (kalloc s)) xs" "mem (snd (kalloc s)) = mem s"
  using assms free_pages_distinct [OF assms]
  by (auto simp: free_pages_def kalloc_def Let_def)

lemma kalloc_kfree_roundtrip:
  assumes fp: "free_pages kend s xs" and ok: "page_ok kend v" and new: "v \<notin> set xs"
  shows "\<exists>s' s''. kfree kend v s = Inr s' \<and> kalloc s' = (v, s'') \<and> free_pages kend s'' xs"
proof -
  from kfree_spec [OF assms] obtain s' where s': "kfree kend v s = Inr s'"
    and fp': "free_pages kend s' (v # xs)" by blast
  from kalloc_spec [OF fp'] have "fst (kalloc s') = v" "free_pages kend (snd (kalloc s')) xs"
    by blast+
  with s' show ?thesis by (metis prod.collapse)
qed

subsection \<open>Filling the list from a range\<close>

definition pages :: "addr \<Rightarrow> nat \<Rightarrow> addr list" where
  "pages p n = map (\<lambda>i. p + of_nat i * PGSIZE) [0..<n]"

lemma pages_Suc: "pages p (Suc n) = p # pages (p + PGSIZE) n"
  by (simp add: pages_def upt_conv_Cons map_Suc_upt [symmetric] algebra_simps
      del: upt_Suc)

lemma pages_0 [simp]: "pages p 0 = []"
  by (simp add: pages_def)

lemma unat_next_page:
  "unat p + 4096 < 2 ^ 32 \<Longrightarrow> unat (p + PGSIZE) = unat p + 4096"
  by (simp add: unat_word_ariths)

lemma mod_next_page: "p mod PGSIZE = 0 \<Longrightarrow> unat p + 4096 < 2 ^ 32 \<Longrightarrow> (p + PGSIZE) mod PGSIZE = 0"
  by (simp add: word_arith_nat_mod unat_word_ariths flip: unat_eq_zero)

lemma freerange_loop_spec:
  assumes "unat vend = unat p + 4096 * n + r" and "r < 4096"
    and "p mod PGSIZE = 0" and "kend \<le> p" and "KERNBASE \<le> p" and "vend \<le> P2V PHYSTOP"
    and "free_pages kend s xs" and "distinct (pages p n)" and "set (pages p n) \<inter> set xs = {}"
  shows "\<exists>s'. freerange_loop kend p vend s = Inr s' \<and> free_pages kend s' (rev (pages p n) @ xs)"
  using assms
proof (induction n arbitrary: p s xs)
  case 0
  have "unat vend \<le> 2382364672" using "0.prems"(6) by (simp add: P2V_def word_le_nat_alt)
  with "0.prems"(1,2) have "\<not> p + PGSIZE \<le> vend"
    by (simp add: word_le_nat_alt unat_next_page)
  with "0.prems" show ?case by (simp add: freerange_loop.simps [of kend p])
next
  case (Suc n)
  have top: "unat vend \<le> 2382364672" using Suc.prems(6) by (simp add: P2V_def word_le_nat_alt)
  with Suc.prems(1) have np: "unat (p + PGSIZE) = unat p + 4096" by (simp add: unat_next_page)
  have "V2P p < PHYSTOP"
    using Suc.prems(1,5) top
    by (simp add: V2P_def word_less_nat_alt word_le_nat_alt unat_sub_if')
  with Suc.prems have ok: "page_ok kend p" by (simp add: page_ok_def)
  from Suc.prems(9) have new: "p \<notin> set xs" by (simp add: pages_Suc)
  from kfree_spec [OF Suc.prems(7) ok new] obtain s1 where s1: "kfree kend p s = Inr s1"
    and fp1: "free_pages kend s1 (p # xs)" by blast
  have "\<exists>s'. freerange_loop kend (p + PGSIZE) vend s1 = Inr s' \<and>
          free_pages kend s' (rev (pages (p + PGSIZE) n) @ p # xs)"
  proof (rule Suc.IH [OF _ Suc.prems(2) _ _ _ Suc.prems(6) fp1])
    show "unat vend = unat (p + PGSIZE) + 4096 * n + r" using Suc.prems(1) np by simp
    show "(p + PGSIZE) mod PGSIZE = 0"
      using Suc.prems(1,3) top by (intro mod_next_page) auto
    show "kend \<le> p + PGSIZE" "KERNBASE \<le> p + PGSIZE"
      using Suc.prems(4,5) np by (simp_all add: word_le_nat_alt)
    show "distinct (pages (p + PGSIZE) n)" "set (pages (p + PGSIZE) n) \<inter> set (p # xs) = {}"
      using Suc.prems(8,9) by (auto simp: pages_Suc)
  qed
  moreover have "p + PGSIZE \<le> vend" using Suc.prems(1) np by (simp add: word_le_nat_alt)
  ultimately show ?case
    using s1 by (auto simp: freerange_loop.simps [of kend p] pages_Suc)
qed

end
