(* ===== verification/SchedDS.thy ===== *)
theory SchedDS
  imports Kalloc
begin

text \<open>
  The scheduling data structures (\<^verbatim>\<open>ass1ds.cpp\<close>, \<^verbatim>\<open>ass1ds.hpp\<close>) at the level of their
  pointers. \<open>links\<close> and \<open>nodes\<close> are the stores of the \<^verbatim>\<open>Link\<close> and \<^verbatim>\<open>MapNode\<close>
  objects; address 0 is null. A method of \<^verbatim>\<open>LinkedList\<close> takes the list object it is
  called on and returns it updated; a method of \<^verbatim>\<open>Map\<close> takes and returns the
  \<^verbatim>\<open>root\<close> field, the only field of a map. Loops that follow pointers are partial
  functions: \<open>None\<close> means that the loop does not end, as on a cyclic list.
  \<^verbatim>\<open>getAccumulator\<close>, which \<^verbatim>\<open>proc.c\<close> defines, is the argument \<open>acc\<close>.
\<close>

section \<open>Objects\<close>

record Link =
  link_p :: procp
  link_next :: addr

record LinkedList =
  ll_first :: addr
  ll_last :: addr

record MapNode =
  node_key :: int
  node_procs :: LinkedList
  node_next :: addr
  node_parent :: addr
  node_left :: addr
  node_right :: addr

record sched_ds =
  links :: "addr \<Rightarrow> Link"
  nodes :: "addr \<Rightarrow> MapNode"
  freeLinks :: addr
  freeNodes :: addr
  priorityQ :: addr
  roundRobinQ :: LinkedList
  runningProcHolder :: LinkedList

definition empty_list :: LinkedList where
  "empty_list = \<lparr>ll_first = 0, ll_last = 0\<rparr>"

definition new_link :: Link where
  "new_link = \<lparr>link_p = 0, link_next = 0\<rparr>"

definition new_node :: "int \<Rightarrow> MapNode" where
  "new_node k = \<lparr>node_key = k, node_procs = empty_list, node_next = 0, node_parent = 0,
     node_left = 0, node_right = 0\<rparr>"

definition set_link_next :: "addr \<Rightarrow> addr \<Rightarrow> sched_ds \<Rightarrow> sched_ds" where
  "set_link_next a v s = s\<lparr>links := (links s)(a := (links s a)\<lparr>link_next := v\<rparr>)\<rparr>"

definition set_node_procs :: "addr \<Rightarrow> LinkedList \<Rightarrow> sched_ds \<Rightarrow> sched_ds" where
  "set_node_procs a v s = s\<lparr>nodes := (nodes s)(a := (nodes s a)\<lparr>node_procs := v\<rparr>)\<rparr>"

definition set_node_parent :: "addr \<Rightarrow> addr \<Rightarrow> sched_ds \<Rightarrow> sched_ds" where
  "set_node_parent a v s = s\<lparr>nodes := (nodes s)(a := (nodes s a)\<lparr>node_parent := v\<rparr>)\<rparr>"

definition set_node_left :: "addr \<Rightarrow> addr \<Rightarrow> sched_ds \<Rightarrow> sched_ds" where
  "set_node_left a v s = s\<lparr>nodes := (nodes s)(a := (nodes s a)\<lparr>node_left := v\<rparr>)\<rparr>"

definition set_node_right :: "addr \<Rightarrow> addr \<Rightarrow> sched_ds \<Rightarrow> sched_ds" where
  "set_node_right a v s = s\<lparr>nodes := (nodes s)(a := (nodes s a)\<lparr>node_right := v\<rparr>)\<rparr>"

section \<open>Free lists\<close>

definition allocLink :: "procp \<Rightarrow> sched_ds \<Rightarrow> addr \<times> sched_ds" where
  "allocLink p s =
     (if freeLinks s = 0 then (0, s)
      else let ans = freeLinks s
           in (ans, s\<lparr>freeLinks := link_next (links s ans),
                      links := (links s)(ans := \<lparr>link_p = p, link_next = 0\<rparr>)\<rparr>))"

definition deallocLink :: "addr \<Rightarrow> sched_ds \<Rightarrow> sched_ds" where
  "deallocLink l s = (set_link_next l (freeLinks s) s)\<lparr>freeLinks := l\<rparr>"

definition deallocNode :: "addr \<Rightarrow> sched_ds \<Rightarrow> sched_ds" where
  "deallocNode n s =
     s\<lparr>nodes := (nodes s)(n := (nodes s n)
         \<lparr>node_parent := 0, node_left := 0, node_right := 0, node_next := freeNodes s\<rparr>),
       freeNodes := n\<rparr>"

definition allocNode :: "int \<Rightarrow> sched_ds \<Rightarrow> addr \<times> sched_ds" where
  "allocNode key s =
     (if freeNodes s = 0 then (0, s)
      else let ans = freeNodes s
           in (ans, s\<lparr>freeNodes := node_next (nodes s ans),
                      nodes := (nodes s)(ans := (nodes s ans)\<lparr>node_next := 0, node_key := key\<rparr>)\<rparr>))"

section \<open>Linked lists\<close>

partial_function (option) Link_getLast :: "(addr \<Rightarrow> Link) \<Rightarrow> addr \<Rightarrow> addr option" where
  "Link_getLast L ans =
     (if link_next (L ans) \<noteq> 0 then Link_getLast L (link_next (L ans)) else Some ans)"

definition LinkedList_isEmpty :: "LinkedList \<Rightarrow> bool" where
  "LinkedList_isEmpty ll \<longleftrightarrow> ll_first ll = 0"

definition LinkedList_append ::
  "addr \<Rightarrow> LinkedList \<Rightarrow> sched_ds \<Rightarrow> (LinkedList \<times> sched_ds) option" where
  "LinkedList_append link ll s =
     (if link = 0 then Some (ll, s)
      else let (ll1, s1) = (if LinkedList_isEmpty ll then (ll\<lparr>ll_first := link\<rparr>, s)
                            else (ll, set_link_next (ll_last ll) link s))
           in do { l \<leftarrow> Link_getLast (links s1) link; Some (ll1\<lparr>ll_last := l\<rparr>, s1) })"

definition LinkedList_enqueue ::
  "procp \<Rightarrow> LinkedList \<Rightarrow> sched_ds \<Rightarrow> (bool \<times> LinkedList \<times> sched_ds) option" where
  "LinkedList_enqueue p ll s =
     (let (link, s1) = allocLink p s
      in if link = 0 then Some (False, ll, s1)
         else do { (ll2, s2) \<leftarrow> LinkedList_append link ll s1; Some (True, ll2, s2) })"

definition LinkedList_dequeue :: "LinkedList \<Rightarrow> sched_ds \<Rightarrow> procp \<times> LinkedList \<times> sched_ds" where
  "LinkedList_dequeue ll s =
     (if LinkedList_isEmpty ll then (0, ll, s)
      else let p = link_p (links s (ll_first ll));
               nxt = link_next (links s (ll_first ll));
               s1 = deallocLink (ll_first ll) s;
               ll1 = ll\<lparr>ll_first := nxt\<rparr>;
               ll2 = (if LinkedList_isEmpty ll1 then ll1\<lparr>ll_last := 0\<rparr> else ll1)
           in (p, ll2, s1))"

partial_function (option) LinkedList_remove_loop ::
  "procp \<Rightarrow> addr \<Rightarrow> addr \<Rightarrow> LinkedList \<Rightarrow> sched_ds \<Rightarrow> (bool \<times> LinkedList \<times> sched_ds) option" where
  "LinkedList_remove_loop p prev cur ll s =
     (if cur = 0 then Some (False, ll, s)
      else if link_p (links s cur) = p
      then let s1 = set_link_next prev (link_next (links s cur)) s;
               ll1 = (if link_next (links s1 cur) = 0 then ll\<lparr>ll_last := prev\<rparr> else ll)
           in Some (True, ll1, deallocLink cur s1)
      else LinkedList_remove_loop p cur (link_next (links s cur)) ll s)"

definition LinkedList_remove ::
  "procp \<Rightarrow> LinkedList \<Rightarrow> sched_ds \<Rightarrow> (bool \<times> LinkedList \<times> sched_ds) option" where
  "LinkedList_remove p ll s =
     (if LinkedList_isEmpty ll then Some (False, ll, s)
      else if link_p (links s (ll_first ll)) = p
      then let (_, ll1, s1) = LinkedList_dequeue ll s in Some (True, ll1, s1)
      else LinkedList_remove_loop p (ll_first ll) (link_next (links s (ll_first ll))) ll s)"

definition Map_isEmpty :: "addr \<Rightarrow> bool" where
  "Map_isEmpty root \<longleftrightarrow> root = 0"

definition LinkedList_transfer :: "LinkedList \<Rightarrow> sched_ds \<Rightarrow> bool \<times> LinkedList \<times> sched_ds" where
  "LinkedList_transfer ll s =
     (if \<not> Map_isEmpty (priorityQ s) then (False, ll, s)
      else if \<not> LinkedList_isEmpty ll
      then let (node, s1) = allocNode 0 s
           in if node = 0 then (False, ll, s1)
              else let s2 = set_node_procs node ll s1
                   in (True, empty_list, s2\<lparr>priorityQ := node\<rparr>)
      else (True, ll, s))"

partial_function (option) LinkedList_forEach_min ::
  "(procp \<Rightarrow> int) \<Rightarrow> (addr \<Rightarrow> Link) \<Rightarrow> addr \<Rightarrow> int \<Rightarrow> int option" where
  "LinkedList_forEach_min acc L link minKey =
     (if link \<noteq> 0
      then let key = acc (link_p (L link))
           in LinkedList_forEach_min acc L (link_next (L link)) (if key < minKey then key else minKey)
      else Some minKey)"

text \<open>\<^verbatim>\<open>getMinKey(&k)\<close> returns whether it stored a key, and the key: \<open>None\<close> or \<open>Some k\<close>.\<close>

definition LinkedList_getMinKey ::
  "(procp \<Rightarrow> int) \<Rightarrow> LinkedList \<Rightarrow> sched_ds \<Rightarrow> int option option" where
  "LinkedList_getMinKey acc ll s =
     (if LinkedList_isEmpty ll then Some None
      else do { k \<leftarrow> LinkedList_forEach_min acc (links s) (ll_first ll)
                      (acc (link_p (links s (ll_first ll))));
                Some (Some k) })"

definition allocNode_proc :: "procp \<Rightarrow> int \<Rightarrow> sched_ds \<Rightarrow> (addr \<times> sched_ds) option" where
  "allocNode_proc p key s =
     (if freeNodes s = 0 then Some (0, s)
      else let (ans, s1) = allocNode key s
           in if ans = 0 then Some (0, s1)
              else do {
                (ok, ll, s2) \<leftarrow> LinkedList_enqueue p (node_procs (nodes s1 ans)) s1;
                let s3 = set_node_procs ans ll s2;
                if \<not> ok then Some (0, deallocNode ans s3) else Some (ans, s3) })"

section \<open>The map from keys to lists of processes\<close>

definition MapNode_isEmpty :: "addr \<Rightarrow> sched_ds \<Rightarrow> bool" where
  "MapNode_isEmpty n s \<longleftrightarrow> LinkedList_isEmpty (node_procs (nodes s n))"

partial_function (option) MapNode_put ::
  "procp \<Rightarrow> int \<Rightarrow> addr \<Rightarrow> sched_ds \<Rightarrow> (bool \<times> sched_ds) option" where
  "MapNode_put p key node s =
     (if key = node_key (nodes s node)
      then do {
        (ok, ll, s1) \<leftarrow> LinkedList_enqueue p (node_procs (nodes s node)) s;
        Some (ok, set_node_procs node ll s1) }
      else if key < node_key (nodes s node)
      then if node_left (nodes s node) \<noteq> 0 then MapNode_put p key (node_left (nodes s node)) s
           else do {
             (n, s1) \<leftarrow> allocNode_proc p key s;
             let s2 = set_node_left node n s1;
             if n \<noteq> 0 then Some (True, set_node_parent n node s2) else Some (False, s2) }
      else if node_right (nodes s node) \<noteq> 0 then MapNode_put p key (node_right (nodes s node)) s
           else do {
             (n, s1) \<leftarrow> allocNode_proc p key s;
             let s2 = set_node_right node n s1;
             if n \<noteq> 0 then Some (True, set_node_parent n node s2) else Some (False, s2) })"

partial_function (option) MapNode_getMinNode :: "(addr \<Rightarrow> MapNode) \<Rightarrow> addr \<Rightarrow> addr option" where
  "MapNode_getMinNode N minNode =
     (if node_left (N minNode) \<noteq> 0 then MapNode_getMinNode N (node_left (N minNode))
      else Some minNode)"

definition MapNode_getMinKey :: "addr \<Rightarrow> sched_ds \<Rightarrow> int option" where
  "MapNode_getMinKey node s =
     do { m \<leftarrow> MapNode_getMinNode (nodes s) node; Some (node_key (nodes s m)) }"

definition MapNode_dequeue :: "addr \<Rightarrow> sched_ds \<Rightarrow> procp \<times> sched_ds" where
  "MapNode_dequeue n s =
     (let (p, ll, s1) = LinkedList_dequeue (node_procs (nodes s n)) s
      in (p, set_node_procs n ll s1))"

definition Map_put ::
  "(procp \<Rightarrow> int) \<Rightarrow> procp \<Rightarrow> addr \<Rightarrow> sched_ds \<Rightarrow> (bool \<times> addr \<times> sched_ds) option" where
  "Map_put acc p root s =
     (let key = acc p
      in if Map_isEmpty root
         then do {
           (root', s1) \<leftarrow> allocNode_proc p key s;
           Some (\<not> Map_isEmpty root', root', s1) }
         else do {
           (ok, s1) \<leftarrow> MapNode_put p (acc p) root s;
           Some (ok, root, s1) })"

definition Map_getMinKey :: "addr \<Rightarrow> sched_ds \<Rightarrow> int option option" where
  "Map_getMinKey root s =
     (if Map_isEmpty root then Some None
      else do { k \<leftarrow> MapNode_getMinKey root s; Some (Some k) })"

definition Map_extractMin :: "addr \<Rightarrow> sched_ds \<Rightarrow> (procp \<times> addr \<times> sched_ds) option" where
  "Map_extractMin root s =
     (if Map_isEmpty root then Some (0, root, s)
      else do {
        minNode \<leftarrow> MapNode_getMinNode (nodes s) root;
        let (p, s1) = MapNode_dequeue minNode s;
        if MapNode_isEmpty minNode s1
        then let r = node_right (nodes s1 minNode);
                 (root', s2) =
                   (if minNode = root
                    then (r, if \<not> Map_isEmpty r then set_node_parent r 0 s1 else s1)
                    else let parent = node_parent (nodes s1 minNode);
                             s' = set_node_left parent r s1
                         in (root, if r \<noteq> 0 then set_node_parent r parent s' else s'))
             in Some (p, root', deallocNode minNode s2)
        else Some (p, root, s1) })"

text \<open>The loop of \<^verbatim>\<open>Map::transfer\<close>; the result of \<^verbatim>\<open>enqueue\<close> is ignored, as in the source.\<close>

partial_function (option) Map_transfer_loop :: "addr \<Rightarrow> sched_ds \<Rightarrow> (addr \<times> sched_ds) option" where
  "Map_transfer_loop root s =
     (if \<not> Map_isEmpty root
      then do {
        (p, root1, s1) \<leftarrow> Map_extractMin root s;
        (ok, ll, s2) \<leftarrow> LinkedList_enqueue p (roundRobinQ s1) s1;
        Map_transfer_loop root1 (s2\<lparr>roundRobinQ := ll\<rparr>) }
      else Some (root, s))"

definition Map_transfer :: "addr \<Rightarrow> sched_ds \<Rightarrow> (bool \<times> addr \<times> sched_ds) option" where
  "Map_transfer root s =
     (if \<not> LinkedList_isEmpty (roundRobinQ s) then Some (False, root, s)
      else do { (root', s') \<leftarrow> Map_transfer_loop root s; Some (True, root', s') })"

partial_function (option) Map_extractProc_loop ::
  "(procp \<Rightarrow> int) \<Rightarrow> procp \<Rightarrow> bool \<Rightarrow> addr \<Rightarrow> addr \<Rightarrow> sched_ds \<Rightarrow> (bool \<times> addr \<times> sched_ds) option" where
  "Map_extractProc_loop acc p ans root temp s =
     (if \<not> Map_isEmpty root
      then do {
        (otherP, root1, s1) \<leftarrow> Map_extractMin root s;
        if otherP \<noteq> p
        then do {
          (ok, temp1, s2) \<leftarrow> Map_put acc otherP temp s1;
          Map_extractProc_loop acc p ans root1 temp1 s2 }
        else Map_extractProc_loop acc p True root1 temp s1 }
      else Some (ans, temp, s))"

definition Map_extractProc ::
  "(procp \<Rightarrow> int) \<Rightarrow> procp \<Rightarrow> addr \<Rightarrow> sched_ds \<Rightarrow> (bool \<times> addr \<times> sched_ds) option" where
  "Map_extractProc acc p root s =
     (if freeNodes s = 0 then Some (False, root, s)
      else Map_extractProc_loop acc p False root 0 s)"

section \<open>The interface of \<open>schedulinginterface.h\<close>\<close>

definition isEmptyPriorityQueue :: "sched_ds \<Rightarrow> bool" where
  "isEmptyPriorityQueue s = Map_isEmpty (priorityQ s)"

definition putPriorityQueue ::
  "(procp \<Rightarrow> int) \<Rightarrow> procp \<Rightarrow> sched_ds \<Rightarrow> (bool \<times> sched_ds) option" where
  "putPriorityQueue acc p s =
     do { (ok, root, s1) \<leftarrow> Map_put acc p (priorityQ s) s; Some (ok, s1\<lparr>priorityQ := root\<rparr>) }"

definition getMinAccumulatorPriorityQueue :: "sched_ds \<Rightarrow> int option option" where
  "getMinAccumulatorPriorityQueue s = Map_getMinKey (priorityQ s) s"

definition extractMinPriorityQueue :: "sched_ds \<Rightarrow> (procp \<times> sched_ds) option" where
  "extractMinPriorityQueue s =
     do { (p, root, s1) \<leftarrow> Map_extractMin (priorityQ s) s; Some (p, s1\<lparr>priorityQ := root\<rparr>) }"

definition switchToRoundRobinPolicyPriorityQueue :: "sched_ds \<Rightarrow> (bool \<times> sched_ds) option" where
  "switchToRoundRobinPolicyPriorityQueue s =
     do { (ok, root, s1) \<leftarrow> Map_transfer (priorityQ s) s; Some (ok, s1\<lparr>priorityQ := root\<rparr>) }"

definition extractProcPriorityQueue ::
  "(procp \<Rightarrow> int) \<Rightarrow> procp \<Rightarrow> sched_ds \<Rightarrow> (bool \<times> sched_ds) option" where
  "extractProcPriorityQueue acc p s =
     do { (ok, root, s1) \<leftarrow> Map_extractProc acc p (priorityQ s) s; Some (ok, s1\<lparr>priorityQ := root\<rparr>) }"

definition isEmptyRoundRobinQueue :: "sched_ds \<Rightarrow> bool" where
  "isEmptyRoundRobinQueue s = LinkedList_isEmpty (roundRobinQ s)"

definition enqueueRoundRobinQueue :: "procp \<Rightarrow> sched_ds \<Rightarrow> (bool \<times> sched_ds) option" where
  "enqueueRoundRobinQueue p s =
     do { (ok, ll, s1) \<leftarrow> LinkedList_enqueue p (roundRobinQ s) s; Some (ok, s1\<lparr>roundRobinQ := ll\<rparr>) }"

definition dequeueRoundRobinQueue :: "sched_ds \<Rightarrow> procp \<times> sched_ds" where
  "dequeueRoundRobinQueue s =
     (let (p, ll, s1) = LinkedList_dequeue (roundRobinQ s) s in (p, s1\<lparr>roundRobinQ := ll\<rparr>))"

definition switchToPriorityQueuePolicyRoundRobinQueue :: "sched_ds \<Rightarrow> bool \<times> sched_ds" where
  "switchToPriorityQueuePolicyRoundRobinQueue s =
     (let (ok, ll, s1) = LinkedList_transfer (roundRobinQ s) s in (ok, s1\<lparr>roundRobinQ := ll\<rparr>))"

definition isEmptyRunningProcessHolder :: "sched_ds \<Rightarrow> bool" where
  "isEmptyRunningProcessHolder s = LinkedList_isEmpty (runningProcHolder s)"

definition addRunningProcessHolder :: "procp \<Rightarrow> sched_ds \<Rightarrow> (bool \<times> sched_ds) option" where
  "addRunningProcessHolder p s =
     do { (ok, ll, s1) \<leftarrow> LinkedList_enqueue p (runningProcHolder s) s;
          Some (ok, s1\<lparr>runningProcHolder := ll\<rparr>) }"

definition removeRunningProcessHolder :: "procp \<Rightarrow> sched_ds \<Rightarrow> (bool \<times> sched_ds) option" where
  "removeRunningProcessHolder p s =
     do { (ok, ll, s1) \<leftarrow> LinkedList_remove p (runningProcHolder s) s;
          Some (ok, s1\<lparr>runningProcHolder := ll\<rparr>) }"

definition getMinAccumulatorRunningProcessHolder ::
  "(procp \<Rightarrow> int) \<Rightarrow> sched_ds \<Rightarrow> int option option" where
  "getMinAccumulatorRunningProcessHolder acc s = LinkedList_getMinKey acc (runningProcHolder s) s"

section \<open>Initialisation\<close>

text \<open>
  \<open>mymalloc\<close> carves objects out of zeroed pages. The sizes are those of the i386
  layout: \<^verbatim>\<open>Map\<close> 4 bytes, \<^verbatim>\<open>LinkedList\<close> and \<^verbatim>\<open>Link\<close> 8, \<^verbatim>\<open>MapNode\<close> 32.
\<close>

record bump =
  bump_data :: addr
  bump_left :: u32
  bump_kmem :: kmem

definition mymalloc :: "u32 \<Rightarrow> bump \<Rightarrow> (addr \<times> bump) kres" where
  "mymalloc sz b =
     kbind
       (if bump_left b < sz
        then let (page, k) = kalloc (bump_kmem b)
             in if page = 0 then Inl Fault
                else Inr \<lparr>bump_data = page, bump_left = PGSIZE,
                          bump_kmem = k\<lparr>mem := memset_words (mem k) page 0 PGSIZE\<rparr>\<rparr>
        else Inr b)
       (\<lambda>b. Inr (bump_data b,
          b\<lparr>bump_data := bump_data b + sz, bump_left := bump_left b - sz\<rparr>))"

abbreviation NPROCLIST :: nat where "NPROCLIST \<equiv> 128"
abbreviation NPROCMAP :: nat where "NPROCMAP \<equiv> 128"

fun init_links :: "nat \<Rightarrow> bump \<Rightarrow> sched_ds \<Rightarrow> (bump \<times> sched_ds) kres" where
  "init_links 0 b s = Inr (b, s)"
| "init_links (Suc n) b s =
     kbind (mymalloc 8 b) (\<lambda>(l, b').
       init_links n b'
         (s\<lparr>links := (links s)(l := new_link\<lparr>link_next := freeLinks s\<rparr>), freeLinks := l\<rparr>))"

fun init_nodes :: "nat \<Rightarrow> bump \<Rightarrow> sched_ds \<Rightarrow> (bump \<times> sched_ds) kres" where
  "init_nodes 0 b s = Inr (b, s)"
| "init_nodes (Suc n) b s =
     kbind (mymalloc 32 b) (\<lambda>(m, b').
       init_nodes n b'
         (s\<lparr>nodes := (nodes s)(m := (new_node 0)\<lparr>node_next := freeNodes s\<rparr>), freeNodes := m\<rparr>))"

text \<open>The three roots are allocated but hold only their own fields, kept in \<open>sched_ds\<close>.\<close>

definition initSchedDS :: "kmem \<Rightarrow> (kmem \<times> sched_ds) kres" where
  "initSchedDS k =
     kbind (mymalloc 4 \<lparr>bump_data = 0, bump_left = 0, bump_kmem = k\<rparr>) (\<lambda>(_, b).
     kbind (mymalloc 8 b) (\<lambda>(_, b).
     kbind (mymalloc 8 b) (\<lambda>(_, b).
     kbind (init_links NPROCLIST b
              \<lparr>links = (\<lambda>_. new_link), nodes = (\<lambda>_. new_node 0), freeLinks = 0, freeNodes = 0,
               priorityQ = 0, roundRobinQ = empty_list, runningProcHolder = empty_list\<rparr>) (\<lambda>(b, s).
     kbind (init_nodes NPROCMAP b s) (\<lambda>(b, s). Inr (bump_kmem b, s))))))"

section \<open>64-bit remainder\<close>

text \<open>\<^verbatim>\<open>long long\<close> arithmetic wraps at 64 bits, as the compiled code does.\<close>

partial_function (option) moddi3_inner :: "int \<Rightarrow> int \<Rightarrow> int option" where
  "moddi3_inner number divisor2 =
     (if number \<ge> divisor2
      then moddi3_inner (s64 (number - divisor2))
             (if s64 (divisor2 + divisor2) > 0 then s64 (divisor2 + divisor2) else divisor2)
      else Some number)"

partial_function (option) moddi3_outer :: "int \<Rightarrow> int \<Rightarrow> int option" where
  "moddi3_outer number divisor =
     do { n \<leftarrow> moddi3_inner number divisor;
          if n < divisor then Some n else moddi3_outer n divisor }"

definition moddi3 :: "int \<Rightarrow> int \<Rightarrow> int kres" where
  "moddi3 number divisor =
     (if divisor = 0 then Inl (Panic (''divide by zero!!!'' @ [CHR 0x0A]))
      else let neg = number < 0;
               number1 = (if number < 0 then s64 (- number) else number);
               divisor1 = (if divisor < 0 then s64 (- divisor) else divisor)
           in kbind (returns (moddi3_outer number1 divisor1))
                (\<lambda>n. Inr (if neg then s64 (- n) else n)))"

end
