(* ===== verification/SchedLists.thy ===== *)
theory SchedLists
  imports SchedDS
begin

text \<open>
  Correctness of the linked lists of \<^verbatim>\<open>ass1ds.cpp\<close>: what each method does to the cells
  of its list and to the free list, with everything else on the heap unchanged.
  The loops are shown to end on every well-formed list.
\<close>

section \<open>Representation of a list\<close>

definition lnext :: "(addr \<Rightarrow> Link) \<Rightarrow> addr \<Rightarrow> addr" where
  "lnext L x = link_next (L x)"

lemma lnext_apply [simp]: "lnext L x = link_next (L x)"
  by (simp add: lnext_def)

definition ll_rep :: "(addr \<Rightarrow> Link) \<Rightarrow> LinkedList \<Rightarrow> addr list \<Rightarrow> bool" where
  "ll_rep L ll xs \<longleftrightarrow> chain (lnext L) (ll_first ll) xs \<and>
     ll_last ll = (if xs = [] then 0 else last xs)"

lemma ll_rep_cong:
  "(\<And>x. x \<in> set xs \<Longrightarrow> L x = L' x) \<Longrightarrow> ll_rep L ll xs \<longleftrightarrow> ll_rep L' ll xs"
  unfolding ll_rep_def by (subst chain_cong [of xs "lnext L" "lnext L'"]) auto

lemma ll_rep_Nil [simp]: "ll_rep L ll [] \<longleftrightarrow> ll = empty_list"
  by (cases ll) (auto simp: ll_rep_def empty_list_def)

lemma ll_rep_isEmpty: "ll_rep L ll xs \<Longrightarrow> LinkedList_isEmpty ll \<longleftrightarrow> xs = []"
  by (cases xs) (auto simp: ll_rep_def LinkedList_isEmpty_def)

lemma ll_rep_distinct: "ll_rep L ll xs \<Longrightarrow> distinct xs"
  by (auto simp: ll_rep_def dest: chain_distinct)

lemma ll_rep_nonnull: "ll_rep L ll xs \<Longrightarrow> 0 \<notin> set xs"
  by (auto simp: ll_rep_def dest: chain_mem_nonnull)

lemma ll_rep_first: "ll_rep L ll (x # xs) \<Longrightarrow> ll_first ll = x"
  by (auto simp: ll_rep_def)

lemma chain_L_upd:
  "y \<notin> set xs \<Longrightarrow> chain (lnext (L(y := c))) a xs \<longleftrightarrow> chain (lnext L) a xs"
  by (rule chain_cong) auto

lemma ll_rep_upd: "y \<notin> set xs \<Longrightarrow> ll_rep (L(y := c)) ll xs \<longleftrightarrow> ll_rep L ll xs"
  by (rule ll_rep_cong) auto

lemma getLast_chain: "chain (lnext L) a (x # xs) \<Longrightarrow> Link_getLast L a = Some (last (x # xs))"
proof (induction xs arbitrary: a x)
  case Nil
  then show ?case by (simp add: Link_getLast.simps)
next
  case (Cons y ys)
  then have "Link_getLast L y = Some (last (y # ys))" by simp
  moreover have "link_next (L a) = y" "y \<noteq> 0" using Cons.prems by auto
  ultimately show ?case by (simp add: Link_getLast.simps [of L a])
qed

section \<open>Frames\<close>

text \<open>
  \<open>lframe A s s'\<close>: between \<open>s\<close> and \<open>s'\<close> only links in \<open>A\<close> and the head of the
  free list changed.
\<close>

definition lframe :: "addr set \<Rightarrow> sched_ds \<Rightarrow> sched_ds \<Rightarrow> bool" where
  "lframe A s s' \<longleftrightarrow>
     (\<exists>L f. s' = s\<lparr>links := L, freeLinks := f\<rparr> \<and> (\<forall>y. y \<notin> A \<longrightarrow> L y = links s y))"

lemma lframeI:
  "(\<And>y. y \<notin> A \<Longrightarrow> L y = links s y) \<Longrightarrow> lframe A s (s\<lparr>links := L, freeLinks := f\<rparr>)"
  by (auto simp: lframe_def)

lemma lframe_refl [simp]: "lframe A s s"
proof -
  have "lframe A s (s\<lparr>links := links s, freeLinks := freeLinks s\<rparr>)" by (rule lframeI) simp
  then show ?thesis by simp
qed

lemma lframe_trans: "lframe A s s' \<Longrightarrow> lframe B s' s'' \<Longrightarrow> lframe (A \<union> B) s s''"
  unfolding lframe_def
proof (elim exE conjE)
  fix L f L' f'
  assume s': "s' = s\<lparr>links := L, freeLinks := f\<rparr>" and "\<forall>y. y \<notin> A \<longrightarrow> L y = links s y"
    and s'': "s'' = s'\<lparr>links := L', freeLinks := f'\<rparr>" and "\<forall>y. y \<notin> B \<longrightarrow> L' y = links s' y"
  then show "\<exists>L f. s'' = s\<lparr>links := L, freeLinks := f\<rparr> \<and> (\<forall>y. y \<notin> A \<union> B \<longrightarrow> L y = links s y)"
    by (intro exI [of _ L'] exI [of _ f']) auto
qed

lemma lframe_mono: "lframe A s s' \<Longrightarrow> A \<subseteq> B \<Longrightarrow> lframe B s s'"
  by (auto simp: lframe_def)

lemma lframe_links: "lframe A s s' \<Longrightarrow> y \<notin> A \<Longrightarrow> links s' y = links s y"
  by (auto simp: lframe_def)

lemma lframe_links_upd: "x \<in> A \<Longrightarrow> lframe A s (s\<lparr>links := (links s)(x := c)\<rparr>)"
proof -
  assume "x \<in> A"
  then have "lframe A s (s\<lparr>links := (links s)(x := c), freeLinks := freeLinks s\<rparr>)"
    by (intro lframeI) auto
  then show ?thesis by simp
qed

lemma ll_rep_lframe:
  "lframe A s s' \<Longrightarrow> A \<inter> set xs = {} \<Longrightarrow> ll_rep (links s') ll xs \<longleftrightarrow> ll_rep (links s) ll xs"
  by (rule ll_rep_cong) (auto intro: lframe_links)

lemma lframe_fields:
  assumes "lframe A s s'"
  shows "nodes s' = nodes s" "freeNodes s' = freeNodes s" "priorityQ s' = priorityQ s"
    "roundRobinQ s' = roundRobinQ s" "runningProcHolder s' = runningProcHolder s"
  using assms by (auto simp: lframe_def)

section \<open>The free list of links\<close>

definition free_links :: "sched_ds \<Rightarrow> addr list \<Rightarrow> bool" where
  "free_links s fl \<longleftrightarrow> chain (lnext (links s)) (freeLinks s) fl"

lemma free_links_distinct: "free_links s fl \<Longrightarrow> distinct fl"
  by (auto simp: free_links_def dest: chain_distinct)

lemma free_links_nonnull: "free_links s fl \<Longrightarrow> 0 \<notin> set fl"
  by (auto simp: free_links_def dest: chain_mem_nonnull)

lemma free_links_upd_nodes [simp]:
  "free_links (s\<lparr>nodes := N\<rparr>) fl = free_links s fl"
  "free_links (s\<lparr>freeNodes := a\<rparr>) fl = free_links s fl"
  "free_links (s\<lparr>priorityQ := a\<rparr>) fl = free_links s fl"
  "free_links (s\<lparr>roundRobinQ := ll\<rparr>) fl = free_links s fl"
  "free_links (s\<lparr>runningProcHolder := ll\<rparr>) fl = free_links s fl"
  by (simp_all add: free_links_def)

lemma allocLink_empty: "free_links s [] \<Longrightarrow> allocLink p s = (0, s)"
  by (simp add: free_links_def allocLink_def)

lemma allocLink_cons:
  assumes "free_links s (x # fl)"
  obtains s' where "allocLink p s = (x, s')" "x \<noteq> 0" "free_links s' fl" "lframe {x} s s'"
    "links s' x = \<lparr>link_p = p, link_next = 0\<rparr>"
proof
  let ?s = "s\<lparr>links := (links s)(x := \<lparr>link_p = p, link_next = 0\<rparr>), freeLinks := link_next (links s x)\<rparr>"
  from assms have ch: "freeLinks s = x" "x \<noteq> 0" "chain (lnext (links s)) (link_next (links s x)) fl"
    by (auto simp: free_links_def)
  have "x \<notin> set fl" using free_links_distinct [OF assms] by simp
  then show "free_links ?s fl" using ch by (simp add: free_links_def chain_L_upd)
  show "allocLink p s = (x, ?s)" using ch by (simp add: allocLink_def Let_def)
  show "x \<noteq> 0" by (rule ch)
  show "lframe {x} s ?s" by (rule lframeI) simp
  show "links ?s x = \<lparr>link_p = p, link_next = 0\<rparr>" by simp
qed

lemma deallocLink_spec:
  assumes "free_links s fl" and "x \<notin> set fl" and "x \<noteq> 0"
  shows "free_links (deallocLink x s) (x # fl)" "lframe {x} s (deallocLink x s)"
    "link_p (links (deallocLink x s) y) = link_p (links s y)"
proof -
  have eq: "deallocLink x s =
      s\<lparr>links := (links s)(x := (links s x)\<lparr>link_next := freeLinks s\<rparr>), freeLinks := x\<rparr>"
    by (simp add: deallocLink_def set_link_next_def)
  show "free_links (deallocLink x s) (x # fl)"
    using assms by (simp add: eq free_links_def chain_L_upd)
  show "lframe {x} s (deallocLink x s)" unfolding eq by (rule lframeI) simp
  show "link_p (links (deallocLink x s) y) = link_p (links s y)" by (simp add: eq)
qed

section \<open>Methods\<close>

lemma append_spec:
  assumes ll: "ll_rep (links s) ll xs" and x: "x \<noteq> 0" "x \<notin> set xs" "link_next (links s x) = 0"
    and fl: "free_links s fl" "set fl \<inter> set (x # xs) = {}"
  obtains ll' s' where "LinkedList_append x ll s = Some (ll', s')"
    "ll_rep (links s') ll' (xs @ [x])" "free_links s' fl" "lframe (set xs) s s'"
    "\<And>y. link_p (links s' y) = link_p (links s y)"
proof (cases "xs = []")
  case True
  then have "ll = empty_list" using ll by simp
  moreover have "Link_getLast (links s) x = Some x" using x by (simp add: Link_getLast.simps)
  ultimately have "LinkedList_append x ll s = Some (\<lparr>ll_first = x, ll_last = x\<rparr>, s)"
    using x by (simp add: LinkedList_append_def LinkedList_isEmpty_def empty_list_def)
  moreover have "ll_rep (links s) \<lparr>ll_first = x, ll_last = x\<rparr> (xs @ [x])"
    using True x by (simp add: ll_rep_def)
  ultimately show ?thesis using that fl by fastforce
next
  case False
  let ?l = "last xs"
  let ?s = "set_link_next ?l x s"
  have l: "ll_last ll = ?l" "?l \<in> set xs" "?l \<noteq> x" "?l \<notin> set fl"
    using ll False x fl by (auto simp: ll_rep_def dest: last_in_set)
  have nx: "lnext (links ?s) = (lnext (links s))(?l := x)"
    by (auto simp: set_link_next_def)
  have "chain ((lnext (links s))(?l := x)) (ll_first ll) (xs @ [x])"
    using ll x False by (intro chain_link_last) (auto simp: ll_rep_def)
  then have rep: "ll_rep (links ?s) (ll\<lparr>ll_last := x\<rparr>) (xs @ [x])"
    by (simp add: ll_rep_def nx)
  have "Link_getLast (links ?s) x = Some x"
    using x l by (simp add: Link_getLast.simps set_link_next_def)
  then have app: "LinkedList_append x ll s = Some (ll\<lparr>ll_last := x\<rparr>, ?s)"
    using x ll_rep_isEmpty [OF ll] False l by (simp add: LinkedList_append_def)
  have "free_links ?s fl"
    using fl l by (simp add: free_links_def set_link_next_def chain_L_upd)
  moreover have "lframe (set xs) s ?s"
    using l by (simp add: set_link_next_def lframe_links_upd)
  moreover have "link_p (links ?s y) = link_p (links s y)" for y
    by (simp add: set_link_next_def)
  ultimately show ?thesis using that app rep by blast
qed

lemma enqueue_full: "free_links s [] \<Longrightarrow> LinkedList_enqueue p ll s = Some (False, ll, s)"
  by (simp add: LinkedList_enqueue_def allocLink_empty)

lemma enqueue_spec:
  assumes ll: "ll_rep (links s) ll xs" and fl: "free_links s (x # fl)"
    and dis: "set (x # fl) \<inter> set xs = {}"
  obtains ll' s' where "LinkedList_enqueue p ll s = Some (True, ll', s')"
    "ll_rep (links s') ll' (xs @ [x])" "free_links s' fl" "lframe (insert x (set xs)) s s'"
    "link_p (links s' x) = p" "\<And>y. y \<noteq> x \<Longrightarrow> link_p (links s' y) = link_p (links s y)"
proof -
  from allocLink_cons [OF fl] obtain s1 where s1: "allocLink p s = (x, s1)" "x \<noteq> 0"
    "free_links s1 fl" "lframe {x} s s1" "links s1 x = \<lparr>link_p = p, link_next = 0\<rparr>"
    by blast
  have "ll_rep (links s1) ll xs"
    using ll dis by (simp add: ll_rep_lframe [OF s1(4)])
  moreover have "set fl \<inter> set (x # xs) = {}"
    using dis free_links_distinct [OF fl] by auto
  ultimately obtain ll' s' where s': "LinkedList_append x ll s1 = Some (ll', s')"
    "ll_rep (links s') ll' (xs @ [x])" "free_links s' fl" "lframe (set xs) s1 s'"
    "\<And>y. link_p (links s' y) = link_p (links s1 y)"
    using append_spec [of s1 ll xs x fl] s1 dis by auto
  have "lframe (insert x (set xs)) s s'"
    using lframe_trans [OF s1(4) s'(4)] by simp
  then show ?thesis
    using that s1 s' lframe_links [OF s1(4)] by (simp add: LinkedList_enqueue_def)
qed

lemma dequeue_empty: "ll_rep L ll [] \<Longrightarrow> LinkedList_dequeue ll s = (0, ll, s)"
  by (simp add: LinkedList_dequeue_def LinkedList_isEmpty_def empty_list_def)

lemma dequeue_spec:
  assumes ll: "ll_rep (links s) ll (x # xs)" and fl: "free_links s fl"
    and dis: "set fl \<inter> set (x # xs) = {}"
  obtains ll' s' where "LinkedList_dequeue ll s = (link_p (links s x), ll', s')"
    "ll_rep (links s') ll' xs" "free_links s' (x # fl)" "lframe {x} s s'"
    "\<And>y. link_p (links s' y) = link_p (links s y)"
proof -
  let ?s = "deallocLink x s"
  let ?ll = "if xs = [] then empty_list else ll\<lparr>ll_first := link_next (links s x)\<rparr>"
  have f: "ll_first ll = x" "x \<noteq> 0" "x \<notin> set xs" "x \<notin> set fl"
    using ll dis ll_rep_distinct [OF ll] by (auto simp: ll_rep_def)
  have ch: "chain (lnext (links s)) (link_next (links s x)) xs" and l: "xs \<noteq> [] \<Longrightarrow> ll_last ll = last xs"
    using ll f by (auto simp: ll_rep_def)
  have e: "LinkedList_isEmpty (ll\<lparr>ll_first := link_next (links s x)\<rparr>) \<longleftrightarrow> xs = []"
    using ch by (cases xs) (auto simp: LinkedList_isEmpty_def)
  have d: "LinkedList_dequeue ll s = (link_p (links s x), ?ll, ?s)"
    using f ch by (auto simp: LinkedList_dequeue_def e LinkedList_isEmpty_def empty_list_def Let_def)
  have rep: "ll_rep (links s) ?ll xs"
    using ch l by (auto simp: ll_rep_def empty_list_def)
  note free = deallocLink_spec [OF fl f(4) f(2)]
  have "ll_rep (links ?s) ?ll xs"
    using rep f by (simp add: ll_rep_lframe [OF free(2)])
  then show ?thesis using that d free by blast
qed

lemma remove_loop_absent:
  assumes "chain (lnext (links s)) cur vs" and "\<forall>v \<in> set vs. link_p (links s v) \<noteq> p"
  shows "LinkedList_remove_loop p prev cur ll s = Some (False, ll, s)"
  using assms
proof (induction vs arbitrary: prev cur)
  case Nil
  then show ?case by (simp add: LinkedList_remove_loop.simps)
next
  case (Cons v vs)
  then show ?case by (subst LinkedList_remove_loop.simps) auto
qed

lemma remove_unlink:
  assumes ll: "ll_rep (links s) ll (us @ w # x # zs)" and fl: "free_links s fl"
    and dis: "set fl \<inter> set (us @ w # x # zs) = {}"
    and s1: "s1 = set_link_next w (link_next (links s x)) s"
    and ll1: "ll1 = (if link_next (links s1 x) = 0 then ll\<lparr>ll_last := w\<rparr> else ll)"
  shows "ll_rep (links (deallocLink x s1)) ll1 (us @ w # zs)"
    "free_links (deallocLink x s1) (x # fl)" "lframe {w, x} s (deallocLink x s1)"
    "link_p (links (deallocLink x s1) y) = link_p (links s y)"
proof -
  have d: "distinct (us @ w # x # zs)" and z: "0 \<notin> set (us @ w # x # zs)"
    using ll_rep_distinct [OF ll] ll_rep_nonnull [OF ll] by blast+
  have nx1: "lnext (links s1) = (lnext (links s))(w := link_next (links s x))"
    by (auto simp: s1 set_link_next_def)
  have fr1: "lframe {w} s s1"
    by (simp add: s1 set_link_next_def lframe_links_upd)
  have fl1: "free_links s1 fl"
    using fl dis by (simp add: free_links_def s1 set_link_next_def chain_L_upd)
  have "chain (lnext (links s1)) (ll_first ll) (us @ w # zs)"
    using ll chain_unlink [of "lnext (links s)" "ll_first ll" us w x zs]
    by (simp add: nx1 ll_rep_def)
  moreover have "link_next (links s x) = 0 \<longleftrightarrow> zs = []"
  proof -
    have "chain (lnext (links s)) (lnext (links s) x) zs"
      using ll chain_append_next [of "lnext (links s)" "ll_first ll" "us @ [w]" x zs] by (simp add: ll_rep_def)
    then show ?thesis by (cases zs) auto
  qed
  moreover have "links s1 x = links s x" using d by (simp add: s1 set_link_next_def)
  ultimately have rep1: "ll_rep (links s1) ll1 (us @ w # zs)"
    using ll by (auto simp: ll_rep_def ll1)
  have x: "x \<notin> set fl" "x \<noteq> 0" using dis z by auto
  note free = deallocLink_spec [OF fl1 x]
  show "ll_rep (links (deallocLink x s1)) ll1 (us @ w # zs)"
    using rep1 d by (subst ll_rep_lframe [OF free(2)]) auto
  show "free_links (deallocLink x s1) (x # fl)" by (rule free(1))
  show "lframe {w, x} s (deallocLink x s1)"
    using lframe_trans [OF fr1 free(2)] by (simp add: insert_commute)
  show "link_p (links (deallocLink x s1) y) = link_p (links s y)"
    using free(3) by (simp add: s1 set_link_next_def)
qed

lemma remove_loop_found:
  assumes "ll_rep (links s) ll (us @ w # ws @ x # zs)" and "free_links s fl"
    and "set fl \<inter> set (us @ w # ws @ x # zs) = {}"
    and "\<forall>v \<in> set ws. link_p (links s v) \<noteq> p" and "link_p (links s x) = p"
  shows "\<exists>ll' s'. LinkedList_remove_loop p w (link_next (links s w)) ll s = Some (True, ll', s') \<and>
    ll_rep (links s') ll' (us @ w # ws @ zs) \<and> free_links s' (x # fl) \<and>
    lframe (set (us @ w # ws @ x # zs)) s s' \<and> (\<forall>y. link_p (links s' y) = link_p (links s y))"
  using assms
proof (induction ws arbitrary: us w)
  case Nil
  have "chain (lnext (links s)) (lnext (links s) w) (x # zs)"
    using Nil.prems(1) chain_append_next [of "lnext (links s)" "ll_first ll" us w "x # zs"] by (simp add: ll_rep_def)
  then have cur: "link_next (links s w) = x" "x \<noteq> 0" by auto
  let ?s1 = "set_link_next w (link_next (links s x)) s"
  let ?ll1 = "if link_next (links ?s1 x) = 0 then ll\<lparr>ll_last := w\<rparr> else ll"
  have "LinkedList_remove_loop p w (link_next (links s w)) ll s = Some (True, ?ll1, deallocLink x ?s1)"
    using cur Nil.prems(5) by (subst LinkedList_remove_loop.simps) (simp add: Let_def)
  moreover note remove_unlink [of s ll us w x zs fl ?s1 ?ll1]
  ultimately show ?case
    using Nil.prems lframe_mono [of "{w, x}" s "deallocLink x ?s1" "set (us @ w # x # zs)"] by auto
next
  case (Cons v ws)
  have "chain (lnext (links s)) (lnext (links s) w) (v # ws @ x # zs)"
    using Cons.prems(1) chain_append_next [of "lnext (links s)" "ll_first ll" us w "v # ws @ x # zs"] by (simp add: ll_rep_def)
  then have cur: "link_next (links s w) = v" "v \<noteq> 0" by auto
  have "LinkedList_remove_loop p w (link_next (links s w)) ll s =
      LinkedList_remove_loop p v (link_next (links s v)) ll s"
    using cur Cons.prems(4) by (subst LinkedList_remove_loop.simps) auto
  moreover have "\<exists>ll' s'. LinkedList_remove_loop p v (link_next (links s v)) ll s = Some (True, ll', s') \<and>
      ll_rep (links s') ll' ((us @ [w]) @ v # ws @ zs) \<and> free_links s' (x # fl) \<and>
      lframe (set ((us @ [w]) @ v # ws @ x # zs)) s s' \<and>
      (\<forall>y. link_p (links s' y) = link_p (links s y))"
    using Cons.prems by (intro Cons.IH) auto
  ultimately show ?case by simp
qed

lemma remove_absent:
  assumes "ll_rep (links s) ll xs" and "\<forall>v \<in> set xs. link_p (links s v) \<noteq> p"
  shows "LinkedList_remove p ll s = Some (False, ll, s)"
proof (cases xs)
  case Nil
  with assms show ?thesis by (simp add: LinkedList_remove_def LinkedList_isEmpty_def empty_list_def)
next
  case (Cons x ys)
  then have "ll_first ll = x" "x \<noteq> 0" "chain (lnext (links s)) (link_next (links s x)) ys"
    using assms(1) by (auto simp: ll_rep_def)
  with assms Cons show ?thesis
    by (auto simp: LinkedList_remove_def LinkedList_isEmpty_def intro!: remove_loop_absent)
qed

lemma remove_present:
  assumes ll: "ll_rep (links s) ll (us @ x # zs)" and fl: "free_links s fl"
    and dis: "set fl \<inter> set (us @ x # zs) = {}"
    and p: "link_p (links s x) = p" "\<forall>v \<in> set us. link_p (links s v) \<noteq> p"
  obtains ll' s' where "LinkedList_remove p ll s = Some (True, ll', s')"
    "ll_rep (links s') ll' (us @ zs)" "free_links s' (x # fl)"
    "lframe (set (us @ x # zs)) s s'" "\<And>y. link_p (links s' y) = link_p (links s y)"
proof (cases us)
  case Nil
  from dequeue_spec [of s ll x zs fl] ll fl dis Nil obtain ll' s'
    where d: "LinkedList_dequeue ll s = (link_p (links s x), ll', s')" and
    r: "ll_rep (links s') ll' zs" "free_links s' (x # fl)" "lframe {x} s s'"
    "\<And>y. link_p (links s' y) = link_p (links s y)" by auto
  have "ll_first ll = x" "x \<noteq> 0" using ll Nil by (auto simp: ll_rep_def)
  then have "LinkedList_remove p ll s = Some (True, ll', s')"
    using p d by (simp add: LinkedList_remove_def LinkedList_isEmpty_def)
  moreover have "lframe (set (us @ x # zs)) s s'" by (rule lframe_mono [OF r(3)]) simp
  ultimately show ?thesis using that r Nil by simp
next
  case (Cons w ws)
  have f: "ll_first ll = w" "w \<noteq> 0" using ll Cons by (auto simp: ll_rep_def)
  have "\<exists>ll' s'. LinkedList_remove_loop p w (link_next (links s w)) ll s = Some (True, ll', s') \<and>
      ll_rep (links s') ll' ([] @ w # ws @ zs) \<and> free_links s' (x # fl) \<and>
      lframe (set ([] @ w # ws @ x # zs)) s s' \<and> (\<forall>y. link_p (links s' y) = link_p (links s y))"
    using ll fl dis p Cons by (intro remove_loop_found) auto
  moreover have "LinkedList_remove p ll s = LinkedList_remove_loop p w (link_next (links s w)) ll s"
    using f p Cons by (simp add: LinkedList_remove_def LinkedList_isEmpty_def)
  ultimately show ?thesis using that Cons by auto
qed

lemma forEach_min_chain:
  "chain (lnext L) a xs \<Longrightarrow>
     LinkedList_forEach_min acc L a m = Some (fold min (map (\<lambda>x. acc (link_p (L x))) xs) m)"
proof (induction xs arbitrary: a m)
  case Nil
  then show ?case by (simp add: LinkedList_forEach_min.simps)
next
  case (Cons x xs)
  have "(if k < m then k else m) = min k m" for k by auto
  with Cons show ?case by (subst LinkedList_forEach_min.simps) (auto simp: Let_def)
qed

lemma getMinKey_spec:
  assumes "ll_rep (links s) ll xs"
  shows "LinkedList_getMinKey acc ll s =
    Some (if xs = [] then None else Some (Min ((\<lambda>x. acc (link_p (links s x))) ` set xs)))"
proof (cases xs)
  case Nil
  with assms show ?thesis
    by (simp add: LinkedList_getMinKey_def LinkedList_isEmpty_def empty_list_def)
next
  case (Cons x ys)
  let ?f = "\<lambda>x. acc (link_p (links s x))"
  have f: "ll_first ll = x" "x \<noteq> 0" using assms Cons by (auto simp: ll_rep_def)
  have "fold min (map ?f xs) (?f x) = Min (set (?f x # map ?f xs))"
    by (rule Min.set_eq_fold [symmetric])
  then have "fold min (map ?f xs) (?f x) = Min (?f ` set xs)"
    using Cons by (simp add: insert_absorb)
  moreover have "LinkedList_forEach_min acc (links s) x (?f x) = Some (fold min (map ?f xs) (?f x))"
    using assms f by (intro forEach_min_chain) (simp add: ll_rep_def)
  ultimately show ?thesis
    using f Cons by (simp add: LinkedList_getMinKey_def LinkedList_isEmpty_def)
qed

end
