(* ===== verification/SchedMap.thy ===== *)
theory SchedMap
  imports SchedLists
begin

text \<open>
  Correctness of the priority map of \<^verbatim>\<open>ass1ds.cpp\<close>: a binary search tree of
  \<^verbatim>\<open>MapNode\<close> objects with parent pointers, each holding the FIFO list of the
  processes of one key. The shape of the tree on the heap is a ghost value of type
  \<open>mtree\<close>; every method is shown to compute the corresponding functional
  operation on it.
\<close>

section \<open>Ghost trees\<close>

text \<open>\<open>Nd l n k q r\<close>: the node at address \<open>n\<close> with key \<open>k\<close> and the links \<open>q\<close>.\<close>

datatype mtree = Lf | Nd mtree addr int "addr list" mtree

fun tnodes :: "mtree \<Rightarrow> addr list" where
  "tnodes Lf = []"
| "tnodes (Nd l n k q r) = tnodes l @ n # tnodes r"

fun tlinks :: "mtree \<Rightarrow> addr list" where
  "tlinks Lf = []"
| "tlinks (Nd l n k q r) = tlinks l @ q @ tlinks r"

fun tkeys :: "mtree \<Rightarrow> int set" where
  "tkeys Lf = {}"
| "tkeys (Nd l n k q r) = insert k (tkeys l \<union> tkeys r)"

text \<open>Search order, and every node holds at least one process.\<close>

fun tinv :: "mtree \<Rightarrow> bool" where
  "tinv Lf \<longleftrightarrow> True"
| "tinv (Nd l n k q r) \<longleftrightarrow> tinv l \<and> tinv r \<and> q \<noteq> [] \<and> (\<forall>j \<in> tkeys l. j < k) \<and> (\<forall>j \<in> tkeys r. k < j)"

fun tput :: "int \<Rightarrow> addr \<Rightarrow> addr \<Rightarrow> mtree \<Rightarrow> mtree" where
  "tput k x m Lf = Nd Lf m k [x] Lf"
| "tput k x m (Nd l n j q r) =
     (if k = j then Nd l n j (q @ [x]) r
      else if k < j then Nd (tput k x m l) n j q r
      else Nd l n j q (tput k x m r))"

fun tmin :: "mtree \<Rightarrow> addr" where
  "tmin Lf = 0"
| "tmin (Nd l n k q r) = (if l = Lf then n else tmin l)"

fun tminkey :: "mtree \<Rightarrow> int" where
  "tminkey Lf = 0"
| "tminkey (Nd l n k q r) = (if l = Lf then k else tminkey l)"

fun tminq :: "mtree \<Rightarrow> addr list" where
  "tminq Lf = []"
| "tminq (Nd l n k q r) = (if l = Lf then q else tminq l)"

text \<open>Drop the first link of the least key; remove the node of the least key.\<close>

fun tdeq :: "mtree \<Rightarrow> mtree" where
  "tdeq Lf = Lf"
| "tdeq (Nd l n k q r) = (if l = Lf then Nd l n k (tl q) r else Nd (tdeq l) n k q r)"

fun tdel :: "mtree \<Rightarrow> mtree" where
  "tdel Lf = Lf"
| "tdel (Nd l n k q r) = (if l = Lf then r else Nd (tdel l) n k q r)"

definition tpop :: "mtree \<Rightarrow> mtree" where
  "tpop t = (if tl (tminq t) = [] then tdel t else tdeq t)"

section \<open>Trees on the heap\<close>

fun tree_rep :: "(addr \<Rightarrow> Link) \<Rightarrow> (addr \<Rightarrow> MapNode) \<Rightarrow> addr \<Rightarrow> addr \<Rightarrow> mtree \<Rightarrow> bool" where
  "tree_rep L N par a Lf \<longleftrightarrow> a = 0"
| "tree_rep L N par a (Nd l n k q r) \<longleftrightarrow>
     a = n \<and> n \<noteq> 0 \<and> node_key (N n) = k \<and> node_parent (N n) = par \<and>
     ll_rep L (node_procs (N n)) q \<and>
     tree_rep L N n (node_left (N n)) l \<and> tree_rep L N n (node_right (N n)) r"

lemma tree_rep_cong:
  assumes "\<And>y. y \<in> set (tlinks t) \<Longrightarrow> L y = L' y" and "\<And>n. n \<in> set (tnodes t) \<Longrightarrow> N n = N' n"
  shows "tree_rep L N par a t \<longleftrightarrow> tree_rep L' N' par a t"
  using assms
proof (induction t arbitrary: par a)
  case Lf
  then show ?case by simp
next
  case (Nd l n k q r)
  have "ll_rep L (node_procs (N n)) q \<longleftrightarrow> ll_rep L' (node_procs (N' n)) q"
    using Nd.prems ll_rep_cong [of q L L'] by simp
  with Nd show ?case by simp
qed

lemma tree_rep_Lf_iff: "tree_rep L N par a t \<Longrightarrow> t = Lf \<longleftrightarrow> a = 0"
  by (cases t) auto

lemma tree_rep_nonnull: "tree_rep L N par a t \<Longrightarrow> 0 \<notin> set (tnodes t)"
  by (induction t arbitrary: par a) auto

lemma tree_rep_links_nonnull: "tree_rep L N par a t \<Longrightarrow> 0 \<notin> set (tlinks t)"
  by (induction t arbitrary: par a) (auto dest: ll_rep_nonnull)

section \<open>Frames and the free list of nodes\<close>

definition hframe :: "addr set \<Rightarrow> addr set \<Rightarrow> sched_ds \<Rightarrow> sched_ds \<Rightarrow> bool" where
  "hframe A B s s' \<longleftrightarrow> (\<forall>y. y \<notin> A \<longrightarrow> links s' y = links s y) \<and> (\<forall>n. n \<notin> B \<longrightarrow> nodes s' n = nodes s n) \<and>
     priorityQ s' = priorityQ s \<and> roundRobinQ s' = roundRobinQ s \<and>
     runningProcHolder s' = runningProcHolder s"

lemma hframe_refl [simp]: "hframe A B s s"
  by (simp add: hframe_def)

lemma hframe_trans: "hframe A B s s' \<Longrightarrow> hframe C D s' s'' \<Longrightarrow> hframe (A \<union> C) (B \<union> D) s s''"
  by (auto simp: hframe_def)

lemma hframe_mono: "hframe A B s s' \<Longrightarrow> A \<subseteq> C \<Longrightarrow> B \<subseteq> D \<Longrightarrow> hframe C D s s'"
  by (auto simp: hframe_def)

lemma hframe_links: "hframe A B s s' \<Longrightarrow> y \<notin> A \<Longrightarrow> links s' y = links s y"
  by (auto simp: hframe_def)

lemma hframe_nodes: "hframe A B s s' \<Longrightarrow> n \<notin> B \<Longrightarrow> nodes s' n = nodes s n"
  by (auto simp: hframe_def)

lemma lframe_hframe: "lframe A s s' \<Longrightarrow> hframe A B s s'"
  by (auto simp: hframe_def lframe_def)

lemma tree_rep_hframe:
  assumes "hframe A B s s'" and "A \<inter> set (tlinks t) = {}" and "B \<inter> set (tnodes t) = {}"
  shows "tree_rep (links s') (nodes s') par a t \<longleftrightarrow> tree_rep (links s) (nodes s) par a t"
  using assms by (intro tree_rep_cong) (auto simp: hframe_def)

lemma ll_rep_hframe:
  "hframe A B s s' \<Longrightarrow> A \<inter> set xs = {} \<Longrightarrow> ll_rep (links s') ll xs \<longleftrightarrow> ll_rep (links s) ll xs"
  by (rule ll_rep_cong) (auto simp: hframe_def)

definition nnext :: "(addr \<Rightarrow> MapNode) \<Rightarrow> addr \<Rightarrow> addr" where
  "nnext N x = node_next (N x)"

lemma nnext_apply [simp]: "nnext N x = node_next (N x)"
  by (simp add: nnext_def)

lemma chain_N_upd:
  "y \<notin> set xs \<Longrightarrow> chain (nnext (N(y := c))) a xs \<longleftrightarrow> chain (nnext N) a xs"
  by (rule chain_cong) auto

text \<open>
  \<open>allocNode\<close> resets only the key and the free-list link of the node it hands out:
  the other fields of a free node must be clear.
\<close>

definition clear_node :: "MapNode \<Rightarrow> bool" where
  "clear_node m \<longleftrightarrow> node_procs m = empty_list \<and> node_parent m = 0 \<and> node_left m = 0 \<and> node_right m = 0"

definition free_nodes :: "sched_ds \<Rightarrow> addr list \<Rightarrow> bool" where
  "free_nodes s fn \<longleftrightarrow> chain (nnext (nodes s)) (freeNodes s) fn \<and> (\<forall>n \<in> set fn. clear_node (nodes s n))"

lemma free_nodes_distinct: "free_nodes s fn \<Longrightarrow> distinct fn"
  by (auto simp: free_nodes_def dest: chain_distinct)

lemma free_nodes_nonnull: "free_nodes s fn \<Longrightarrow> 0 \<notin> set fn"
  by (auto simp: free_nodes_def dest: chain_mem_nonnull)

lemma free_nodes_cong:
  assumes "free_nodes s fn" and "freeNodes s' = freeNodes s"
    and "\<And>n. n \<in> set fn \<Longrightarrow> nodes s' n = nodes s n"
  shows "free_nodes s' fn"
  using assms chain_cong [of fn "nnext (nodes s)" "nnext (nodes s')"] by (auto simp: free_nodes_def)

lemma free_nodes_lframe: "lframe A s s' \<Longrightarrow> free_nodes s' fn \<longleftrightarrow> free_nodes s fn"
  by (simp add: free_nodes_def lframe_fields)

lemma free_nodes_upd [simp]:
  "free_nodes (s\<lparr>links := L\<rparr>) fn = free_nodes s fn"
  "free_nodes (s\<lparr>freeLinks := a\<rparr>) fn = free_nodes s fn"
  "free_nodes (s\<lparr>priorityQ := a\<rparr>) fn = free_nodes s fn"
  "free_nodes (s\<lparr>roundRobinQ := ll\<rparr>) fn = free_nodes s fn"
  "free_nodes (s\<lparr>runningProcHolder := ll\<rparr>) fn = free_nodes s fn"
  by (simp_all add: free_nodes_def)

lemmas node_updates = set_node_procs_def set_node_parent_def set_node_left_def set_node_right_def

lemma set_node_fields [simp]:
  "links (set_node_procs a v s) = links s" "freeLinks (set_node_procs a v s) = freeLinks s"
  "freeNodes (set_node_procs a v s) = freeNodes s"
  "links (set_node_parent a w s) = links s" "freeLinks (set_node_parent a w s) = freeLinks s"
  "freeNodes (set_node_parent a w s) = freeNodes s"
  "links (set_node_left a w s) = links s" "freeLinks (set_node_left a w s) = freeLinks s"
  "freeNodes (set_node_left a w s) = freeNodes s"
  "links (set_node_right a w s) = links s" "freeLinks (set_node_right a w s) = freeLinks s"
  "freeNodes (set_node_right a w s) = freeNodes s"
  by (simp_all add: node_updates)

lemma hframe_set_node [simp]:
  "hframe A {a} s (set_node_procs a v s)" "hframe A {a} s (set_node_parent a w s)"
  "hframe A {a} s (set_node_left a w s)" "hframe A {a} s (set_node_right a w s)"
  by (simp_all add: hframe_def node_updates)

lemma free_links_set_node [simp]:
  "free_links (set_node_procs a v s) fl = free_links s fl"
  "free_links (set_node_parent a w s) fl = free_links s fl"
  "free_links (set_node_left a w s) fl = free_links s fl"
  "free_links (set_node_right a w s) fl = free_links s fl"
  by (simp_all add: free_links_def)

lemma free_nodes_set_node:
  assumes "free_nodes s fn" and "a \<notin> set fn"
  shows "free_nodes (set_node_procs a v s) fn" "free_nodes (set_node_parent a w s) fn"
    "free_nodes (set_node_left a w s) fn" "free_nodes (set_node_right a w s) fn"
  using assms by (auto intro!: free_nodes_cong [OF assms(1)] simp: node_updates)

section \<open>Allocating a node\<close>

lemma allocNode_cons:
  assumes "free_nodes s (n # fn)"
  obtains s' where "allocNode k s = (n, s')" "n \<noteq> 0" "free_nodes s' fn" "hframe {} {n} s s'"
    "nodes s' n = new_node k" "links s' = links s" "freeLinks s' = freeLinks s"
proof
  let ?s = "s\<lparr>freeNodes := node_next (nodes s n),
               nodes := (nodes s)(n := (nodes s n)\<lparr>node_next := 0, node_key := k\<rparr>)\<rparr>"
  from assms have ch: "freeNodes s = n" "n \<noteq> 0" "chain (nnext (nodes s)) (node_next (nodes s n)) fn"
    "clear_node (nodes s n)" "\<forall>m \<in> set fn. clear_node (nodes s m)"
    by (auto simp: free_nodes_def)
  have "n \<notin> set fn" using free_nodes_distinct [OF assms] by simp
  then show "free_nodes ?s fn" using ch by (auto simp: free_nodes_def chain_N_upd)
  show "allocNode k s = (n, ?s)" using ch by (simp add: allocNode_def Let_def)
  show "n \<noteq> 0" by (rule ch)
  show "hframe {} {n} s ?s" by (simp add: hframe_def)
  show "nodes ?s n = new_node k" using ch(4)
    by (cases "nodes s n") (simp add: clear_node_def new_node_def)
qed simp_all

lemma deallocNode_spec:
  assumes "free_nodes s fn" and "n \<notin> set fn" and "n \<noteq> 0" and "node_procs (nodes s n) = empty_list"
  shows "free_nodes (deallocNode n s) (n # fn)" "hframe {} {n} s (deallocNode n s)"
    "links (deallocNode n s) = links s" "freeLinks (deallocNode n s) = freeLinks s"
  using assms
  by (auto simp: deallocNode_def free_nodes_def chain_N_upd clear_node_def hframe_def)

lemma allocNode_proc_no_node: "free_nodes s [] \<Longrightarrow> allocNode_proc p k s = Some (0, s)"
  by (simp add: allocNode_proc_def free_nodes_def)

lemma allocNode_proc_no_link:
  assumes fl: "free_links s []" and fn: "free_nodes s (n # fn)"
  obtains s' where "allocNode_proc p k s = Some (0, s')" "free_links s' []"
    "free_nodes s' (n # fn)" "hframe {} {n} s s'" "links s' = links s"
proof -
  from allocNode_cons [OF fn, of k] obtain s1 where s1: "allocNode k s = (n, s1)" "n \<noteq> 0"
    "free_nodes s1 fn" "hframe {} {n} s s1" "nodes s1 n = new_node k" "links s1 = links s"
    "freeLinks s1 = freeLinks s" by blast
  have fl1: "free_links s1 []" using fl s1 by (simp add: free_links_def)
  let ?s2 = "set_node_procs n (node_procs (nodes s1 n)) s1"
  have "n \<notin> set fn" using free_nodes_distinct [OF fn] by simp
  then have fn2: "free_nodes ?s2 fn" using s1(3) by (intro free_nodes_set_node)
  have "node_procs (nodes ?s2 n) = empty_list"
    using s1(5) by (simp add: set_node_procs_def new_node_def)
  note d = deallocNode_spec [OF fn2 \<open>n \<notin> set fn\<close> s1(2) this]
  have "freeNodes s \<noteq> 0" using fn by (auto simp: free_nodes_def)
  then have "allocNode_proc p k s = Some (0, deallocNode n ?s2)"
    using s1 enqueue_full [OF fl1] by (simp add: allocNode_proc_def Let_def)
  moreover have "hframe {} {n} s (deallocNode n ?s2)"
    using hframe_trans [OF hframe_trans [OF s1(4) hframe_set_node(1) [of "{}"]] d(2)] by simp
  moreover have "free_links (deallocNode n ?s2) []"
    using fl1 d(3,4) by (simp add: free_links_def)
  ultimately show ?thesis using that d s1 by simp
qed

lemma allocNode_proc_ok:
  assumes fl: "free_links s (x # fl)" and fn: "free_nodes s (n # fn)"
  obtains s' where "allocNode_proc p k s = Some (n, s')" "n \<noteq> 0" "free_links s' fl" "free_nodes s' fn"
    "hframe {x} {n} s s'" "link_p (links s' x) = p" "ll_rep (links s') (node_procs (nodes s' n)) [x]"
    "node_key (nodes s' n) = k" "node_parent (nodes s' n) = 0" "node_left (nodes s' n) = 0"
    "node_right (nodes s' n) = 0" "node_next (nodes s' n) = 0"
proof -
  from allocNode_cons [OF fn, of k] obtain s1 where s1: "allocNode k s = (n, s1)" "n \<noteq> 0"
    "free_nodes s1 fn" "hframe {} {n} s s1" "nodes s1 n = new_node k" "links s1 = links s"
    "freeLinks s1 = freeLinks s" by blast
  have fl1: "free_links s1 (x # fl)" using fl s1 by (simp add: free_links_def)
  have "ll_rep (links s1) (node_procs (nodes s1 n)) []" using s1(5) by (simp add: new_node_def)
  from enqueue_spec [OF this fl1, of p] obtain ll s2
    where s2: "LinkedList_enqueue p (node_procs (nodes s1 n)) s1 = Some (True, ll, s2)"
    "ll_rep (links s2) ll [x]" "free_links s2 fl" "lframe {x} s1 s2" "link_p (links s2 x) = p"
    by (simp, metis)
  let ?s3 = "set_node_procs n ll s2"
  have fnn: "n \<notin> set fn" using free_nodes_distinct [OF fn] by simp
  have "free_nodes ?s3 fn"
    using s1(3) fnn by (intro free_nodes_set_node) (simp_all add: free_nodes_lframe [OF s2(4)])
  moreover have "freeNodes s \<noteq> 0" using fn by (auto simp: free_nodes_def)
  then have "allocNode_proc p k s = Some (n, ?s3)"
    using s1(1,2) s2(1) by (simp add: allocNode_proc_def Let_def)
  moreover have "hframe {x} {n} s ?s3"
    using hframe_trans [OF hframe_trans [OF s1(4) lframe_hframe [OF s2(4), of "{}"]]
      hframe_set_node(1) [of "{}" n s2 ll]]
    by simp
  moreover have "nodes ?s3 n = (new_node k)\<lparr>node_procs := ll\<rparr>"
    using s1(5) lframe_fields [OF s2(4)] by (simp add: set_node_procs_def)
  ultimately show ?thesis using that s1(2) s2 by (simp add: new_node_def)
qed

section \<open>Inserting\<close>

lemma set_tlinks_tput: "set (tlinks (tput k x m t)) = insert x (set (tlinks t))"
  by (induction t) auto

lemma mset_tlinks_tput: "mset (tlinks (tput k x m t)) = add_mset x (mset (tlinks t))"
  by (induction t) auto

lemma mset_tnodes_tput:
  "tinv t \<Longrightarrow> mset (tnodes (tput k x m t)) = (if k \<in> tkeys t then mset (tnodes t) else add_mset m (mset (tnodes t)))"
  by (induction t) auto

lemma tkeys_tput: "tkeys (tput k x m t) = insert k (tkeys t)"
  by (induction t) auto

lemma tinv_tput: "tinv t \<Longrightarrow> tinv (tput k x m t)"
  by (induction t) (auto simp: tkeys_tput)

lemma tree_rep_child_update:
  assumes tr: "tree_rep (links s) (nodes s) par n (Nd l n k q r)"
    and fr: "hframe A B s s'" and "n \<notin> B" and "A \<inter> set q = {}"
    and "tree_rep (links s') (nodes s') n (node_left (nodes s n)) l'"
    and "tree_rep (links s') (nodes s') n (node_right (nodes s n)) r'"
  shows "tree_rep (links s') (nodes s') par n (Nd l' n k q r')"
  using assms by (simp add: hframe_nodes [OF fr] ll_rep_hframe [OF fr])

text \<open>The two ways in which \<^verbatim>\<open>put\<close> hangs a new node below a node with a free side.\<close>

lemma attach_left:
  assumes tr: "tree_rep (links s) (nodes s) par n (Nd Lf n k q r)"
    and fl: "free_links s (x # fl)" and fn: "free_nodes s (m # fn)"
    and dl: "distinct (x # fl @ q @ tlinks r)" and dn: "distinct (m # fn @ n # tnodes r)"
    and a: "allocNode_proc p j s = Some (m, s1)"
  defines "s3 \<equiv> set_node_parent m n (set_node_left n m s1)"
  shows "tree_rep (links s3) (nodes s3) par n (Nd (Nd Lf m j [x] Lf) n k q r)"
    "free_links s3 fl" "free_nodes s3 fn" "hframe {x} {m, n} s s3" "link_p (links s3 x) = p" "m \<noteq> 0"
proof -
  from allocNode_proc_ok [OF fl fn, of p j] a have s1: "m \<noteq> 0" "free_links s1 fl" "free_nodes s1 fn"
    "hframe {x} {m} s s1" "link_p (links s1 x) = p" "ll_rep (links s1) (node_procs (nodes s1 m)) [x]"
    "node_key (nodes s1 m) = j" "node_left (nodes s1 m) = 0" "node_right (nodes s1 m) = 0"
    by auto
  show "m \<noteq> 0" by (rule s1)
  show fr: "hframe {x} {m, n} s s3"
    using hframe_trans [OF hframe_trans [OF s1(4) hframe_set_node(3) [of "{}" n s1 m]]
      hframe_set_node(2) [of "{}" m _ n]]
    by (simp add: s3_def insert_commute)
  show "free_links s3 fl" "link_p (links s3 x) = p" using s1 by (simp_all add: s3_def)
  show "free_nodes s3 fn" unfolding s3_def using s1(3) dn
    by (intro free_nodes_set_node) auto
  have n: "nodes s3 n = (nodes s n)\<lparr>node_left := m\<rparr>"
    using dn hframe_nodes [OF s1(4), of n] by (auto simp: s3_def node_updates)
  have m: "nodes s3 m = (nodes s1 m)\<lparr>node_parent := n\<rparr>"
    using dn by (auto simp: s3_def node_updates)
  have "tree_rep (links s3) (nodes s3) n m (Nd Lf m j [x] Lf)"
    using s1 by (simp add: m) (simp add: s3_def)
  moreover have "tree_rep (links s3) (nodes s3) n (node_right (nodes s n)) r"
    using tr dl dn by (subst tree_rep_hframe [OF fr]) auto
  ultimately show "tree_rep (links s3) (nodes s3) par n (Nd (Nd Lf m j [x] Lf) n k q r)"
    using tr dl by (simp add: n ll_rep_hframe [OF fr])
qed

lemma attach_right:
  assumes tr: "tree_rep (links s) (nodes s) par n (Nd l n k q Lf)"
    and fl: "free_links s (x # fl)" and fn: "free_nodes s (m # fn)"
    and dl: "distinct (x # fl @ tlinks l @ q)" and dn: "distinct (m # fn @ tnodes l @ [n])"
    and a: "allocNode_proc p j s = Some (m, s1)"
  defines "s3 \<equiv> set_node_parent m n (set_node_right n m s1)"
  shows "tree_rep (links s3) (nodes s3) par n (Nd l n k q (Nd Lf m j [x] Lf))"
    "free_links s3 fl" "free_nodes s3 fn" "hframe {x} {m, n} s s3" "link_p (links s3 x) = p" "m \<noteq> 0"
proof -
  from allocNode_proc_ok [OF fl fn, of p j] a have s1: "m \<noteq> 0" "free_links s1 fl" "free_nodes s1 fn"
    "hframe {x} {m} s s1" "link_p (links s1 x) = p" "ll_rep (links s1) (node_procs (nodes s1 m)) [x]"
    "node_key (nodes s1 m) = j" "node_left (nodes s1 m) = 0" "node_right (nodes s1 m) = 0"
    by auto
  show "m \<noteq> 0" by (rule s1)
  show fr: "hframe {x} {m, n} s s3"
    using hframe_trans [OF hframe_trans [OF s1(4) hframe_set_node(4) [of "{}" n s1 m]]
      hframe_set_node(2) [of "{}" m _ n]]
    by (simp add: s3_def insert_commute)
  show "free_links s3 fl" "link_p (links s3 x) = p" using s1 by (simp_all add: s3_def)
  show "free_nodes s3 fn" unfolding s3_def using s1(3) dn
    by (intro free_nodes_set_node) auto
  have n: "nodes s3 n = (nodes s n)\<lparr>node_right := m\<rparr>"
    using dn hframe_nodes [OF s1(4), of n] by (auto simp: s3_def node_updates)
  have m: "nodes s3 m = (nodes s1 m)\<lparr>node_parent := n\<rparr>"
    using dn by (auto simp: s3_def node_updates)
  have "tree_rep (links s3) (nodes s3) n m (Nd Lf m j [x] Lf)"
    using s1 by (simp add: m) (simp add: s3_def)
  moreover have "tree_rep (links s3) (nodes s3) n (node_left (nodes s n)) l"
    using tr dl dn by (subst tree_rep_hframe [OF fr]) auto
  ultimately show "tree_rep (links s3) (nodes s3) par n (Nd l n k q (Nd Lf m j [x] Lf))"
    using tr dl by (simp add: n ll_rep_hframe [OF fr])
qed

lemma put_here:
  assumes tr: "tree_rep (links s) (nodes s) par n (Nd l n k q r)"
    and fl: "free_links s (x # fl)" and fn: "free_nodes s fn"
    and dl: "distinct (x # fl @ tlinks (Nd l n k q r))" and dn: "distinct (fn @ tnodes (Nd l n k q r))"
  obtains ll s1 where "LinkedList_enqueue p (node_procs (nodes s n)) s = Some (True, ll, s1)"
    "tree_rep (links s1) (nodes (set_node_procs n ll s1)) par n (Nd l n k (q @ [x]) r)"
    "free_links s1 fl" "free_nodes (set_node_procs n ll s1) fn"
    "hframe (insert x (set q)) {n} s (set_node_procs n ll s1)"
    "link_p (links s1 x) = p"  "\<And>y. y \<noteq> x \<Longrightarrow> link_p (links s1 y) = link_p (links s y)"
proof -
  have rep: "ll_rep (links s) (node_procs (nodes s n)) q" using tr by simp
  have dq: "set (x # fl) \<inter> set q = {}" using dl by auto
  from enqueue_spec [OF rep fl dq, of p] obtain ll s1
    where s1: "LinkedList_enqueue p (node_procs (nodes s n)) s = Some (True, ll, s1)"
    "ll_rep (links s1) ll (q @ [x])" "free_links s1 fl" "lframe (insert x (set q)) s s1"
    "link_p (links s1 x) = p" and lp: "\<And>y. y \<noteq> x \<Longrightarrow> link_p (links s1 y) = link_p (links s y)"
    by blast
  let ?s2 = "set_node_procs n ll s1"
  have fr: "hframe (insert x (set q)) {n} s ?s2"
    using hframe_trans [OF lframe_hframe [OF s1(4), of "{}"] hframe_set_node(1) [of "{}"]] by simp
  have n: "nodes ?s2 n = (nodes s n)\<lparr>node_procs := ll\<rparr>"
    using lframe_fields [OF s1(4)] by (simp add: set_node_procs_def)
  have "tree_rep (links ?s2) (nodes ?s2) n (node_left (nodes s n)) l"
    "tree_rep (links ?s2) (nodes ?s2) n (node_right (nodes s n)) r"
    using tr dl dn by (subst tree_rep_hframe [OF fr]; auto)+
  then have "tree_rep (links s1) (nodes ?s2) par n (Nd l n k (q @ [x]) r)"
    using tr s1(2) by (simp add: n)
  moreover have "free_nodes ?s2 fn"
    using fn dn by (intro free_nodes_set_node) (auto simp: free_nodes_lframe [OF s1(4)])
  ultimately show ?thesis using that s1 fr lp by blast
qed

text \<open>What \<^verbatim>\<open>put\<close> starts from and what it leaves, for a subtree \<open>t\<close> at \<open>a\<close> below \<open>par\<close>.\<close>

definition put_pre :: "sched_ds \<Rightarrow> addr \<Rightarrow> addr list \<Rightarrow> addr list \<Rightarrow> addr \<Rightarrow> addr \<Rightarrow> mtree \<Rightarrow> bool" where
  "put_pre s x fl fn par a t \<longleftrightarrow> tree_rep (links s) (nodes s) par a t \<and> tinv t \<and>
     free_links s (x # fl) \<and> free_nodes s fn \<and>
     distinct (x # fl @ tlinks t) \<and> distinct (fn @ tnodes t)"

definition put_post ::
  "procp \<Rightarrow> int \<Rightarrow> addr \<Rightarrow> addr list \<Rightarrow> addr list \<Rightarrow> addr \<Rightarrow> addr \<Rightarrow> mtree \<Rightarrow> sched_ds \<Rightarrow> sched_ds \<Rightarrow> bool" where
  "put_post p k x fl fn par a t s s' \<longleftrightarrow>
     tree_rep (links s') (nodes s') par a (tput k x (hd fn) t) \<and>
     free_links s' fl \<and> free_nodes s' (if k \<in> tkeys t then fn else tl fn) \<and>
     hframe (insert x (set (tlinks t))) (set fn \<union> set (tnodes t)) s s' \<and>
     link_p (links s' x) = p \<and> (\<forall>y. y \<noteq> x \<longrightarrow> link_p (links s' y) = link_p (links s y))"

lemma put_pre_sub:
  assumes "put_pre s x fl fn par a (Nd l n k q r)"
  shows "put_pre s x fl fn n (node_left (nodes s n)) l" "put_pre s x fl fn n (node_right (nodes s n)) r"
    "a = n" "node_key (nodes s n) = k" "node_left (nodes s n) = 0 \<longleftrightarrow> l = Lf" "node_right (nodes s n) = 0 \<longleftrightarrow> r = Lf"
  using assms by (auto simp: put_pre_def tree_rep_Lf_iff)

lemma put_case_here:
  assumes pre: "put_pre s x fl fn par n (Nd l n k q r)"
  shows "\<exists>s'. MapNode_put p k n s = Some (True, s') \<and> put_post p k x fl fn par n (Nd l n k q r) s s'"
proof -
  from pre put_here [of s par n l k q r x fl fn p] obtain ll s1
    where e: "LinkedList_enqueue p (node_procs (nodes s n)) s = Some (True, ll, s1)"
      and R: "tree_rep (links s1) (nodes (set_node_procs n ll s1)) par n (Nd l n k (q @ [x]) r)"
        "free_links s1 fl" "free_nodes (set_node_procs n ll s1) fn"
        "hframe (insert x (set q)) {n} s (set_node_procs n ll s1)"
        "link_p (links s1 x) = p" "\<And>y. y \<noteq> x \<Longrightarrow> link_p (links s1 y) = link_p (links s y)"
    unfolding put_pre_def by blast
  have "MapNode_put p k n s = Some (True, set_node_procs n ll s1)"
    using put_pre_sub(4) [OF pre] e by (simp add: MapNode_put.simps [of p k n])
  moreover have "hframe (insert x (set (tlinks (Nd l n k q r)))) (set fn \<union> set (tnodes (Nd l n k q r))) s
      (set_node_procs n ll s1)"
    using R(4) by (rule hframe_mono) auto
  ultimately show ?thesis using R by (simp add: put_post_def del: tree_rep.simps)
qed

lemma put_post_left:
  assumes pre: "put_pre s x fl fn par n (Nd l n j q r)" and k: "k < j"
    and post: "put_post p k x fl fn n (node_left (nodes s n)) l s s'"
  shows "put_post p k x fl fn par n (Nd l n j q r) s s'"
proof -
  have fr: "hframe (insert x (set (tlinks l))) (set fn \<union> set (tnodes l)) s s'"
    using post by (simp add: put_post_def)
  have tr: "tree_rep (links s) (nodes s) par n (Nd l n j q r)" using pre by (simp add: put_pre_def)
  have "tree_rep (links s') (nodes s') par n (Nd (tput k x (hd fn) l) n j q r)"
  proof (rule tree_rep_child_update [OF tr fr])
    show "n \<notin> set fn \<union> set (tnodes l)" "insert x (set (tlinks l)) \<inter> set q = {}"
      using pre by (auto simp: put_pre_def)
    show "tree_rep (links s') (nodes s') n (node_left (nodes s n)) (tput k x (hd fn) l)"
      using post by (simp add: put_post_def)
    show "tree_rep (links s') (nodes s') n (node_right (nodes s n)) r"
      using pre by (subst tree_rep_hframe [OF fr]) (auto simp: put_pre_def)
  qed
  moreover have "k \<in> tkeys (Nd l n j q r) \<longleftrightarrow> k \<in> tkeys l" using k pre by (auto simp: put_pre_def)
  moreover have "hframe (insert x (set (tlinks (Nd l n j q r)))) (set fn \<union> set (tnodes (Nd l n j q r))) s s'"
    using fr by (rule hframe_mono) auto
  ultimately show ?thesis using post k by (simp add: put_post_def del: tree_rep.simps)
qed

lemma put_post_right:
  assumes pre: "put_pre s x fl fn par n (Nd l n j q r)" and k: "j < k"
    and post: "put_post p k x fl fn n (node_right (nodes s n)) r s s'"
  shows "put_post p k x fl fn par n (Nd l n j q r) s s'"
proof -
  have fr: "hframe (insert x (set (tlinks r))) (set fn \<union> set (tnodes r)) s s'"
    using post by (simp add: put_post_def)
  have tr: "tree_rep (links s) (nodes s) par n (Nd l n j q r)" using pre by (simp add: put_pre_def)
  have "tree_rep (links s') (nodes s') par n (Nd l n j q (tput k x (hd fn) r))"
  proof (rule tree_rep_child_update [OF tr fr])
    show "n \<notin> set fn \<union> set (tnodes r)" "insert x (set (tlinks r)) \<inter> set q = {}"
      using pre by (auto simp: put_pre_def)
    show "tree_rep (links s') (nodes s') n (node_right (nodes s n)) (tput k x (hd fn) r)"
      using post by (simp add: put_post_def)
    show "tree_rep (links s') (nodes s') n (node_left (nodes s n)) l"
      using pre by (subst tree_rep_hframe [OF fr]) (auto simp: put_pre_def)
  qed
  moreover have "k \<in> tkeys (Nd l n j q r) \<longleftrightarrow> k \<in> tkeys r" using k pre by (auto simp: put_pre_def)
  moreover have "hframe (insert x (set (tlinks (Nd l n j q r)))) (set fn \<union> set (tnodes (Nd l n j q r))) s s'"
    using fr by (rule hframe_mono) auto
  ultimately show ?thesis using post k by (simp add: put_post_def del: tree_rep.simps)
qed

lemma put_case_newleft:
  assumes pre: "put_pre s x fl (m # fn) par n (Nd Lf n j q r)" and k: "k < j"
  shows "\<exists>s'. MapNode_put p k n s = Some (True, s') \<and> put_post p k x fl (m # fn) par n (Nd Lf n j q r) s s'"
proof -
  note P = pre [unfolded put_pre_def]
  from allocNode_proc_ok [of s x fl m fn p k] P obtain s1
    where s1: "allocNode_proc p k s = Some (m, s1)" by metis
  have H: "tree_rep (links s) (nodes s) par n (Nd Lf n j q r)" "free_links s (x # fl)" "free_nodes s (m # fn)"
    "distinct (x # fl @ q @ tlinks r)" "distinct (m # fn @ n # tnodes r)"
    using P by auto
  let ?s3 = "set_node_parent m n (set_node_left n m s1)"
  have R: "tree_rep (links ?s3) (nodes ?s3) par n (Nd (Nd Lf m k [x] Lf) n j q r)"
    "free_links ?s3 fl" "free_nodes ?s3 fn" "hframe {x} {m, n} s ?s3" "link_p (links ?s3 x) = p" "m \<noteq> 0"
    by (rule attach_left [OF H s1])+
  have "MapNode_put p k n s = Some (True, ?s3)"
    using put_pre_sub [OF pre] k s1 R(6) by (simp add: MapNode_put.simps [of p k n])
  moreover have "k \<notin> tkeys (Nd Lf n j q r)" using k P by auto
  moreover have "hframe (insert x (set (tlinks (Nd Lf n j q r)))) (set (m # fn) \<union> set (tnodes (Nd Lf n j q r))) s ?s3"
    using R(4) by (rule hframe_mono) auto
  moreover have "\<forall>y. y \<noteq> x \<longrightarrow> link_p (links ?s3 y) = link_p (links s y)"
    using hframe_links [OF R(4)] by auto
  ultimately show ?thesis using R k by (simp add: put_post_def del: tree_rep.simps)
qed

lemma put_case_newright:
  assumes pre: "put_pre s x fl (m # fn) par n (Nd l n j q Lf)" and k: "j < k"
  shows "\<exists>s'. MapNode_put p k n s = Some (True, s') \<and> put_post p k x fl (m # fn) par n (Nd l n j q Lf) s s'"
proof -
  note P = pre [unfolded put_pre_def]
  from allocNode_proc_ok [of s x fl m fn p k] P obtain s1
    where s1: "allocNode_proc p k s = Some (m, s1)" by metis
  have H: "tree_rep (links s) (nodes s) par n (Nd l n j q Lf)" "free_links s (x # fl)" "free_nodes s (m # fn)"
    "distinct (x # fl @ tlinks l @ q)" "distinct (m # fn @ tnodes l @ [n])"
    using P by auto
  let ?s3 = "set_node_parent m n (set_node_right n m s1)"
  have R: "tree_rep (links ?s3) (nodes ?s3) par n (Nd l n j q (Nd Lf m k [x] Lf))"
    "free_links ?s3 fl" "free_nodes ?s3 fn" "hframe {x} {m, n} s ?s3" "link_p (links ?s3 x) = p" "m \<noteq> 0"
    by (rule attach_right [OF H s1])+
  have "MapNode_put p k n s = Some (True, ?s3)"
    using put_pre_sub [OF pre] k s1 R(6) by (simp add: MapNode_put.simps [of p k n])
  moreover have "k \<notin> tkeys (Nd l n j q Lf)" using k P by auto
  moreover have "hframe (insert x (set (tlinks (Nd l n j q Lf)))) (set (m # fn) \<union> set (tnodes (Nd l n j q Lf))) s ?s3"
    using R(4) by (rule hframe_mono) auto
  moreover have "\<forall>y. y \<noteq> x \<longrightarrow> link_p (links ?s3 y) = link_p (links s y)"
    using hframe_links [OF R(4)] by auto
  ultimately show ?thesis using R k by (simp add: put_post_def del: tree_rep.simps)
qed

lemma MapNode_put_ok:
  assumes "put_pre s x fl fn par a t" and "t \<noteq> Lf" and "k \<in> tkeys t \<or> fn \<noteq> []"
  shows "\<exists>s'. MapNode_put p k a s = Some (True, s') \<and> put_post p k x fl fn par a t s s'"
  using assms
proof (induction t arbitrary: par a)
  case Lf
  then show ?case by simp
next
  case (Nd l n j q r)
  note sub = put_pre_sub [OF Nd.prems(1)]
  have pre: "put_pre s x fl fn par n (Nd l n j q r)" using Nd.prems(1) sub(3) by simp
  have tinv: "tinv (Nd l n j q r)" using pre by (simp add: put_pre_def)
  consider (here) "k = j" | (left) "k < j" "l \<noteq> Lf" | (newleft) "k < j" "l = Lf"
    | (right) "j < k" "r \<noteq> Lf" | (newright) "j < k" "r = Lf"
    by fastforce
  then show ?case
  proof cases
    case here
    with put_case_here pre sub(3) show ?thesis by blast
  next
    case left
    have "k \<in> tkeys l \<or> fn \<noteq> []" using left Nd.prems(3) tinv by auto
    from Nd.IH(1) [OF sub(1) left(2) this] put_post_left [OF pre left(1)] obtain s'
      where "MapNode_put p k (node_left (nodes s n)) s = Some (True, s')"
        "put_post p k x fl fn par n (Nd l n j q r) s s'" by blast
    moreover have "MapNode_put p k a s = MapNode_put p k (node_left (nodes s n)) s"
      using left sub by (subst MapNode_put.simps) simp
    ultimately show ?thesis using sub(3) by simp
  next
    case newleft
    then obtain m fn' where "fn = m # fn'" using Nd.prems(3) tinv by (cases fn) auto
    with put_case_newleft newleft pre sub(3) show ?thesis by blast
  next
    case right
    have "k \<in> tkeys r \<or> fn \<noteq> []" using right Nd.prems(3) tinv by auto
    from Nd.IH(2) [OF sub(2) right(2) this] put_post_right [OF pre right(1)] obtain s'
      where "MapNode_put p k (node_right (nodes s n)) s = Some (True, s')"
        "put_post p k x fl fn par n (Nd l n j q r) s s'" by blast
    moreover have "MapNode_put p k a s = MapNode_put p k (node_right (nodes s n)) s"
      using right sub by (subst MapNode_put.simps) simp
    ultimately show ?thesis using sub(3) by simp
  next
    case newright
    then obtain m fn' where "fn = m # fn'" using Nd.prems(3) tinv by (cases fn) auto
    with put_case_newright newright pre sub(3) show ?thesis by blast
  qed
qed

text \<open>With no free link left, \<^verbatim>\<open>put\<close> reports failure and the tree is as before.\<close>

lemma set_node_same [simp]:
  "set_node_procs a (node_procs (nodes s a)) s = s"
  "node_left (nodes s a) = 0 \<Longrightarrow> set_node_left a 0 s = s"
  "node_right (nodes s a) = 0 \<Longrightarrow> set_node_right a 0 s = s"
  by (cases "nodes s a"; simp add: node_updates fun_upd_idem)+

lemma allocNode_proc_full:
  assumes "free_links s []" and "free_nodes s fn"
  obtains s' where "allocNode_proc p k s = Some (0, s')" "free_links s' []" "free_nodes s' fn"
    "hframe {} (set fn) s s'" "links s' = links s"
proof (cases fn)
  case Nil
  with assms allocNode_proc_no_node [of s p k] that [of s] show ?thesis by simp
next
  case (Cons n ns)
  with assms allocNode_proc_no_link [of s n ns p k] obtain s'
    where "allocNode_proc p k s = Some (0, s')" "free_links s' []" "free_nodes s' fn"
      "hframe {} {n} s s'" "links s' = links s" by blast
  with that [of s'] hframe_mono [of "{}" "{n}" s s' "{}" "set fn"] Cons show ?thesis by simp
qed

definition put_full_post :: "addr list \<Rightarrow> sched_ds \<Rightarrow> sched_ds \<Rightarrow> bool" where
  "put_full_post fn s s' \<longleftrightarrow> free_links s' [] \<and> free_nodes s' fn \<and> hframe {} (set fn) s s' \<and> links s' = links s"

lemma MapNode_put_full:
  assumes "tree_rep (links s) (nodes s) par a t" and "t \<noteq> Lf"
    and "free_links s []" and "free_nodes s fn" and "distinct (fn @ tnodes t)"
  shows "\<exists>s'. MapNode_put p k a s = Some (False, s') \<and> put_full_post fn s s'"
  using assms
proof (induction t arbitrary: par a)
  case Lf
  then show ?case by simp
next
  case (Nd l n j q r)
  from allocNode_proc_full [OF Nd.prems(3,4), of p k] obtain s1
    where s1: "allocNode_proc p k s = Some (0, s1)" "put_full_post fn s s1"
    unfolding put_full_post_def by blast
  have n: "nodes s1 n = nodes s n"
    using s1(2) Nd.prems(5) by (auto simp: put_full_post_def dest: hframe_nodes)
  have a: "a = n" "node_key (nodes s n) = j" "node_left (nodes s n) = 0 \<longleftrightarrow> l = Lf"
    "node_right (nodes s n) = 0 \<longleftrightarrow> r = Lf"
    using Nd.prems(1) by (auto simp: tree_rep_Lf_iff)
  consider (here) "k = j" | (left) "k < j" "l \<noteq> Lf" | (newleft) "k < j" "l = Lf"
    | (right) "j < k" "r \<noteq> Lf" | (newright) "j < k" "r = Lf"
    by fastforce
  then show ?case
  proof cases
    case here
    then show ?thesis using a Nd.prems(3,4) enqueue_full [OF Nd.prems(3)]
      by (simp add: MapNode_put.simps [of p j n] put_full_post_def)
  next
    case left
    then have "\<exists>s'. MapNode_put p k (node_left (nodes s n)) s = Some (False, s') \<and> put_full_post fn s s'"
      using Nd.prems by (intro Nd.IH(1)) auto
    then show ?thesis using left a unfolding a(1) by (subst MapNode_put.simps) simp
  next
    case newleft
    then show ?thesis using a s1 n unfolding a(1) by (subst MapNode_put.simps) simp
  next
    case right
    then have "\<exists>s'. MapNode_put p k (node_right (nodes s n)) s = Some (False, s') \<and> put_full_post fn s s'"
      using Nd.prems by (intro Nd.IH(2)) auto
    then show ?thesis using right a unfolding a(1) by (subst MapNode_put.simps) simp
  next
    case newright
    then show ?thesis using a s1 n unfolding a(1) by (subst MapNode_put.simps) simp
  qed
qed

section \<open>The least key\<close>

lemma getMinNode_rep: "tree_rep L N par a t \<Longrightarrow> t \<noteq> Lf \<Longrightarrow> MapNode_getMinNode N a = Some (tmin t)"
proof (induction t arbitrary: par a)
  case Lf
  then show ?case by simp
next
  case (Nd l n k q r)
  then show ?case by (subst MapNode_getMinNode.simps) (auto simp: tree_rep_Lf_iff)
qed

lemma tree_rep_min:
  "tree_rep L N par a t \<Longrightarrow> t \<noteq> Lf \<Longrightarrow> tmin t \<in> set (tnodes t) \<and> tmin t \<noteq> 0 \<and>
     node_key (N (tmin t)) = tminkey t \<and> ll_rep L (node_procs (N (tmin t))) (tminq t)"
proof (induction t arbitrary: par a)
  case Lf
  then show ?case by simp
next
  case (Nd l n k q r)
  then show ?case by (cases "l = Lf") auto
qed

lemma set_tminq: "set (tminq t) \<subseteq> set (tlinks t)"
  by (induction t) auto

lemma Map_getMinKey_rep:
  assumes "tree_rep (links s) (nodes s) par a t"
  shows "Map_getMinKey a s = Some (if t = Lf then None else Some (tminkey t))"
  using assms getMinNode_rep [OF assms] tree_rep_min [OF assms]
  by (auto simp: Map_getMinKey_def Map_isEmpty_def MapNode_getMinKey_def tree_rep_Lf_iff)

section \<open>Extracting\<close>

lemma tlinks_tdeq: "t \<noteq> Lf \<Longrightarrow> tminq t = x # q \<Longrightarrow> tlinks t = x # tlinks (tdeq t)"
proof (induction t)
  case (Nd l n k q r)
  then show ?case by (cases "l = Lf") auto
qed simp

lemma tdeq_simps [simp]:
  "tnodes (tdeq t) = tnodes t" "tkeys (tdeq t) = tkeys t" "tmin (tdeq t) = tmin t"
  "tminq (tdeq t) = tl (tminq t)" "tdeq t = Lf \<longleftrightarrow> t = Lf" "tminkey (tdeq t) = tminkey t"
  "tdel (tdeq t) = tdel t"
proof -
  show "tnodes (tdeq t) = tnodes t" "tkeys (tdeq t) = tkeys t" by (induction t) auto
  show lf: "tdeq t = Lf \<longleftrightarrow> t = Lf" for t by (cases t) auto
  show "tmin (tdeq t) = tmin t" "tminq (tdeq t) = tl (tminq t)" "tminkey (tdeq t) = tminkey t"
    "tdel (tdeq t) = tdel t"
    by (induction t) (auto simp: lf)
qed

lemma tnodes_tdel: "t \<noteq> Lf \<Longrightarrow> tnodes t = tmin t # tnodes (tdel t)"
proof (induction t)
  case (Nd l n k q r)
  then show ?case by (cases "l = Lf") auto
qed simp

lemma tlinks_tdel: "tlinks t = tminq t @ tlinks (tdel t)"
proof (induction t)
  case (Nd l n k q r)
  then show ?case by (cases "l = Lf") auto
qed simp

text \<open>First step: the head of the least list goes back to the free list.\<close>

lemma tree_rep_tdeq:
  assumes "tree_rep L N par a t" and "t \<noteq> Lf" and "distinct (tnodes t)" and "distinct (tlinks t)"
    and "tminq t = x # q" and "ll_rep L' ll q"
    and "\<And>y. y \<noteq> x \<Longrightarrow> L' y = L y"
    and "\<And>n. n \<noteq> tmin t \<Longrightarrow> N' n = N n" and "N' (tmin t) = (N (tmin t))\<lparr>node_procs := ll\<rparr>"
  shows "tree_rep L' N' par a (tdeq t)"
  using assms
proof (induction t arbitrary: par a)
  case Lf
  then show ?case by simp
next
  case (Nd l n k p r)
  show ?case
  proof (cases "l = Lf")
    case True
    have "L' y = L y" if "y \<in> set (tlinks r)" for y
      using that Nd.prems(4,5) True by (intro Nd.prems(7)) auto
    moreover have "N' m = N m" if "m \<in> set (tnodes r)" for m
      using that Nd.prems(3) True by (intro Nd.prems(8)) auto
    ultimately have "tree_rep L' N' n (node_right (N n)) r"
      using Nd.prems(1) by (subst tree_rep_cong [of r L' L N' N]) simp_all
    then show ?thesis using Nd.prems True by auto
  next
    case False
    have m: "tmin l \<in> set (tnodes l)" using Nd.prems(1) False tree_rep_min [of L N n _ l] by auto
    have x: "x \<in> set (tlinks l)" using set_tminq [of l] Nd.prems(5) False by auto
    have "tree_rep L' N' n (node_left (N n)) (tdeq l)"
      using Nd.prems False by (intro Nd.IH(1)) auto
    moreover have "L' y = L y" if "y \<in> set (tlinks r) \<union> set p" for y
      using that Nd.prems(4) x by (intro Nd.prems(7)) auto
    moreover have "N' m = N m" if "m = n \<or> m \<in> set (tnodes r)" for m
      using that Nd.prems(3) m False by (intro Nd.prems(8)) auto
    moreover have "tree_rep L' N' n (node_right (N n)) r" if "\<And>y. y \<in> set (tlinks r) \<Longrightarrow> L' y = L y"
      "\<And>m. m \<in> set (tnodes r) \<Longrightarrow> N' m = N m"
      using that Nd.prems(1) by (subst tree_rep_cong [of r L' L N' N]) simp_all
    moreover have "ll_rep L' (node_procs (N n)) p" if "\<And>y. y \<in> set p \<Longrightarrow> L' y = L y"
      using that Nd.prems(1) by (subst ll_rep_cong [of p L' L]) simp_all
    ultimately show ?thesis using Nd.prems False by simp
  qed
qed

text \<open>Second step: an emptied node is cut out, its right subtree taking its place.\<close>

definition unlink_min :: "(addr \<Rightarrow> MapNode) \<Rightarrow> addr \<Rightarrow> (addr \<Rightarrow> MapNode)" where
  "unlink_min N m =
     (let pp = node_parent (N m); rc = node_right (N m);
          N1 = N(pp := (N pp)\<lparr>node_left := rc\<rparr>)
      in if rc \<noteq> 0 then N1(rc := (N1 rc)\<lparr>node_parent := pp\<rparr>) else N1)"

lemma unlink_min_outside: "n \<noteq> node_parent (N m) \<Longrightarrow> n \<noteq> node_right (N m) \<Longrightarrow> unlink_min N m n = N n"
  by (simp add: unlink_min_def Let_def)

lemma tmin_neighbours:
  assumes "tree_rep L N par a t" and "t \<noteq> Lf"
  shows "node_right (N (tmin t)) \<in> insert 0 (set (tnodes t))"
    "tmin t = a \<and> node_parent (N (tmin t)) = par \<or> node_parent (N (tmin t)) \<in> set (tnodes t)"
  using assms
proof (induction t arbitrary: par a)
  case (Nd l n k q r)
  { case 1
    show ?case
    proof (cases "l = Lf")
      case True
      then show ?thesis using 1 by (cases r) auto
    next
      case False
      then show ?thesis using 1 Nd.IH(1) [of n "node_left (N n)"] by auto
    qed }
  { case 2
    show ?case
    proof (cases "l = Lf")
      case True
      then show ?thesis using 2 by auto
    next
      case False
      then show ?thesis using 2 Nd.IH(2) [of n "node_left (N n)"] by auto
    qed }
qed simp_all

lemma tree_rep_reparent:
  assumes "tree_rep L N par a t" and "distinct (tnodes t)"
    and "\<And>n. n \<in> set (tnodes t) \<Longrightarrow> n \<noteq> a \<Longrightarrow> N' n = N n"
    and "a \<noteq> 0 \<Longrightarrow> N' a = (N a)\<lparr>node_parent := par'\<rparr>"
  shows "tree_rep L N' par' a t"
proof (cases t)
  case Lf
  then show ?thesis using assms by simp
next
  case (Nd l n k q r)
  have "N' m = N m" if "m \<in> set (tnodes l) \<union> set (tnodes r)" for m
    using that assms(1,2) Nd by (intro assms(3)) auto
  then have "tree_rep L N' n (node_left (N n)) l" "tree_rep L N' n (node_right (N n)) r"
    using assms(1) Nd by (simp_all add: tree_rep_cong [of l L L N' N] tree_rep_cong [of r L L N' N])
  then show ?thesis using assms Nd by simp
qed

lemma tree_rep_tdel:
  assumes "tree_rep L N par a t" and "t \<noteq> Lf" and "tmin t \<noteq> a" and "distinct (tnodes t)"
  shows "tree_rep L (unlink_min N (tmin t)) par a (tdel t)"
  using assms
proof (induction t arbitrary: par a)
  case Lf
  then show ?case by simp
next
  case (Nd l n k q r)
  let ?N = "unlink_min N (tmin l)"
  have l: "l \<noteq> Lf" "tree_rep L N n (node_left (N n)) l" "distinct (tnodes l)"
    using Nd.prems by auto
  note nb = tmin_neighbours [OF l(2,1)]
  have r: "tree_rep L ?N n (node_right (N n)) r"
    using Nd.prems nb tree_rep_nonnull [of L N n _ r]
    by (subst tree_rep_cong [of r L L ?N N]) (auto intro!: unlink_min_outside)
  show ?case
  proof (cases "tmin l = node_left (N n)")
    case True
    then obtain l' m j p r' where m': "l = Nd l' m j p r'" "node_left (N n) = m" "l' = Lf \<or> tmin l' = m"
      using l by (cases l) (auto split: if_splits)
    have "l' = Lf"
      using m' l tree_rep_min [of L N m "node_left (N m)" l'] by (cases "l' = Lf") auto
    with m' have m: "l = Nd Lf m j p r'" "node_left (N n) = m" by simp_all
    have rc: "tree_rep L N m (node_right (N m)) r'" "node_parent (N m) = n" "distinct (tnodes r')"
      "n \<notin> set (tnodes r')" using l(2) m Nd.prems(4) by auto
    have rn: "node_right (N m) \<noteq> n" using nb(1) Nd.prems(1,4) m by auto
    have "tree_rep L ?N n (node_right (N m)) r'"
      by (rule tree_rep_reparent [OF rc(1,3)])
        (use rc m rn in \<open>auto simp: unlink_min_def Let_def\<close>)
    moreover have "?N n = (N n)\<lparr>node_left := node_right (N m)\<rparr>"
      using rc m rn by (auto simp: unlink_min_def Let_def)
    ultimately show ?thesis using Nd.prems l r m by simp
  next
    case False
    then have "?N n = N n" using nb Nd.prems(1,4) l by (intro unlink_min_outside) auto
    moreover have "tree_rep L ?N n (node_left (N n)) (tdel l)"
      using Nd.IH(1) [OF l(2,1) False l(3)] .
    ultimately show ?thesis using Nd.prems l r by simp
  qed
qed

lemma free_links_frame: "free_links s fl \<Longrightarrow> links s' = links s \<Longrightarrow> freeLinks s' = freeLinks s \<Longrightarrow> free_links s' fl"
  by (simp add: free_links_def)

lemma MapNode_dequeue_rep:
  assumes t: "tree_rep (links s) (nodes s) par a t" "t \<noteq> Lf" "tminq t = x # q"
    and free: "free_links s fl" "free_nodes s fn" and dis: "distinct (fl @ tlinks t)" "distinct (fn @ tnodes t)"
  obtains s' where "MapNode_dequeue (tmin t) s = (link_p (links s x), s')"
    "tree_rep (links s') (nodes s') par a (tdeq t)" "free_links s' (x # fl)" "free_nodes s' fn"
    "hframe {x} {tmin t} s s'" "\<And>y. link_p (links s' y) = link_p (links s y)"
proof -
  note m = tree_rep_min [OF t(1,2)]
  have "set fl \<inter> set (x # q) = {}" using dis(1) set_tminq [of t] t(3) by auto
  then obtain ll s1 where d: "LinkedList_dequeue (node_procs (nodes s (tmin t))) s = (link_p (links s x), ll, s1)"
    "ll_rep (links s1) ll q" "free_links s1 (x # fl)" "lframe {x} s s1"
    "\<And>y. link_p (links s1 y) = link_p (links s y)"
    using dequeue_spec [of s "node_procs (nodes s (tmin t))" x q fl] m t(3) free(1) by auto
  let ?s = "set_node_procs (tmin t) ll s1"
  have "tree_rep (links ?s) (nodes ?s) par a (tdeq t)"
    by (rule tree_rep_tdeq [OF t(1,2) _ _ t(3), of _ ll])
      (use d dis in \<open>auto simp: node_updates lframe_fields dest: lframe_links\<close>)
  moreover have "free_nodes ?s fn"
    using d(4) free(2) dis(2) m by (intro free_nodes_set_node) (auto simp: free_nodes_lframe)
  moreover have "hframe {x} {tmin t} s ?s"
    using hframe_trans [OF lframe_hframe [OF d(4), of "{}"] hframe_set_node(1) [of "{}"]] by simp
  ultimately show ?thesis using that [of ?s] d by (simp add: MapNode_dequeue_def)
qed

lemma free_nodes_hframe:
  "free_nodes s fn \<Longrightarrow> hframe A B s s' \<Longrightarrow> B \<inter> set fn = {} \<Longrightarrow> freeNodes s' = freeNodes s \<Longrightarrow> free_nodes s' fn"
  by (erule free_nodes_cong) (auto simp: hframe_def)

text \<open>\<open>cut_min m a s\<close> is the pointer surgery of \<^verbatim>\<open>Map::extractMin\<close> on an emptied node.\<close>

definition cut_min :: "addr \<Rightarrow> addr \<Rightarrow> sched_ds \<Rightarrow> addr \<times> sched_ds" where
  "cut_min m a s =
     (let r = node_right (nodes s m)
      in if m = a then (r, if \<not> Map_isEmpty r then set_node_parent r 0 s else s)
         else let parent = node_parent (nodes s m); s' = set_node_left parent r s
              in (a, if r \<noteq> 0 then set_node_parent r parent s' else s'))"

lemma cut_min_inner: "m \<noteq> a \<Longrightarrow> cut_min m a s = (a, s\<lparr>nodes := unlink_min (nodes s) m\<rparr>)"
  by (simp add: cut_min_def unlink_min_def node_updates Let_def)

lemma unlink_min_procs: "node_procs (unlink_min N m n) = node_procs (N n)"
  by (simp add: unlink_min_def Let_def)

lemma tmin_root:
  assumes "tree_rep L N par a t" and "t \<noteq> Lf" and "tmin t = a" and "distinct (tnodes t)"
  obtains k q r where "t = Nd Lf a k q r"
proof (cases t)
  case (Nd l n k q r)
  then have "l = Lf" using assms tree_rep_min [of L N n _ l] by (cases "l = Lf") auto
  then show ?thesis using that Nd assms by simp
qed (use assms in simp)

definition cut_post :: "addr list \<Rightarrow> mtree \<Rightarrow> addr \<Rightarrow> sched_ds \<Rightarrow> sched_ds \<Rightarrow> bool" where
  "cut_post fn t a' s s' \<longleftrightarrow> tree_rep (links s') (nodes s') 0 a' (tdel t) \<and> free_nodes s' fn \<and>
     links s' = links s \<and> freeLinks s' = freeLinks s \<and> hframe {} (set (tnodes t)) s s' \<and>
     node_procs (nodes s' (tmin t)) = empty_list"

lemma cut_min_rep:
  assumes t: "tree_rep (links s) (nodes s) 0 a t" "t \<noteq> Lf" "tminq t = []"
    and free: "free_nodes s fn" and dis: "distinct (fn @ tnodes t)"
  shows "\<exists>a' s'. cut_min (tmin t) a s = (a', s') \<and> cut_post fn t a' s s'"
proof (cases "tmin t = a")
  case True
  with t dis obtain k q r where tt: "t = Nd Lf a k q r" by (auto intro: tmin_root)
  let ?r = "node_right (nodes s a)"
  let ?s = "if \<not> Map_isEmpty ?r then set_node_parent ?r 0 s else s"
  have r: "tree_rep (links s) (nodes s) a ?r r" "distinct (tnodes r)"
    and ra: "?r \<in> insert 0 (set (tnodes r))" "a \<notin> set (tnodes r)"
    using t(1) dis tt by (cases r; auto)+
  have "tree_rep (links ?s) (nodes ?s) 0 ?r r"
    using tree_rep_reparent [OF r, of "nodes ?s" 0] by (auto simp: node_updates Map_isEmpty_def)
  moreover have h: "hframe {} (set (tnodes t)) s ?s"
    using ra tt by (auto simp: hframe_def node_updates Map_isEmpty_def)
  moreover have "free_nodes ?s fn" using dis by (intro free_nodes_hframe [OF free h]) auto
  moreover have "node_procs (nodes ?s a) = empty_list"
    using t ra tt by (auto simp: node_updates Map_isEmpty_def)
  ultimately show ?thesis using tt by (auto simp: cut_min_def cut_post_def Let_def)
next
  case False
  let ?s = "s\<lparr>nodes := unlink_min (nodes s) (tmin t)\<rparr>"
  note mm = tree_rep_min [OF t(1,2)] and nb = tmin_neighbours [OF t(1,2)]
  have "unlink_min (nodes s) (tmin t) n = nodes s n" if "n \<notin> set (tnodes t)" for n
    using nb False that by (cases "n = 0") (auto simp: unlink_min_def Let_def)
  then have h: "hframe {} (set (tnodes t)) s ?s" by (simp add: hframe_def)
  moreover have "free_nodes ?s fn" using dis by (intro free_nodes_hframe [OF free h]) auto
  moreover have "node_procs (nodes ?s (tmin t)) = empty_list"
    using mm t(3) by (simp add: unlink_min_procs)
  moreover have "tree_rep (links ?s) (nodes ?s) 0 a (tdel t)"
    using tree_rep_tdel [OF t(1,2) False] dis by simp
  ultimately show ?thesis using False by (simp add: cut_min_inner cut_post_def)
qed

definition pop_post :: "addr list \<Rightarrow> addr list \<Rightarrow> addr \<Rightarrow> mtree \<Rightarrow> addr \<Rightarrow> sched_ds \<Rightarrow> sched_ds \<Rightarrow> bool" where
  "pop_post fl fn x t a' s s' \<longleftrightarrow> tree_rep (links s') (nodes s') 0 a' (tpop t) \<and> free_links s' (x # fl) \<and>
     (\<exists>fn'. free_nodes s' fn' \<and> mset (fn' @ tnodes (tpop t)) = mset (fn @ tnodes t)) \<and>
     hframe {x} (set (tnodes t)) s s' \<and> (\<forall>y. link_p (links s' y) = link_p (links s y))"

lemma extractMin_unfold:
  assumes "a \<noteq> 0" and "MapNode_getMinNode (nodes s) a = Some m" and "MapNode_dequeue m s = (p, s1)"
  shows "Map_extractMin a s =
    (if MapNode_isEmpty m s1 then let (a', s2) = cut_min m a s1 in Some (p, a', deallocNode m s2)
     else Some (p, a, s1))"
  using assms by (simp add: Map_extractMin_def Map_isEmpty_def cut_min_def Let_def)

lemma Map_extractMin_rep:
  assumes t: "tree_rep (links s) (nodes s) 0 a t" "t \<noteq> Lf" "tminq t = x # q"
    and free: "free_links s fl" "free_nodes s fn" and dis: "distinct (fl @ tlinks t)" "distinct (fn @ tnodes t)"
  shows "\<exists>a' s'. Map_extractMin a s = Some (link_p (links s x), a', s') \<and> pop_post fl fn x t a' s s'"
proof -
  note mm = tree_rep_min [OF t(1,2)]
  have a: "a \<noteq> 0" using t tree_rep_Lf_iff by blast
  from MapNode_dequeue_rep [OF t free dis] obtain s1 where
    d: "MapNode_dequeue (tmin t) s = (link_p (links s x), s1)" and
    r: "tree_rep (links s1) (nodes s1) 0 a (tdeq t)" "free_links s1 (x # fl)" "free_nodes s1 fn"
    and h: "hframe {x} {tmin t} s s1" and lp: "\<And>y. link_p (links s1 y) = link_p (links s y)" by blast
  note u = extractMin_unfold [OF a getMinNode_rep [OF t(1,2)] d]
  have h1: "hframe {x} (set (tnodes t)) s s1" using mm by (intro hframe_mono [OF h]) auto
  have m1: "ll_rep (links s1) (node_procs (nodes s1 (tmin t))) q"
    using tree_rep_min [OF r(1)] t by simp
  show ?thesis
  proof (cases q)
    case (Cons y ys)
    then show ?thesis
      using u m1 r h1 lp t(3) by (auto simp: MapNode_isEmpty_def ll_rep_isEmpty pop_post_def tpop_def)
  next
    case Nil
    have e: "tdeq t \<noteq> Lf" "tminq (tdeq t) = []" "distinct (fn @ tnodes (tdeq t))"
      using t dis Nil by simp_all
    from cut_min_rep [OF r(1) e(1,2) r(3) e(3)] obtain a' s2 where
      c: "cut_min (tmin t) a s1 = (a', s2)" and p: "cut_post fn (tdeq t) a' s1 s2" by auto
    have mfn: "tmin t \<notin> set fn" "tmin t \<notin> set (tnodes (tdel t))"
      using mm dis tnodes_tdel [OF t(2)] by auto
    have dd: "free_nodes s2 fn" "node_procs (nodes s2 (tmin t)) = empty_list"
      using p by (simp_all add: cut_post_def)
    note dn = deallocNode_spec [OF dd(1) mfn(1) _ dd(2)]
    let ?s = "deallocNode (tmin t) s2"
    have "tree_rep (links ?s) (nodes ?s) 0 a' (tdel t)"
      using p mfn mm by (subst tree_rep_hframe [OF dn(2)]) (auto simp: cut_post_def)
    moreover have "hframe {x} (set (tnodes t)) s ?s"
      using p mm by (intro hframe_mono [OF hframe_trans [OF hframe_trans [OF h] dn(2)]])
        (auto simp: cut_post_def)
    moreover have "free_links ?s (x # fl)"
      using p dn mm by (intro free_links_frame [OF r(2)]) (simp_all add: cut_post_def)
    moreover have "mset ((tmin t # fn) @ tnodes (tdel t)) = mset (fn @ tnodes t)"
      using tnodes_tdel [OF t(2)] by simp
    ultimately have "pop_post fl fn x t a' s ?s"
      using dn mm p lp t(3) Nil by (auto simp: pop_post_def tpop_def cut_post_def intro!: exI [of _ "tmin t # fn"])
    then show ?thesis using u m1 c Nil by (auto simp: MapNode_isEmpty_def ll_rep_isEmpty)
  qed
qed

end
