(* ===== verification/SchedRef.thy ===== *)
theory SchedRef
  imports SchedMap
begin

text \<open>
  What \<^verbatim>\<open>schedulinginterface.h\<close> promises, as an abstract state \<open>abs_ds\<close> (a
  priority queue kept as a list sorted by accumulator and stable among equals, a FIFO
  queue, the running processes, and the number of free links), and the refinement of
  the heap model of \<^verbatim>\<open>ass1ds.cpp\<close> to it: \<open>ds_rep s A\<close> relates a heap to
  its abstract state and every interface operation is shown to keep it.
\<close>

section \<open>The abstract state\<close>

record abs_ds =
  a_pq :: "(int \<times> procp) list"
  a_rr :: "procp list"
  a_rp :: "procp list"
  a_free :: nat

text \<open>Insertion behind every entry whose key is not larger.\<close>

definition pq_insert :: "int \<Rightarrow> procp \<Rightarrow> (int \<times> procp) list \<Rightarrow> (int \<times> procp) list" where
  "pq_insert k p xs = takeWhile (\<lambda>e. fst e \<le> k) xs @ (k, p) # dropWhile (\<lambda>e. fst e \<le> k) xs"

definition pq_sorted :: "(int \<times> procp) list \<Rightarrow> bool" where
  "pq_sorted xs \<longleftrightarrow> sorted (map fst xs)"

lemma pq_insert_append_le:
  "\<forall>e \<in> set xs. fst e \<le> k \<Longrightarrow> pq_insert k p (xs @ ys) = xs @ pq_insert k p ys"
  by (simp add: pq_insert_def)

lemma pq_insert_append_gt:
  "\<forall>e \<in> set ys. k < fst e \<Longrightarrow> pq_insert k p (xs @ ys) = pq_insert k p xs @ ys"
  by (cases ys; induction xs) (auto simp: pq_insert_def)

lemma mset_pq_insert [simp]: "mset (pq_insert k p xs) = add_mset (k, p) (mset xs)"
  by (induction xs) (auto simp: pq_insert_def)

lemma set_pq_insert [simp]: "set (pq_insert k p xs) = insert (k, p) (set xs)"
  by (metis mset_pq_insert set_mset_add_mset_insert set_mset_mset)

lemma length_pq_insert [simp]: "length (pq_insert k p xs) = Suc (length xs)"
  by (metis mset_pq_insert size_add_mset size_mset)

lemma pq_sorted_insert: "pq_sorted xs \<Longrightarrow> pq_sorted (pq_insert k p xs)"
proof (induction xs)
  case (Cons e xs)
  show ?case
  proof (cases "fst e \<le> k")
    case True
    then have "pq_insert k p (e # xs) = e # pq_insert k p xs" by (simp add: pq_insert_def)
    then show ?thesis using Cons True by (auto simp: pq_sorted_def)
  next
    case False
    then show ?thesis using Cons.prems by (force simp: pq_sorted_def pq_insert_def)
  qed
qed (simp add: pq_sorted_def pq_insert_def)

section \<open>The entries of a tree\<close>

fun tflat :: "(addr \<Rightarrow> procp) \<Rightarrow> mtree \<Rightarrow> (int \<times> procp) list" where
  "tflat f Lf = []"
| "tflat f (Nd l n k q r) = tflat f l @ map (\<lambda>x. (k, f x)) q @ tflat f r"

lemma tflat_keys: "tinv t \<Longrightarrow> fst ` set (tflat f t) = tkeys t"
  by (induction t) (auto simp: image_Un image_image image_constant_conv)

lemma tflat_key: "tinv t \<Longrightarrow> e \<in> set (tflat f t) \<Longrightarrow> fst e \<in> tkeys t"
  using tflat_keys by blast

lemma tflat_cong: "(\<And>x. x \<in> set (tlinks t) \<Longrightarrow> f x = g x) \<Longrightarrow> tflat f t = tflat g t"
  by (induction t) auto

lemma length_tflat [simp]: "length (tflat f t) = length (tlinks t)"
  by (induction t) auto

lemma tflat_Nil_iff: "tinv t \<Longrightarrow> tflat f t = [] \<longleftrightarrow> t = Lf"
  by (cases t) auto

lemma tflat_sorted: "tinv t \<Longrightarrow> pq_sorted (tflat f t)"
proof (induction t)
  case (Nd l n k q r)
  have "fst e < k" if "e \<in> set (tflat f l)" for e using Nd.prems tflat_key [of l e f] that by auto
  moreover have "k < fst e" if "e \<in> set (tflat f r)" for e using Nd.prems tflat_key [of r e f] that by auto
  moreover have "pq_sorted (map (\<lambda>x. (k, f x)) q)" by (induction q) (auto simp: pq_sorted_def)
  ultimately show ?case using Nd by (force simp: pq_sorted_def sorted_append)
qed (simp add: pq_sorted_def)

lemma tflat_tput:
  assumes "tinv t" and "f x = p"
  shows "tflat f (tput k x m t) = pq_insert k p (tflat f t)"
  using assms
proof (induction t)
  case Lf
  then show ?case by (simp add: pq_insert_def)
next
  case (Nd l n j q r)
  have l: "\<forall>e \<in> set (tflat f l). fst e < j" and r: "\<forall>e \<in> set (tflat f r). j < fst e"
    using Nd.prems tflat_key by fastforce+
  have q: "\<forall>e \<in> set (map (\<lambda>x. (j, f x)) q). fst e = j" by auto
  consider "k = j" | "k < j" | "j < k" by fastforce
  then show ?case
  proof cases
    case 1
    have "pq_insert k p (map (\<lambda>x. (j, f x)) q) = map (\<lambda>x. (j, f x)) q @ [(k, p)]"
      using pq_insert_append_le [of "map (\<lambda>x. (j, f x)) q" k p "[]"] 1 by (simp add: pq_insert_def)
    moreover have "\<forall>e \<in> set (tflat f l). fst e \<le> k" "\<forall>e \<in> set (tflat f r). k < fst e"
      using 1 l r by auto
    moreover from this(2) have "pq_insert k p (tflat f r) = (k, p) # tflat f r"
      using pq_insert_append_gt [of "tflat f r" k p "[]"] by (simp add: pq_insert_def [of _ _ "[]"])
    ultimately show ?thesis
      using 1 Nd.prems(2) by (simp add: pq_insert_append_le)
  next
    case 2
    then have "\<forall>e \<in> set (map (\<lambda>x. (j, f x)) q @ tflat f r). k < fst e" using r by auto
    then show ?thesis using 2 Nd by (simp add: pq_insert_append_gt)
  next
    case 3
    then have "\<forall>e \<in> set (tflat f l @ map (\<lambda>x. (j, f x)) q). fst e \<le> k" using l by auto
    from pq_insert_append_le [OF this, of p "tflat f r"] show ?thesis using 3 Nd by simp
  qed
qed

lemma tflat_hd:
  "tinv t \<Longrightarrow> t \<noteq> Lf \<Longrightarrow> \<exists>x q. tminq t = x # q \<and> hd (tflat f t) = (tminkey t, f x)"
proof (induction t)
  case (Nd l n k q r)
  then show ?case by (cases "l = Lf"; cases q) (auto simp: hd_append tflat_Nil_iff)
qed simp

lemma tflat_tpop_aux:
  "tinv t \<Longrightarrow> t \<noteq> Lf \<Longrightarrow> tflat f (tdeq t) = tl (tflat f t)"
proof (induction t)
  case (Nd l n k q r)
  then show ?case by (cases "l = Lf"; cases q) (auto simp: tflat_Nil_iff)
qed simp

lemma tflat_tdel: "tinv t \<Longrightarrow> t \<noteq> Lf \<Longrightarrow> tminq t = [x] \<Longrightarrow> tflat f (tdel t) = tl (tflat f t)"
proof (induction t)
  case (Nd l n k q r)
  then show ?case by (cases "l = Lf") (auto simp: tflat_Nil_iff)
qed simp

lemma tflat_tpop: "tinv t \<Longrightarrow> t \<noteq> Lf \<Longrightarrow> tflat f (tpop t) = tl (tflat f t)"
  using tflat_hd [of t f] tflat_tdel [of t _ f] tflat_tpop_aux [of t f] by (auto simp: tpop_def)

lemma tkeys_tdel: "tkeys (tdel t) \<subseteq> tkeys t"
  by (induction t) auto

lemma tinv_tpop: "tinv t \<Longrightarrow> tinv (tpop t)"
proof -
  have "tinv (tdel t)" if "tinv t" for t using that tkeys_tdel by (induction t) fastforce+
  moreover have "tinv (tdeq t)" if "tinv t" "tl (tminq t) \<noteq> []" for t
    using that by (induction t) auto
  ultimately show "tinv t \<Longrightarrow> tinv (tpop t)" by (simp add: tpop_def)
qed

lemma tlinks_tpop: "tminq t = x # q \<Longrightarrow> tlinks t = x # tlinks (tpop t)"
  using tlinks_tdeq [of t x q] tlinks_tdel [of t] by (cases "t = Lf") (auto simp: tpop_def)

lemma tnodes_le_tlinks: "tinv t \<Longrightarrow> length (tnodes t) \<le> length (tlinks t)"
proof (induction t)
  case (Nd l n k q r)
  then show ?case by (cases q) auto
qed simp

section \<open>The heap invariant\<close>

text \<open>
  Free lists, the two queues and two trees (the second one is the temporary map of
  \<^verbatim>\<open>extractProc\<close>) on pairwise disjoint links and nodes; there are at least as
  many nodes as links, so that a free link comes with a free node.
\<close>

definition ds_inv ::
  "sched_ds \<Rightarrow> addr list \<Rightarrow> addr list \<Rightarrow> addr list \<Rightarrow> addr list \<Rightarrow> addr \<Rightarrow> mtree \<Rightarrow> addr \<Rightarrow> mtree \<Rightarrow> bool" where
  "ds_inv s fl fn rr rp a t b u \<longleftrightarrow>
     free_links s fl \<and> free_nodes s fn \<and>
     ll_rep (links s) (roundRobinQ s) rr \<and> ll_rep (links s) (runningProcHolder s) rp \<and>
     tree_rep (links s) (nodes s) 0 a t \<and> tree_rep (links s) (nodes s) 0 b u \<and> tinv t \<and> tinv u \<and>
     distinct (fl @ rr @ rp @ tlinks t @ tlinks u) \<and> distinct (fn @ tnodes t @ tnodes u) \<and>
     length (fl @ rr @ rp @ tlinks t @ tlinks u) \<le> length (fn @ tnodes t @ tnodes u)"

lemma ds_inv_swap: "ds_inv s fl fn rr rp a t b u \<Longrightarrow> ds_inv s fl fn rr rp b u a t"
  by (auto simp: ds_inv_def)

lemma ds_inv_node:
  assumes "ds_inv s (x # fl) fn rr rp a t b u"
  shows "fn \<noteq> []"
  using assms tnodes_le_tlinks [of t] tnodes_le_tlinks [of u] by (auto simp: ds_inv_def)

lemma ds_inv_roots [simp]:
  "ds_inv (s\<lparr>priorityQ := c\<rparr>) fl fn rr rp a t b u = ds_inv s fl fn rr rp a t b u"
  by (simp add: ds_inv_def free_links_def free_nodes_def)

lemma ds_inv_Map_isEmpty: "ds_inv s fl fn rr rp a t b u \<Longrightarrow> Map_isEmpty a \<longleftrightarrow> t = Lf"
  by (auto simp: ds_inv_def Map_isEmpty_def tree_rep_Lf_iff)

text \<open>Distinctness and length of a rearranged list of blocks.\<close>

lemma distinct_mset_eq: "mset xs = mset ys \<Longrightarrow> distinct xs \<longleftrightarrow> distinct ys"
  by (metis distinct_count_atmost_1 mset_eq_setD)

lemma length_mset_eq: "mset xs = mset ys \<Longrightarrow> length xs = length ys"
  by (rule mset_eq_length)

lemma ds_inv_step:
  assumes inv: "ds_inv s fl fn rr rp a t b u"
    and h: "hframe X Y s s'" and free: "free_links s' fl'" "free_nodes s' fn'"
    and t: "tree_rep (links s') (nodes s') 0 a' t'" "tinv t'"
    and X: "X \<inter> (set rr \<union> set rp \<union> set (tlinks u)) = {}" and Y: "Y \<inter> set (tnodes u) = {}"
    and L: "mset (fl' @ tlinks t') = mset (fl @ tlinks t)" and N: "mset (fn' @ tnodes t') = mset (fn @ tnodes t)"
  shows "ds_inv s' fl' fn' rr rp a' t' b u"
proof -
  have roots: "roundRobinQ s' = roundRobinQ s" "runningProcHolder s' = runningProcHolder s"
    using h by (simp_all add: hframe_def)
  have ls: "mset (fl' @ rr @ rp @ tlinks t' @ tlinks u) = mset (fl @ rr @ rp @ tlinks t @ tlinks u)"
    using L by (simp add: ac_simps)
  have ns: "mset (fn' @ tnodes t' @ tnodes u) = mset (fn @ tnodes t @ tnodes u)"
    using N by (simp add: ac_simps)
  have X': "X \<inter> set rr = {}" "X \<inter> set rp = {}" "X \<inter> set (tlinks u) = {}" using X by auto
  have "ll_rep (links s') (roundRobinQ s) rr" "ll_rep (links s') (runningProcHolder s) rp"
    using inv ll_rep_hframe [OF h X'(1)] ll_rep_hframe [OF h X'(2)] by (simp_all add: ds_inv_def)
  moreover have "tree_rep (links s') (nodes s') 0 b u"
    using inv tree_rep_hframe [OF h X'(3) Y] by (simp add: ds_inv_def)
  moreover note inv [unfolded ds_inv_def]
  ultimately show ?thesis unfolding ds_inv_def roots
    using free t distinct_mset_eq [OF ls] distinct_mset_eq [OF ns] length_mset_eq [OF ls] length_mset_eq [OF ns]
    by simp
qed

section \<open>The map operations on the invariant\<close>

lemma Map_put_ok:
  assumes pre: "put_pre s x fl fn 0 a t" and fn: "fn \<noteq> []"
  shows "\<exists>a' s'. Map_put acc p a s = Some (True, a', s') \<and> put_post p (acc p) x fl fn 0 a' t s s'"
proof (cases "t = Lf")
  case True
  from fn obtain n ns where ns: "fn = n # ns" by (cases fn) auto
  have f: "free_links s (x # fl)" "free_nodes s (n # ns)" using pre ns by (simp_all add: put_pre_def)
  from allocNode_proc_ok [OF f, of p "acc p"] obtain s' where
    s': "allocNode_proc p (acc p) s = Some (n, s')" "n \<noteq> 0" "free_links s' fl" "free_nodes s' ns"
    "hframe {x} {n} s s'" "link_p (links s' x) = p" "ll_rep (links s') (node_procs (nodes s' n)) [x]"
    "node_key (nodes s' n) = acc p" "node_parent (nodes s' n) = 0" "node_left (nodes s' n) = 0"
    "node_right (nodes s' n) = 0" by blast
  have "put_post p (acc p) x fl fn 0 n t s s'"
    using s' True ns hframe_links [OF s'(5)] hframe_mono [OF s'(5), of "{x}" "set fn"]
    by (simp add: put_post_def)
  then show ?thesis using s' True pre by (simp add: Map_put_def Map_isEmpty_def put_pre_def)
next
  case False
  then have "\<not> Map_isEmpty a" using pre by (auto simp: put_pre_def tree_rep_Lf_iff Map_isEmpty_def)
  then show ?thesis using MapNode_put_ok [OF pre False, of "acc p" p] fn by (auto simp: Map_put_def)
qed

lemma ds_inv_put:
  assumes inv: "ds_inv s (x # fl) fn rr rp a t b u"
  shows "\<exists>a' s' fn' m. Map_put acc p a s = Some (True, a', s') \<and>
    ds_inv s' fl fn' rr rp a' (tput (acc p) x m t) b u \<and>
    priorityQ s' = priorityQ s \<and> link_p (links s' x) = p \<and>
    (\<forall>y. y \<noteq> x \<longrightarrow> link_p (links s' y) = link_p (links s y))"
proof -
  have fn: "fn \<noteq> []" by (rule ds_inv_node [OF inv])
  have pre: "put_pre s x fl fn 0 a t" using inv by (auto simp: ds_inv_def put_pre_def)
  from Map_put_ok [OF pre fn] obtain a' s' where
    r: "Map_put acc p a s = Some (True, a', s')" and p: "put_post p (acc p) x fl fn 0 a' t s s'" by blast
  let ?t = "tput (acc p) x (hd fn) t" and ?fn = "if acc p \<in> tkeys t then fn else tl fn"
  have ti: "tinv t" using inv by (simp add: ds_inv_def)
  have "fn = hd fn # tl fn" using fn by simp
  then have N: "mset (?fn @ tnodes ?t) = mset (fn @ tnodes t)"
    using mset_tnodes_tput [OF ti] by (cases fn) auto
  have "ds_inv s' fl ?fn rr rp a' ?t b u"
    by (rule ds_inv_step [OF inv, of "insert x (set (tlinks t))" "set fn \<union> set (tnodes t)"])
      (use p inv N in \<open>auto simp: put_post_def ds_inv_def mset_tlinks_tput tinv_tput\<close>)
  then show ?thesis using r p by (auto simp: put_post_def hframe_def)
qed

lemma ds_inv_put_full:
  assumes inv: "ds_inv s [] fn rr rp a t b u"
  shows "\<exists>s'. Map_put acc p a s = Some (False, a, s') \<and> ds_inv s' [] fn rr rp a t b u \<and>
    priorityQ s' = priorityQ s \<and> links s' = links s"
proof -
  have i: "free_links s []" "free_nodes s fn" "distinct (fn @ tnodes t)" "tinv t"
    "tree_rep (links s) (nodes s) 0 a t" using inv by (auto simp: ds_inv_def)
  have "\<exists>s'. Map_put acc p a s = Some (False, a, s') \<and> put_full_post fn s s'"
  proof (cases "t = Lf")
    case True
    from allocNode_proc_full [OF i(1,2), of p "acc p"] obtain s' where
      "allocNode_proc p (acc p) s = Some (0, s')" "put_full_post fn s s'"
      unfolding put_full_post_def by blast
    then show ?thesis using True i(5) by (simp add: Map_put_def Map_isEmpty_def)
  next
    case False
    with MapNode_put_full [OF i(5) False i(1-3), of p "acc p"] i(5) show ?thesis
      by (auto simp: Map_put_def Map_isEmpty_def tree_rep_Lf_iff)
  qed
  then obtain s' where r: "Map_put acc p a s = Some (False, a, s')" and p: "put_full_post fn s s'" by blast
  have h: "hframe {} (set fn) s s'" using p by (simp add: put_full_post_def)
  have d: "set fn \<inter> set (tnodes t) = {}" using i(3) by auto
  have "ds_inv s' [] fn rr rp a t b u"
    by (rule ds_inv_step [OF inv h])
      (use p inv tree_rep_hframe [OF h _ d] in \<open>auto simp: put_full_post_def ds_inv_def\<close>)
  then show ?thesis using r p by (auto simp: put_full_post_def hframe_def)
qed

lemma ds_inv_pop:
  assumes inv: "ds_inv s fl fn rr rp a t b u" and t: "tminq t = x # q"
  shows "\<exists>a' s' fn'. Map_extractMin a s = Some (link_p (links s x), a', s') \<and>
    ds_inv s' (x # fl) fn' rr rp a' (tpop t) b u \<and> priorityQ s' = priorityQ s \<and>
    (\<forall>y. link_p (links s' y) = link_p (links s y))"
proof -
  have ne: "t \<noteq> Lf" using t by auto
  have i: "tree_rep (links s) (nodes s) 0 a t" "free_links s fl" "free_nodes s fn"
    "distinct (fl @ tlinks t)" "distinct (fn @ tnodes t)" "tinv t" using inv by (auto simp: ds_inv_def)
  from Map_extractMin_rep [OF i(1) ne t i(2-5)] obtain a' s' where
    r: "Map_extractMin a s = Some (link_p (links s x), a', s')" and p: "pop_post fl fn x t a' s s'" by blast
  then obtain fn' where fn': "free_nodes s' fn'" "mset (fn' @ tnodes (tpop t)) = mset (fn @ tnodes t)"
    by (auto simp: pop_post_def)
  have "x \<in> set (tlinks t)" using tlinks_tpop [OF t] by simp
  then have "ds_inv s' (x # fl) fn' rr rp a' (tpop t) b u"
    by (intro ds_inv_step [OF inv, of "{x}" "set (tnodes t)"])
      (use p inv fn' tlinks_tpop [OF t] in \<open>auto simp: pop_post_def ds_inv_def tinv_tpop\<close>)
  then show ?thesis using r p by (auto simp: pop_post_def hframe_def)
qed

section \<open>The queues on the invariant\<close>

lemma ds_inv_rr_step:
  assumes inv: "ds_inv s fl fn rr rp a t b u" and h: "lframe X s s'" and fl: "free_links s' fl'"
    and rr: "ll_rep (links s') ll rr'"
    and X: "X \<inter> set rp = {}" "X \<inter> set (tlinks t) = {}" "X \<inter> set (tlinks u) = {}"
    and L: "mset (fl' @ rr') = mset (fl @ rr)"
  shows "ds_inv (s'\<lparr>roundRobinQ := ll\<rparr>) fl' fn rr' rp a t b u"
proof -
  have ls: "mset (fl' @ rr' @ rp @ tlinks t @ tlinks u) = mset (fl @ rr @ rp @ tlinks t @ tlinks u)"
    using L by (simp flip: add.assoc)
  note h' = lframe_hframe [OF h, of "{}"]
  note i = inv [unfolded ds_inv_def]
  show ?thesis unfolding ds_inv_def
    using i fl rr free_nodes_lframe [OF h] lframe_fields [OF h] ll_rep_hframe [OF h' X(1)]
      tree_rep_hframe [OF h' X(2)] tree_rep_hframe [OF h' X(3)] distinct_mset_eq [OF ls] length_mset_eq [OF ls]
    by (simp add: free_links_def)
qed

lemma ds_inv_rp_step:
  assumes inv: "ds_inv s fl fn rr rp a t b u" and h: "lframe X s s'" and fl: "free_links s' fl'"
    and rp: "ll_rep (links s') ll rp'"
    and X: "X \<inter> set rr = {}" "X \<inter> set (tlinks t) = {}" "X \<inter> set (tlinks u) = {}"
    and L: "mset (fl' @ rp') = mset (fl @ rp)"
  shows "ds_inv (s'\<lparr>runningProcHolder := ll\<rparr>) fl' fn rr rp' a t b u"
proof -
  have "mset rr + mset (fl' @ rp') = mset rr + mset (fl @ rp)" using L by simp
  then have ls: "mset (fl' @ rr @ rp' @ tlinks t @ tlinks u) = mset (fl @ rr @ rp @ tlinks t @ tlinks u)"
    by (simp add: ac_simps)
  note h' = lframe_hframe [OF h, of "{}"]
  note i = inv [unfolded ds_inv_def]
  show ?thesis unfolding ds_inv_def
    using i fl rp free_nodes_lframe [OF h] lframe_fields [OF h] ll_rep_hframe [OF h' X(1)]
      tree_rep_hframe [OF h' X(2)] tree_rep_hframe [OF h' X(3)] distinct_mset_eq [OF ls] length_mset_eq [OF ls]
    by (simp add: free_links_def)
qed

section \<open>The abstraction relation\<close>

definition lp :: "sched_ds \<Rightarrow> addr \<Rightarrow> procp" where
  "lp s x = link_p (links s x)"

definition absd :: "(addr \<Rightarrow> procp) \<Rightarrow> addr list \<Rightarrow> addr list \<Rightarrow> addr list \<Rightarrow> mtree \<Rightarrow> abs_ds" where
  "absd f fl rr rp t = \<lparr>a_pq = tflat f t, a_rr = map f rr, a_rp = map f rp, a_free = length fl\<rparr>"

definition ds_rep :: "sched_ds \<Rightarrow> abs_ds \<Rightarrow> bool" where
  "ds_rep s A \<longleftrightarrow> (\<exists>fl fn rr rp t. ds_inv s fl fn rr rp (priorityQ s) t 0 Lf \<and> A = absd (lp s) fl rr rp t)"

lemma fresh_agree:
  assumes "\<forall>y. y \<noteq> x \<longrightarrow> g y = f y"
  shows "x \<notin> set xs \<Longrightarrow> map g xs = map f xs" "x \<notin> set (tlinks t) \<Longrightarrow> tflat g t = tflat f t"
  using assms tflat_cong [of t g f] by (auto intro: map_cong) metis+

lemma lp_upd [simp]: "lp (s\<lparr>priorityQ := c\<rparr>) = lp s" "lp (s\<lparr>roundRobinQ := ll\<rparr>) = lp s"
  "lp (s\<lparr>runningProcHolder := ll\<rparr>) = lp s"
  by (auto simp: lp_def)

lemma ds_rep_sorted: "ds_rep s A \<Longrightarrow> pq_sorted (a_pq A)"
  by (auto simp: ds_rep_def absd_def ds_inv_def tflat_sorted)

lemma isEmptyPriorityQueue_ref: "ds_rep s A \<Longrightarrow> isEmptyPriorityQueue s \<longleftrightarrow> a_pq A = []"
  by (auto simp: ds_rep_def isEmptyPriorityQueue_def absd_def ds_inv_Map_isEmpty tflat_Nil_iff ds_inv_def
      Map_isEmpty_def tree_rep_Lf_iff)

lemma isEmptyRoundRobinQueue_ref: "ds_rep s A \<Longrightarrow> isEmptyRoundRobinQueue s \<longleftrightarrow> a_rr A = []"
  by (auto simp: ds_rep_def isEmptyRoundRobinQueue_def absd_def ds_inv_def ll_rep_isEmpty)

lemma isEmptyRunningProcessHolder_ref: "ds_rep s A \<Longrightarrow> isEmptyRunningProcessHolder s \<longleftrightarrow> a_rp A = []"
  by (auto simp: ds_rep_def isEmptyRunningProcessHolder_def absd_def ds_inv_def ll_rep_isEmpty)

section \<open>Refinement of the priority queue operations\<close>

lemma putPriorityQueue_ref:
  assumes "ds_rep s A" and "0 < a_free A"
  shows "\<exists>s'. putPriorityQueue acc p s = Some (True, s') \<and>
    ds_rep s' (A\<lparr>a_pq := pq_insert (acc p) p (a_pq A), a_free := a_free A - 1\<rparr>)"
proof -
  from assms(1) obtain fl0 fn rr rp t where inv0: "ds_inv s fl0 fn rr rp (priorityQ s) t 0 Lf"
    and A0: "A = absd (lp s) fl0 rr rp t" by (auto simp: ds_rep_def)
  obtain x fl where fl: "fl0 = x # fl" using assms(2) A0 by (cases fl0) (auto simp: absd_def)
  note inv = inv0 [unfolded fl] and A = A0 [unfolded fl]
  from ds_inv_put [OF inv, of acc p] obtain a' s' fn' m where
    r: "Map_put acc p (priorityQ s) s = Some (True, a', s')" and
    i: "ds_inv s' fl fn' rr rp a' (tput (acc p) x m t) 0 Lf" and
    l: "lp s' x = p" "\<forall>y. y \<noteq> x \<longrightarrow> lp s' y = lp s y" by (auto simp: lp_def)
  have "x \<notin> set rr" "x \<notin> set rp" "x \<notin> set (tlinks t)" "tinv t" using inv by (auto simp: ds_inv_def)
  then have "absd (lp s') fl rr rp (tput (acc p) x m t) =
    A\<lparr>a_pq := pq_insert (acc p) p (a_pq A), a_free := a_free A - 1\<rparr>"
    using l(1) A by (simp add: absd_def tflat_tput fresh_agree [OF l(2)])
  then show ?thesis using r i by (fastforce simp: putPriorityQueue_def ds_rep_def)
qed

lemma putPriorityQueue_full_ref:
  assumes "ds_rep s A" and "a_free A = 0"
  shows "\<exists>s'. putPriorityQueue acc p s = Some (False, s') \<and> ds_rep s' A"
proof -
  from assms obtain fn rr rp t where inv: "ds_inv s [] fn rr rp (priorityQ s) t 0 Lf"
    and A: "A = absd (lp s) [] rr rp t"
    by (auto simp: ds_rep_def absd_def)
  from ds_inv_put_full [OF inv, of acc p] obtain s' where
    r: "Map_put acc p (priorityQ s) s = Some (False, priorityQ s, s')" and
    i: "ds_inv s' [] fn rr rp (priorityQ s) t 0 Lf" and l: "lp s' = lp s" by (auto simp: lp_def fun_eq_iff)
  then show ?thesis using A by (fastforce simp: putPriorityQueue_def ds_rep_def)
qed

lemma getMinAccumulatorPriorityQueue_ref:
  assumes "ds_rep s A"
  shows "getMinAccumulatorPriorityQueue s =
    Some (if a_pq A = [] then None else Some (fst (hd (a_pq A))))"
proof -
  from assms obtain fl fn rr rp t where inv: "ds_inv s fl fn rr rp (priorityQ s) t 0 Lf"
    and A: "A = absd (lp s) fl rr rp t"
    by (auto simp: ds_rep_def)
  then have t: "tree_rep (links s) (nodes s) 0 (priorityQ s) t" "tinv t" by (simp_all add: ds_inv_def)
  show ?thesis
    using Map_getMinKey_rep [OF t(1)] tflat_hd [OF t(2), of "lp s"] tflat_Nil_iff [OF t(2), of "lp s"] A
    by (auto simp: getMinAccumulatorPriorityQueue_def absd_def)
qed

lemma extractMinPriorityQueue_empty_ref:
  "ds_rep s A \<Longrightarrow> a_pq A = [] \<Longrightarrow> extractMinPriorityQueue s = Some (0, s)"
  using isEmptyPriorityQueue_ref [of s A]
  by (simp add: extractMinPriorityQueue_def Map_extractMin_def isEmptyPriorityQueue_def)

lemma extractMinPriorityQueue_ref:
  assumes "ds_rep s A" and "a_pq A = (k, p) # xs"
  shows "\<exists>s'. extractMinPriorityQueue s = Some (p, s') \<and>
    ds_rep s' (A\<lparr>a_pq := xs, a_free := Suc (a_free A)\<rparr>)"
proof -
  from assms(1) obtain fl fn rr rp t where inv: "ds_inv s fl fn rr rp (priorityQ s) t 0 Lf"
    and A: "A = absd (lp s) fl rr rp t"
    by (auto simp: ds_rep_def)
  have t: "tinv t" "t \<noteq> Lf" using inv A assms(2) by (auto simp: ds_inv_def absd_def)
  from tflat_hd [OF t, of "lp s"] obtain x q where x: "tminq t = x # q" "lp s x = p"
    using A assms(2) by (auto simp: absd_def)
  from ds_inv_pop [OF inv x(1)] obtain a' s' fn' where
    r: "Map_extractMin (priorityQ s) s = Some (p, a', s')" and
    i: "ds_inv s' (x # fl) fn' rr rp a' (tpop t) 0 Lf" and l: "lp s' = lp s"
    using x(2) by (auto simp: lp_def fun_eq_iff)
  have "absd (lp s') (x # fl) rr rp (tpop t) = A\<lparr>a_pq := xs, a_free := Suc (a_free A)\<rparr>"
    using A l assms(2) tflat_tpop [OF t] by (simp add: absd_def)
  then show ?thesis using r i by (fastforce simp: extractMinPriorityQueue_def ds_rep_def)
qed

section \<open>Refinement of the round-robin queue and of the running processes\<close>

lemma ds_inv_enqueue_rr:
  assumes inv: "ds_inv s (x # fl) fn rr rp a t b u"
  shows "\<exists>ll s'. LinkedList_enqueue p (roundRobinQ s) s = Some (True, ll, s') \<and>
    ds_inv (s'\<lparr>roundRobinQ := ll\<rparr>) fl fn (rr @ [x]) rp a t b u \<and> priorityQ s' = priorityQ s \<and>
    lp s' x = p \<and> (\<forall>y. y \<noteq> x \<longrightarrow> lp s' y = lp s y)"
proof -
  have i: "ll_rep (links s) (roundRobinQ s) rr" "free_links s (x # fl)" "set (x # fl) \<inter> set rr = {}"
    using inv by (auto simp: ds_inv_def)
  from enqueue_spec [OF i, of p] obtain ll s' where
    r: "LinkedList_enqueue p (roundRobinQ s) s = Some (True, ll, s')"
    and q: "ll_rep (links s') ll (rr @ [x])" "free_links s' fl" "lframe (insert x (set rr)) s s'"
    and l: "lp s' x = p" "\<forall>y. y \<noteq> x \<longrightarrow> lp s' y = lp s y" unfolding lp_def by blast
  have "ds_inv (s'\<lparr>roundRobinQ := ll\<rparr>) fl fn (rr @ [x]) rp a t b u"
    by (rule ds_inv_rr_step [OF inv q(3,2,1)]) (use inv in \<open>auto simp: ds_inv_def\<close>)
  then show ?thesis using r l lframe_fields(3) [OF q(3)] by blast
qed

lemma enqueueRoundRobinQueue_ref:
  assumes "ds_rep s A" and "0 < a_free A"
  shows "\<exists>s'. enqueueRoundRobinQueue p s = Some (True, s') \<and>
    ds_rep s' (A\<lparr>a_rr := a_rr A @ [p], a_free := a_free A - 1\<rparr>)"
proof -
  from assms(1) obtain fl0 fn rr rp t where inv0: "ds_inv s fl0 fn rr rp (priorityQ s) t 0 Lf"
    and A: "A = absd (lp s) fl0 rr rp t" by (auto simp: ds_rep_def)
  obtain x fl where fl: "fl0 = x # fl" using assms(2) A by (cases fl0) (auto simp: absd_def)
  note inv = inv0 [unfolded fl]
  from ds_inv_enqueue_rr [OF inv, of p] obtain ll s' where
    r: "LinkedList_enqueue p (roundRobinQ s) s = Some (True, ll, s')" "priorityQ s' = priorityQ s"
    and q: "ds_inv (s'\<lparr>roundRobinQ := ll\<rparr>) fl fn (rr @ [x]) rp (priorityQ s) t 0 Lf"
    and l: "lp s' x = p" "\<forall>y. y \<noteq> x \<longrightarrow> lp s' y = lp s y" by blast
  have "x \<notin> set rr" "x \<notin> set rp" "x \<notin> set (tlinks t)" using inv by (auto simp: ds_inv_def)
  then have "absd (lp s') fl (rr @ [x]) rp t = A\<lparr>a_rr := a_rr A @ [p], a_free := a_free A - 1\<rparr>"
    using l(1) A fl by (simp add: absd_def fresh_agree [OF l(2)])
  then show ?thesis using r q by (fastforce simp: enqueueRoundRobinQueue_def ds_rep_def)
qed

lemma enqueueRoundRobinQueue_full_ref:
  assumes "ds_rep s A" and "a_free A = 0"
  shows "enqueueRoundRobinQueue p s = Some (False, s)"
  using assms enqueue_full [of s p "roundRobinQ s"]
  by (auto simp: enqueueRoundRobinQueue_def ds_rep_def absd_def ds_inv_def)

lemma dequeueRoundRobinQueue_empty_ref:
  "ds_rep s A \<Longrightarrow> a_rr A = [] \<Longrightarrow> dequeueRoundRobinQueue s = (0, s)"
  using isEmptyRoundRobinQueue_ref [of s A]
  by (simp add: dequeueRoundRobinQueue_def LinkedList_dequeue_def isEmptyRoundRobinQueue_def)

lemma dequeueRoundRobinQueue_ref:
  assumes "ds_rep s A" and "a_rr A = p # ps"
  shows "\<exists>s'. dequeueRoundRobinQueue s = (p, s') \<and> ds_rep s' (A\<lparr>a_rr := ps, a_free := Suc (a_free A)\<rparr>)"
proof -
  from assms(1) obtain fl fn rr rp t where inv: "ds_inv s fl fn rr rp (priorityQ s) t 0 Lf"
    and A: "A = absd (lp s) fl rr rp t" by (auto simp: ds_rep_def)
  then obtain x xs where rr: "rr = x # xs" "lp s x = p" "map (lp s) xs = ps"
    using assms(2) by (cases rr) (auto simp: absd_def)
  have i: "ll_rep (links s) (roundRobinQ s) (x # xs)" "free_links s fl" "set fl \<inter> set (x # xs) = {}"
    using inv rr by (auto simp: ds_inv_def)
  from dequeue_spec [OF i] obtain ll s' where
    r: "LinkedList_dequeue (roundRobinQ s) s = (lp s x, ll, s')"
    and q: "ll_rep (links s') ll xs" "free_links s' (x # fl)" "lframe {x} s s'"
    and l: "lp s' = lp s" unfolding lp_def fun_eq_iff by blast
  have "ds_inv (s'\<lparr>roundRobinQ := ll\<rparr>) (x # fl) fn xs rp (priorityQ s) t 0 Lf"
    by (rule ds_inv_rr_step [OF inv q(3,2,1)]) (use inv rr in \<open>auto simp: ds_inv_def\<close>)
  moreover have "absd (lp s') (x # fl) xs rp t = A\<lparr>a_rr := ps, a_free := Suc (a_free A)\<rparr>"
    using l A rr by (simp add: absd_def)
  ultimately show ?thesis using r rr(2) lframe_fields(3) [OF q(3)]
    by (fastforce simp: dequeueRoundRobinQueue_def ds_rep_def)
qed

lemma addRunningProcessHolder_ref:
  assumes "ds_rep s A" and "0 < a_free A"
  shows "\<exists>s'. addRunningProcessHolder p s = Some (True, s') \<and>
    ds_rep s' (A\<lparr>a_rp := a_rp A @ [p], a_free := a_free A - 1\<rparr>)"
proof -
  from assms(1) obtain fl0 fn rr rp t where inv: "ds_inv s fl0 fn rr rp (priorityQ s) t 0 Lf"
    and A: "A = absd (lp s) fl0 rr rp t" by (auto simp: ds_rep_def)
  obtain x fl where fl: "fl0 = x # fl" using assms(2) A by (cases fl0) (auto simp: absd_def)
  have i: "ll_rep (links s) (runningProcHolder s) rp" "free_links s (x # fl)" "set (x # fl) \<inter> set rp = {}"
    using inv fl by (auto simp: ds_inv_def)
  from enqueue_spec [OF i, of p] obtain ll s' where
    r: "LinkedList_enqueue p (runningProcHolder s) s = Some (True, ll, s')"
    and q: "ll_rep (links s') ll (rp @ [x])" "free_links s' fl" "lframe (insert x (set rp)) s s'"
    and l: "lp s' x = p" "\<forall>y. y \<noteq> x \<longrightarrow> lp s' y = lp s y" unfolding lp_def by blast
  have "ds_inv (s'\<lparr>runningProcHolder := ll\<rparr>) fl fn rr (rp @ [x]) (priorityQ s) t 0 Lf"
    by (rule ds_inv_rp_step [OF inv q(3,2,1)]) (use inv fl in \<open>auto simp: ds_inv_def\<close>)
  moreover have "x \<notin> set rr" "x \<notin> set rp" "x \<notin> set (tlinks t)" using inv fl by (auto simp: ds_inv_def)
  then have "absd (lp s') fl rr (rp @ [x]) t = A\<lparr>a_rp := a_rp A @ [p], a_free := a_free A - 1\<rparr>"
    using l(1) A fl by (simp add: absd_def fresh_agree [OF l(2)])
  ultimately show ?thesis using r lframe_fields(3) [OF q(3)]
    by (fastforce simp: addRunningProcessHolder_def ds_rep_def)
qed

lemma removeRunningProcessHolder_absent_ref:
  assumes "ds_rep s A" and "p \<notin> set (a_rp A)"
  shows "removeRunningProcessHolder p s = Some (False, s)"
proof -
  from assms obtain rp where rp: "ll_rep (links s) (runningProcHolder s) rp" "p \<notin> lp s ` set rp"
    by (auto simp: ds_rep_def absd_def ds_inv_def)
  then have "\<forall>v \<in> set rp. link_p (links s v) \<noteq> p" by (auto simp: lp_def)
  from remove_absent [OF rp(1) this] show ?thesis by (simp add: removeRunningProcessHolder_def)
qed

lemma removeRunningProcessHolder_ref:
  assumes "ds_rep s A" and "p \<in> set (a_rp A)"
  shows "\<exists>s'. removeRunningProcessHolder p s = Some (True, s') \<and>
    ds_rep s' (A\<lparr>a_rp := remove1 p (a_rp A), a_free := Suc (a_free A)\<rparr>)"
proof -
  from assms(1) obtain fl fn rr rp t where inv: "ds_inv s fl fn rr rp (priorityQ s) t 0 Lf"
    and A: "A = absd (lp s) fl rr rp t" by (auto simp: ds_rep_def)
  have "\<exists>v \<in> set rp. lp s v = p" using assms(2) A by (auto simp: absd_def)
  then obtain us x zs where rp: "rp = us @ x # zs" "lp s x = p" "\<forall>v \<in> set us. lp s v \<noteq> p"
    using split_list_first_prop [of rp "\<lambda>v. lp s v = p"] by auto
  have i: "ll_rep (links s) (runningProcHolder s) (us @ x # zs)" "free_links s fl"
    "set fl \<inter> set (us @ x # zs) = {}" using inv rp by (auto simp: ds_inv_def)
  from remove_present [OF i rp(2,3) [unfolded lp_def]] obtain ll s' where
    r: "LinkedList_remove p (runningProcHolder s) s = Some (True, ll, s')"
    and q: "ll_rep (links s') ll (us @ zs)" "free_links s' (x # fl)" "lframe (set (us @ x # zs)) s s'"
    and l: "lp s' = lp s" unfolding lp_def fun_eq_iff by blast
  have "ds_inv (s'\<lparr>runningProcHolder := ll\<rparr>) (x # fl) fn rr (us @ zs) (priorityQ s) t 0 Lf"
    by (rule ds_inv_rp_step [OF inv q(3,2,1)]) (use inv rp in \<open>auto simp: ds_inv_def\<close>)
  moreover have "absd (lp s') (x # fl) rr (us @ zs) t = A\<lparr>a_rp := remove1 p (a_rp A), a_free := Suc (a_free A)\<rparr>"
    using l A rp by (auto simp: absd_def remove1_append)
  ultimately show ?thesis using r lframe_fields(3) [OF q(3)]
    by (fastforce simp: removeRunningProcessHolder_def ds_rep_def)
qed

lemma getMinAccumulatorRunningProcessHolder_ref:
  assumes "ds_rep s A"
  shows "getMinAccumulatorRunningProcessHolder acc s =
    Some (if a_rp A = [] then None else Some (Min (acc ` set (a_rp A))))"
proof -
  from assms obtain rp where rp: "ll_rep (links s) (runningProcHolder s) rp" "a_rp A = map (lp s) rp"
    by (auto simp: ds_rep_def absd_def ds_inv_def)
  then show ?thesis using getMinKey_spec [OF rp(1), of acc]
    by (simp add: getMinAccumulatorRunningProcessHolder_def image_image lp_def)
qed

end
