(* ===== verification/SchedSwitch.thy ===== *)
theory SchedSwitch
  imports SchedRef
begin

text \<open>
  The operations of \<^verbatim>\<open>ass1ds.cpp\<close> that rebuild a whole structure: the two policy
  switches (\<^verbatim>\<open>Map::transfer\<close>, \<^verbatim>\<open>LinkedList::transfer\<close>) and the removal of a
  process from the priority queue (\<^verbatim>\<open>Map::extractProc\<close>). Their loops end, and
  every link they take comes from the entry they have just removed.
\<close>

section \<open>From the priority queue to the round-robin queue\<close>

lemma transfer_loop_ends:
  assumes "ds_inv s fl fn rr rp a t b u"
  shows "\<exists>s' fl' fn' rr'. Map_transfer_loop a s = Some (0, s') \<and>
    ds_inv s' fl' fn' rr' rp 0 Lf b u \<and>
    map (lp s') rr' = map (lp s) rr @ map snd (tflat (lp s) t) \<and>
    map (lp s') rp = map (lp s) rp \<and> length fl' = length fl \<and> priorityQ s' = priorityQ s"
  using assms
proof (induction "length (tlinks t)" arbitrary: s fl fn rr a t)
  case 0
  then have "t = Lf" by (cases t) (auto simp: ds_inv_def)
  then show ?case using 0 by (subst Map_transfer_loop.simps) (auto simp: ds_inv_def Map_isEmpty_def)
next
  case (Suc n)
  have t: "tinv t" "t \<noteq> Lf" using Suc.hyps(2) Suc.prems by (auto simp: ds_inv_def)
  from tflat_hd [OF t, of "lp s"] obtain x q where x: "tminq t = x # q" "hd (tflat (lp s) t) = (tminkey t, lp s x)"
    by blast
  from ds_inv_pop [OF Suc.prems x(1)] obtain a1 s1 fn1 where
    r1: "Map_extractMin a s = Some (lp s x, a1, s1)" and
    i1: "ds_inv s1 (x # fl) fn1 rr rp a1 (tpop t) b u" and l1: "lp s1 = lp s" and
    q1: "priorityQ s1 = priorityQ s" by (auto simp: lp_def fun_eq_iff)
  from ds_inv_enqueue_rr [OF i1, of "lp s x"] obtain ll s2 where
    r2: "LinkedList_enqueue (lp s x) (roundRobinQ s1) s1 = Some (True, ll, s2)" and
    i2: "ds_inv (s2\<lparr>roundRobinQ := ll\<rparr>) fl fn1 (rr @ [x]) rp a1 (tpop t) b u" and
    q2: "priorityQ s2 = priorityQ s1" and l2: "lp s2 x = lp s x" "\<forall>y. y \<noteq> x \<longrightarrow> lp s2 y = lp s1 y" by blast
  have l: "lp s2 = lp s" using l1 l2 by (metis ext)
  have n: "n = length (tlinks (tpop t))" using Suc.hyps(2) tlinks_tpop [OF x(1)] by simp
  from Suc.hyps(1) [OF n i2] obtain s' fl' fn' rr' where
    r3: "Map_transfer_loop a1 (s2\<lparr>roundRobinQ := ll\<rparr>) = Some (0, s')" and
    i3: "ds_inv s' fl' fn' rr' rp 0 Lf b u" and
    l3: "map (lp s') rr' = map (lp s) (rr @ [x]) @ map snd (tflat (lp s) (tpop t))"
      "map (lp s') rp = map (lp s) rp" "length fl' = length fl" and q3: "priorityQ s' = priorityQ s2"
    by (auto simp: l)
  have "tflat (lp s) t = (tminkey t, lp s x) # tflat (lp s) (tpop t)"
    using x(2) tflat_tpop [OF t, of "lp s"] tflat_Nil_iff [OF t(1), of "lp s"] t(2)
    by (metis list.collapse)
  then have "map (lp s') rr' = map (lp s) rr @ map snd (tflat (lp s) t)" using l3(1) by simp
  moreover have "Map_transfer_loop a s = Some (0, s')"
    using r1 r2 r3 ds_inv_Map_isEmpty [OF Suc.prems] t by (subst Map_transfer_loop.simps) simp
  ultimately show ?case using i3 l3 q1 q2 q3 by metis
qed

lemma switchToRoundRobinPolicy_ref:
  assumes "ds_rep s A" and "a_rr A = []"
  shows "\<exists>s'. switchToRoundRobinPolicyPriorityQueue s = Some (True, s') \<and>
    ds_rep s' (A\<lparr>a_pq := [], a_rr := map snd (a_pq A)\<rparr>)"
proof -
  from assms(1) obtain fl fn rr rp t where inv: "ds_inv s fl fn rr rp (priorityQ s) t 0 Lf"
    and A: "A = absd (lp s) fl rr rp t" by (auto simp: ds_rep_def)
  from transfer_loop_ends [OF inv] obtain s' fl' fn' rr' where
    r: "Map_transfer_loop (priorityQ s) s = Some (0, s')" and i: "ds_inv s' fl' fn' rr' rp 0 Lf 0 Lf" and
    l: "map (lp s') rr' = map (lp s) rr @ map snd (tflat (lp s) t)" "map (lp s') rp = map (lp s) rp"
      "length fl' = length fl" by blast
  have "LinkedList_isEmpty (roundRobinQ s)"
    using isEmptyRoundRobinQueue_ref [OF assms(1)] assms(2) by (simp add: isEmptyRoundRobinQueue_def)
  moreover have "absd (lp s') fl' rr' rp Lf = A\<lparr>a_pq := [], a_rr := map snd (a_pq A)\<rparr>"
    using A l assms(2) by (simp add: absd_def)
  ultimately show ?thesis using r i
    by (fastforce simp: switchToRoundRobinPolicyPriorityQueue_def Map_transfer_def ds_rep_def)
qed

lemma switchToRoundRobinPolicy_refused:
  assumes "ds_rep s A" and "a_rr A \<noteq> []"
  shows "switchToRoundRobinPolicyPriorityQueue s = Some (False, s)"
  using assms isEmptyRoundRobinQueue_ref [OF assms(1)]
  by (simp add: switchToRoundRobinPolicyPriorityQueue_def Map_transfer_def isEmptyRoundRobinQueue_def)

section \<open>From the round-robin queue to the priority queue\<close>

lemma switchToPriorityQueuePolicy_ref:
  assumes "ds_rep s A" and "a_pq A = []"
  shows "\<exists>s'. switchToPriorityQueuePolicyRoundRobinQueue s = (True, s') \<and>
    ds_rep s' (A\<lparr>a_pq := map (\<lambda>p. (0, p)) (a_rr A), a_rr := []\<rparr>)"
proof -
  from assms(1) obtain fl fn rr rp t where inv0: "ds_inv s fl fn rr rp (priorityQ s) t 0 Lf"
    and A: "A = absd (lp s) fl rr rp t" by (auto simp: ds_rep_def)
  have t: "t = Lf" using assms(2) A inv0 by (auto simp: absd_def ds_inv_def tflat_Nil_iff)
  note inv = inv0 [unfolded t]
  have e: "Map_isEmpty (priorityQ s)" using ds_inv_Map_isEmpty [OF inv] by simp
  show ?thesis
  proof (cases "rr = []")
    case True
    then have "LinkedList_isEmpty (roundRobinQ s)"
      using inv by (auto simp: ds_inv_def LinkedList_isEmpty_def empty_list_def)
    moreover have "A\<lparr>a_pq := [], a_rr := []\<rparr> = A" using A t True by (simp add: absd_def)
    ultimately show ?thesis
      using assms A True e by (simp add: switchToPriorityQueuePolicyRoundRobinQueue_def
          LinkedList_transfer_def absd_def)
  next
    case False
    then have "fn \<noteq> []" using inv by (auto simp: ds_inv_def)
    then obtain n ns where fn: "fn = n # ns" by (cases fn) auto
    have i: "free_nodes s (n # ns)" "ll_rep (links s) (roundRobinQ s) rr" "n \<notin> set ns"
      using inv fn by (auto simp: ds_inv_def)
    from allocNode_cons [OF i(1), of 0] obtain s1 where
      s1: "allocNode 0 s = (n, s1)" "n \<noteq> 0" "free_nodes s1 ns" "hframe {} {n} s s1"
      "nodes s1 n = new_node 0" "links s1 = links s" "freeLinks s1 = freeLinks s" by blast
    let ?s = "set_node_procs n (roundRobinQ s) s1\<lparr>priorityQ := n, roundRobinQ := empty_list\<rparr>"
    let ?t = "Nd Lf n 0 rr Lf"
    have l: "\<not> LinkedList_isEmpty (roundRobinQ s)" using i(2) False by (simp add: ll_rep_isEmpty)
    have fl: "free_links s1 fl" using inv s1 by (simp add: ds_inv_def free_links_def)
    have f: "free_nodes (set_node_procs n (roundRobinQ s) s1) ns"
      using s1(3) i(3) by (intro free_nodes_set_node)
    have "tree_rep (links ?s) (nodes ?s) 0 n ?t"
      using s1 i(2) by (simp add: node_updates new_node_def)
    then have "ds_inv ?s fl ns [] rp n ?t 0 Lf"
      using inv fn False f fl s1 unfolding ds_inv_def
      by (auto simp: free_links_def node_updates free_nodes_def hframe_def)
    moreover have "absd (lp ?s) fl [] rp ?t = A\<lparr>a_pq := map (\<lambda>p. (0, p)) (a_rr A), a_rr := []\<rparr>"
      using A t s1(6) by (simp add: absd_def lp_def node_updates)
    ultimately have "ds_rep ?s (A\<lparr>a_pq := map (\<lambda>p. (0, p)) (a_rr A), a_rr := []\<rparr>)"
      by (fastforce simp: ds_rep_def)
    then show ?thesis using e l s1
      by (simp add: switchToPriorityQueuePolicyRoundRobinQueue_def LinkedList_transfer_def)
  qed
qed

lemma switchToPriorityQueuePolicy_refused:
  assumes "ds_rep s A" and "a_pq A \<noteq> []"
  shows "switchToPriorityQueuePolicyRoundRobinQueue s = (False, s)"
  using assms isEmptyPriorityQueue_ref [OF assms(1)]
  by (simp add: switchToPriorityQueuePolicyRoundRobinQueue_def LinkedList_transfer_def isEmptyPriorityQueue_def)

section \<open>Removing a process from the priority queue\<close>

text \<open>The entries other than those of \<open>p\<close>, reinserted with their present accumulators.\<close>

definition pq_rebuild :: "(procp \<Rightarrow> int) \<Rightarrow> (int \<times> procp) list \<Rightarrow> (int \<times> procp) list \<Rightarrow> (int \<times> procp) list" where
  "pq_rebuild acc = fold (\<lambda>(k, q). pq_insert (acc q) q)"

lemma pq_rebuild_simps [simp]:
  "pq_rebuild acc [] ys = ys" "pq_rebuild acc ((k, q) # xs) ys = pq_rebuild acc xs (pq_insert (acc q) q ys)"
  by (simp_all add: pq_rebuild_def)

lemma pq_sorted_rebuild: "pq_sorted ys \<Longrightarrow> pq_sorted (pq_rebuild acc xs ys)"
  by (induction xs arbitrary: ys) (auto simp: pq_sorted_insert)

lemma mset_pq_rebuild: "mset (map snd (pq_rebuild acc xs ys)) = mset (map snd xs) + mset (map snd ys)"
  by (induction xs arbitrary: ys) auto

definition extract_post ::
  "(procp \<Rightarrow> int) \<Rightarrow> procp \<Rightarrow> addr list \<Rightarrow> addr list \<Rightarrow> addr list \<Rightarrow> mtree \<Rightarrow> mtree \<Rightarrow> sched_ds \<Rightarrow> addr \<Rightarrow> sched_ds \<Rightarrow> bool" where
  "extract_post acc p fl rr rp t u s b' s' \<longleftrightarrow> (\<exists>fl' fn' u'. ds_inv s' fl' fn' rr rp b' u' 0 Lf \<and>
     tflat (lp s') u' = pq_rebuild acc (filter (\<lambda>e. snd e \<noteq> p) (tflat (lp s) t)) (tflat (lp s) u) \<and>
     map (lp s') rr = map (lp s) rr \<and> map (lp s') rp = map (lp s) rp \<and>
     length fl' = length fl + length (filter (\<lambda>e. snd e = p) (tflat (lp s) t)))"

lemma extract_post_skip:
  assumes "tflat (lp s) t = (k, p) # tflat (lp s) t1" and "lp s1 = lp s"
    and "extract_post acc p (x # fl) rr rp t1 u s1 b' s'"
  shows "extract_post acc p fl rr rp t u s b' s'"
  using assms by (simp add: extract_post_def)

lemma extract_post_keep:
  assumes "tflat (lp s) t = (k, q) # tflat (lp s) t1" and "q \<noteq> p"
    and "map (lp s1) rr = map (lp s) rr" "map (lp s1) rp = map (lp s) rp"
    and "tflat (lp s1) t1 = tflat (lp s) t1" "tflat (lp s1) u1 = pq_insert (acc q) q (tflat (lp s) u)"
    and "extract_post acc p fl rr rp t1 u1 s1 b' s'"
  shows "extract_post acc p fl rr rp t u s b' s'"
  using assms unfolding extract_post_def by simp

lemma extractProc_loop_ends:
  assumes "ds_inv s fl fn rr rp a t b u"
  shows "\<exists>b' s'. Map_extractProc_loop acc p ans a b s =
      Some (ans \<or> p \<in> snd ` set (tflat (lp s) t), b', s') \<and> extract_post acc p fl rr rp t u s b' s'"
  using assms
proof (induction "length (tlinks t)" arbitrary: s fl fn a t b u ans)
  case 0
  then have "t = Lf" by (cases t) (auto simp: ds_inv_def)
  moreover from this have "a = 0" "ds_inv s fl fn rr rp b u 0 Lf"
    using 0 by (auto simp: ds_inv_def)
  ultimately show ?case
    by (subst Map_extractProc_loop.simps) (auto simp: Map_isEmpty_def extract_post_def)
next
  case (Suc n)
  have t: "tinv t" "t \<noteq> Lf" using Suc.hyps(2) Suc.prems by (auto simp: ds_inv_def)
  from tflat_hd [OF t, of "lp s"] obtain x q where x: "tminq t = x # q" "hd (tflat (lp s) t) = (tminkey t, lp s x)"
    by blast
  have tf: "tflat (lp s) t = (tminkey t, lp s x) # tflat (lp s) (tpop t)"
    using x(2) tflat_tpop [OF t, of "lp s"] tflat_Nil_iff [OF t(1), of "lp s"] t(2)
    by (metis list.collapse)
  have ne: "\<not> Map_isEmpty a" using ds_inv_Map_isEmpty [OF Suc.prems] t by simp
  have n: "n = length (tlinks (tpop t))" using Suc.hyps(2) tlinks_tpop [OF x(1)] by simp
  from ds_inv_pop [OF Suc.prems x(1)] obtain a1 s1 fn1 where
    r1: "Map_extractMin a s = Some (lp s x, a1, s1)" and
    i1: "ds_inv s1 (x # fl) fn1 rr rp a1 (tpop t) b u" and l1: "lp s1 = lp s"
    by (auto simp: lp_def fun_eq_iff)
  show ?case
  proof (cases "lp s x = p")
    case True
    from Suc.hyps(1) [OF n i1, of True] obtain b' s' where
      r: "Map_extractProc_loop acc p True a1 b s1 = Some (True, b', s')"
      and e: "extract_post acc p (x # fl) rr rp (tpop t) u s1 b' s'" by auto
    from tf True have "tflat (lp s) t = (tminkey t, p) # tflat (lp s) (tpop t)" by simp
    from extract_post_skip [OF this l1 e] show ?thesis
      using r r1 ne True tf by (subst Map_extractProc_loop.simps) simp
  next
    case False
    from ds_inv_put [OF ds_inv_swap [OF i1], of acc "lp s x"] obtain b2 s2 fn2 m where
      r2: "Map_put acc (lp s x) b s1 = Some (True, b2, s2)" and
      i2: "ds_inv s2 fl fn2 rr rp b2 (tput (acc (lp s x)) x m u) a1 (tpop t)" and
      l2: "lp s2 x = lp s x" "\<forall>y. y \<noteq> x \<longrightarrow> lp s2 y = lp s1 y" by (auto simp: lp_def)
    have l: "lp s2 = lp s" using l1 l2 by (metis ext)
    from Suc.hyps(1) [OF n ds_inv_swap [OF i2], of ans] obtain b' s' where
      r: "Map_extractProc_loop acc p ans a1 b2 s2 = Some (ans \<or> p \<in> snd ` set (tflat (lp s) (tpop t)), b', s')"
      and e: "extract_post acc p fl rr rp (tpop t) (tput (acc (lp s x)) x m u) s2 b' s'"
      by (auto simp: l)
    have u: "tflat (lp s2) (tput (acc (lp s x)) x m u) = pq_insert (acc (lp s x)) (lp s x) (tflat (lp s) u)"
      using i1 l by (simp add: tflat_tput ds_inv_def)
    have "extract_post acc p fl rr rp t u s b' s'"
      by (rule extract_post_keep [OF tf False _ _ _ u e]) (simp_all add: l)
    then show ?thesis
      using r r1 r2 ne False tf by (subst Map_extractProc_loop.simps) auto
  qed
qed

lemma extractProcPriorityQueue_ref:
  assumes "ds_rep s A" and "0 < a_free A"
  shows "\<exists>s'. extractProcPriorityQueue acc p s = Some (p \<in> snd ` set (a_pq A), s') \<and>
    ds_rep s' (A\<lparr>a_pq := pq_rebuild acc (filter (\<lambda>e. snd e \<noteq> p) (a_pq A)) [],
                 a_free := a_free A + length (filter (\<lambda>e. snd e = p) (a_pq A))\<rparr>)"
proof -
  from assms(1) obtain fl0 fn rr rp t where inv0: "ds_inv s fl0 fn rr rp (priorityQ s) t 0 Lf"
    and A: "A = absd (lp s) fl0 rr rp t" by (auto simp: ds_rep_def)
  obtain x fl where fl: "fl0 = x # fl" using assms(2) A by (cases fl0) (auto simp: absd_def)
  have "fn \<noteq> []" using ds_inv_node inv0 fl by metis
  then have "freeNodes s \<noteq> 0" using inv0 by (cases fn) (auto simp: ds_inv_def free_nodes_def)
  with extractProc_loop_ends [OF inv0, of acc p False] obtain b' s' where
    r: "Map_extractProc acc p (priorityQ s) s = Some (p \<in> snd ` set (a_pq A), b', s')"
    and e: "extract_post acc p fl0 rr rp t Lf s b' s'" using A by (auto simp: Map_extractProc_def absd_def)
  from e A have "ds_rep (s'\<lparr>priorityQ := b'\<rparr>)
    (A\<lparr>a_pq := pq_rebuild acc (filter (\<lambda>e. snd e \<noteq> p) (a_pq A)) [],
       a_free := a_free A + length (filter (\<lambda>e. snd e = p) (a_pq A))\<rparr>)"
    unfolding extract_post_def ds_rep_def by (fastforce simp: absd_def)
  with r show ?thesis by (simp add: extractProcPriorityQueue_def)
qed

end
