(* ===== verification/SchedInit.thy ===== *)
theory SchedInit
  imports SchedSwitch
begin

text \<open>
  Initialisation of the scheduler's structures (\<^verbatim>\<open>initSchedDS\<close>): two free pages are
  enough for the 128 links and 128 nodes, and the structures start empty with every
  link free. Also \<^verbatim>\<open>__moddi3\<close>, the 64-bit remainder the policies use.
\<close>

section \<open>Blocks of a page\<close>

definition blocks :: "addr \<Rightarrow> u32 \<Rightarrow> nat \<Rightarrow> addr list" where
  "blocks q z n = map (\<lambda>i. q + of_nat i * z) [0..<n]"

lemma blocks_0 [simp]: "blocks q z 0 = []"
  by (simp add: blocks_def)

lemma blocks_Suc: "blocks q z (Suc n) = q # blocks (q + z) z n"
  by (simp add: blocks_def upt_conv_Cons map_Suc_upt [symmetric] algebra_simps del: upt_Suc)

lemma length_blocks [simp]: "length (blocks q z n) = n"
  by (simp add: blocks_def)

lemma unat_block:
  fixes q z :: u32
  assumes "unat q + n * unat z \<le> 2 ^ 32" and "i < n" and "z \<noteq> 0"
  shows "unat (q + of_nat i * z) = unat q + i * unat z"
proof -
  have z: "0 < unat z" using assms(3) by (simp add: unat_gt_0)
  have "i * unat z < n * unat z" using assms(2) z by simp
  then have lt: "unat q + i * unat z < 2 ^ 32" using assms(1) by linarith
  have "of_nat i * z = word_of_nat (i * unat z)" by simp
  then have "unat (of_nat i * z) = i * unat z"
    using lt by (simp add: unat_of_nat del: of_nat_mult)
  with lt show ?thesis by (simp add: unat_word_ariths)
qed

lemma blocks_range:
  assumes "unat q + n * unat z \<le> 2 ^ 32" and "z \<noteq> 0" and "x \<in> set (blocks q z n)"
  shows "unat q \<le> unat x" "unat x < unat q + n * unat z"
proof -
  from assms(3) obtain i where i: "i < n" "x = q + of_nat i * z" by (auto simp: blocks_def)
  have "0 < unat z" using assms(2) by (simp add: unat_gt_0)
  then have "i * unat z < n * unat z" using i by simp
  with i unat_block [OF assms(1) i(1) assms(2)] show "unat q \<le> unat x" "unat x < unat q + n * unat z" by auto
qed

lemma blocks_distinct:
  assumes "unat q + n * unat z \<le> 2 ^ 32" and "z \<noteq> 0"
  shows "distinct (blocks q z n)"
proof -
  have z: "0 < unat z" using assms(2) by (simp add: unat_gt_0)
  have "i = j" if ij: "i < n" "j < n" and e: "q + of_nat i * z = q + of_nat j * z" for i j
  proof -
    have "unat q + i * unat z = unat q + j * unat z"
      using unat_block [OF assms(1) ij(1) assms(2)] unat_block [OF assms(1) ij(2) assms(2)]
      unfolding e by (rule trans [OF sym])
    then show ?thesis using z by simp
  qed
  then show ?thesis unfolding blocks_def distinct_map inj_on_def by (metis atLeastLessThan_iff distinct_upt set_upt)
qed

lemma page_ok_range:
  assumes "page_ok kend p"
  shows "unat p + 4096 \<le> 2 ^ 32" "0 < unat p"
proof -
  have "unat p mod 4096 = 0"
    using assms by (simp add: page_ok_def word_arith_nat_mod unat_of_nat flip: unat_eq_zero)
  then obtain a where "unat p = 4096 * a" by (auto simp: mod_eq_0_iff_dvd elim!: dvdE)
  moreover have "unat p < 2 ^ 32" using unsigned_less [of p, where ?'a = nat] by simp
  ultimately show "unat p + 4096 \<le> 2 ^ 32" by simp
  show "0 < unat p" using page_ok_nonnull [OF assms] by (simp add: unat_gt_0)
qed

section \<open>The bump allocator\<close>

lemma mymalloc_room:
  "z \<le> bump_left b \<Longrightarrow>
   mymalloc z b = Inr (bump_data b, b\<lparr>bump_data := bump_data b + z, bump_left := bump_left b - z\<rparr>)"
  by (simp add: mymalloc_def kbind_def not_less [symmetric])

lemma mymalloc_page:
  assumes "bump_left b < z" and fp: "free_pages kend (bump_kmem b) (x # xs)"
  shows "\<exists>k. free_pages kend k xs \<and>
    mymalloc z b = Inr (x, \<lparr>bump_data = x + z, bump_left = PGSIZE - z, bump_kmem = k\<rparr>)"
proof -
  obtain kk where kk: "kalloc (bump_kmem b) = (x, kk)"
    using kalloc_spec(1) [OF fp] by (cases "kalloc (bump_kmem b)") auto
  note ka = kalloc_spec [OF fp, unfolded kk snd_conv]
  let ?k = "kk\<lparr>mem := memset_words (mem kk) x 0 PGSIZE\<rparr>"
  have "memset_words (mem kk) x 0 PGSIZE y = mem kk y" if "y \<in> set xs" for y
  proof -
    have "y mod PGSIZE = 0" "x mod PGSIZE = 0" "y \<noteq> x"
      using ka that by (auto simp: free_pages_def page_ok_def)
    then have "\<not> y - x < PGSIZE" using aligned_diff_small [of y x] by auto
    then show ?thesis by (simp add: memset_words_def Let_def)
  qed
  then have "free_pages kend ?k xs"
    using ka(5) chain_cong [of xs "memset_words (mem kk) x 0 PGSIZE" "mem kk"] by (auto simp: free_pages_def)
  then show ?thesis
    using assms(1) ka(2) kk by (intro exI [of _ ?k]) (simp add: mymalloc_def kbind_def)
qed

section \<open>Filling the free lists\<close>

lemma hd_snoc2 [simp]: "hd (xs @ [a, b]) = hd (xs @ [a])"
  by (cases xs) auto

definition bump_by :: "u32 \<Rightarrow> nat \<Rightarrow> bump \<Rightarrow> bump" where
  "bump_by z n b = b\<lparr>bump_data := bump_data b + of_nat n * z, bump_left := bump_left b - of_nat n * z\<rparr>"

lemma bump_by_simps [simp]:
  "bump_by z 0 b = b" "bump_data (bump_by z n b) = bump_data b + of_nat n * z"
  "bump_kmem (bump_by z n b) = bump_kmem b" "bump_left (bump_by z n b) = bump_left b - of_nat n * z"
  "bump_by z n (bump_by z m b) = bump_by z (m + n) b"
  by (simp_all add: bump_by_def algebra_simps)

lemma mymalloc_by: "z \<le> bump_left b \<Longrightarrow> mymalloc z b = Inr (bump_data b, bump_by z 1 b)"
  by (simp add: mymalloc_room bump_by_def)

lemma init_links_room:
  assumes "8 * n \<le> unat (bump_left b)" and "free_links s fl"
    and "distinct (blocks (bump_data b) 8 n @ fl)" and "0 \<notin> set (blocks (bump_data b) 8 n)"
  shows "\<exists>L f. init_links n b s = Inr (bump_by 8 n b, s\<lparr>links := L, freeLinks := f\<rparr>) \<and>
    chain (lnext L) f (rev (blocks (bump_data b) 8 n) @ fl)"
  using assms
proof (induction n arbitrary: b s fl)
  case 0
  then show ?case by (intro exI [of _ "links s"] exI [of _ "freeLinks s"]) (simp add: free_links_def del: lnext_apply)
next
  case (Suc n)
  let ?l = "bump_data b"
  let ?b = "bump_by 8 1 b"
  let ?s = "s\<lparr>links := (links s)(?l := new_link\<lparr>link_next := freeLinks s\<rparr>), freeLinks := ?l\<rparr>"
  have room: "8 \<le> bump_left b" using Suc.prems(1) by (simp add: word_le_nat_alt)
  have "unat (bump_left ?b) = unat (bump_left b) - 8" using room by (simp add: unat_sub)
  then have left: "8 * n \<le> unat (bump_left ?b)" using Suc.prems(1) by simp
  have fl: "free_links ?s (?l # fl)"
    using Suc.prems by (simp add: free_links_def blocks_Suc chain_L_upd)
  have "distinct (blocks (bump_data ?b) 8 n @ ?l # fl)" "0 \<notin> set (blocks (bump_data ?b) 8 n)"
    using Suc.prems(3,4) by (auto simp: blocks_Suc)
  from Suc.IH [OF left fl this] obtain L f where
    r: "init_links n ?b ?s = Inr (bump_by 8 n ?b, ?s\<lparr>links := L, freeLinks := f\<rparr>)" and
    c: "chain (lnext L) f (rev (blocks (bump_data ?b) 8 n) @ ?l # fl)" by blast
  have "init_links (Suc n) b s = Inr (bump_by 8 (Suc n) b, s\<lparr>links := L, freeLinks := f\<rparr>)"
    using r mymalloc_by [OF room] by (simp add: kbind_def)
  then show ?case using c
    by (intro exI [of _ L] exI [of _ f]) (simp add: blocks_Suc del: lnext_apply init_links.simps)
qed

lemma init_nodes_room:
  assumes "32 * n \<le> unat (bump_left b)" and "free_nodes s fn"
    and "distinct (blocks (bump_data b) 32 n @ fn)" and "0 \<notin> set (blocks (bump_data b) 32 n)"
  shows "\<exists>N f. init_nodes n b s = Inr (bump_by 32 n b, s\<lparr>nodes := N, freeNodes := f\<rparr>) \<and>
    free_nodes (s\<lparr>nodes := N, freeNodes := f\<rparr>) (rev (blocks (bump_data b) 32 n) @ fn)"
  using assms
proof (induction n arbitrary: b s fn)
  case 0
  then show ?case by (intro exI [of _ "nodes s"] exI [of _ "freeNodes s"]) simp
next
  case (Suc n)
  let ?l = "bump_data b"
  let ?b = "bump_by 32 1 b"
  let ?s = "s\<lparr>nodes := (nodes s)(?l := (new_node 0)\<lparr>node_next := freeNodes s\<rparr>), freeNodes := ?l\<rparr>"
  have room: "32 \<le> bump_left b" using Suc.prems(1) by (simp add: word_le_nat_alt)
  have "unat (bump_left ?b) = unat (bump_left b) - 32" using room by (simp add: unat_sub)
  then have left: "32 * n \<le> unat (bump_left ?b)" using Suc.prems(1) by simp
  have fn: "free_nodes ?s (?l # fn)"
    using Suc.prems by (auto simp: free_nodes_def blocks_Suc chain_N_upd clear_node_def new_node_def)
  have "distinct (blocks (bump_data ?b) 32 n @ ?l # fn)" "0 \<notin> set (blocks (bump_data ?b) 32 n)"
    using Suc.prems(3,4) by (auto simp: blocks_Suc)
  from Suc.IH [OF left fn this] obtain N f where
    r: "init_nodes n ?b ?s = Inr (bump_by 32 n ?b, ?s\<lparr>nodes := N, freeNodes := f\<rparr>)" and
    c: "free_nodes (?s\<lparr>nodes := N, freeNodes := f\<rparr>) (rev (blocks (bump_data ?b) 32 n) @ ?l # fn)" by blast
  have "init_nodes (Suc n) b s = Inr (bump_by 32 (Suc n) b, s\<lparr>nodes := N, freeNodes := f\<rparr>)"
    using r mymalloc_by [OF room] by (simp add: kbind_def)
  then show ?case using c
    by (intro exI [of _ N] exI [of _ f]) (simp add: blocks_Suc del: init_nodes.simps)
qed

lemma init_nodes_add:
  "init_nodes (m + n) b s = kbind (init_nodes m b s) (\<lambda>(b', s'). init_nodes n b' s')"
proof (induction m arbitrary: b s)
  case (Suc m)
  show ?case by (cases "mymalloc 32 b") (auto simp: kbind_def Suc.IH)
qed (simp add: kbind_def)

text \<open>A page is opened by the first block that does not fit.\<close>

lemma init_nodes_page:
  assumes "bump_left b < 32" and "free_pages kend (bump_kmem b) (x # xs)"
  shows "\<exists>k. free_pages kend k xs \<and>
    init_nodes (Suc n) b s = init_nodes (Suc n) \<lparr>bump_data = x, bump_left = PGSIZE, bump_kmem = k\<rparr> s"
  using mymalloc_page [OF assms] mymalloc_room [of 32] by (auto simp: kbind_def)

section \<open>\<open>initSchedDS\<close>\<close>

lemma page_unat:
  assumes "page_ok kend p"
  obtains a where "unat p = 4096 * a" "0 < a" "4096 * a + 4096 \<le> 2 ^ 32"
proof -
  have "unat p mod 4096 = 0"
    using assms by (simp add: page_ok_def word_arith_nat_mod unat_of_nat flip: unat_eq_zero)
  then obtain a where "unat p = 4096 * a" by (auto simp: mod_eq_0_iff_dvd elim!: dvdE)
  with that page_ok_range [OF assms] show ?thesis by simp
qed

lemma unat_page_off:
  assumes "page_ok kend p" and "m < 4096"
  shows "unat (p + of_nat m) = unat p + m"
proof -
  have "unat p + m < 2 ^ 32" using page_ok_range(1) [OF assms(1)] assms(2) by linarith
  then show ?thesis by (simp add: unat_word_ariths unat_of_nat)
qed

lemma page_blocks:
  assumes p: "page_ok kend p" and m: "m + n * unat z \<le> 4096" "m < 4096" and z: "z \<noteq> 0"
  shows "distinct (blocks (p + of_nat m) z n)" "0 \<notin> set (blocks (p + of_nat m) z n)"
    "\<And>x. x \<in> set (blocks (p + of_nat m) z n) \<Longrightarrow> unat p + m \<le> unat x \<and> unat x < unat p + (m + n * unat z)"
proof -
  note u = unat_page_off [OF p m(2)]
  have fit: "unat (p + of_nat m) + n * unat z \<le> 2 ^ 32" using page_ok_range(1) [OF p] m(1) u by simp
  show "distinct (blocks (p + of_nat m) z n)" by (rule blocks_distinct [OF fit z])
  show r: "unat p + m \<le> unat x \<and> unat x < unat p + (m + n * unat z)" if "x \<in> set (blocks (p + of_nat m) z n)" for x
    using blocks_range [OF fit z that] u by simp
  show "0 \<notin> set (blocks (p + of_nat m) z n)"
    using r [of 0] page_ok_range(2) [OF p] by auto
qed

lemma pages_apart:
  assumes "page_ok kend p" and "page_ok kend q" and "p \<noteq> q"
    and "unat p \<le> unat x" "unat x < unat p + 4096" and "unat q \<le> unat y" "unat y < unat q + 4096"
  shows "x \<noteq> y"
proof -
  from assms(1,2) obtain a b where ab: "unat p = 4096 * a" "unat q = 4096 * b" by (metis page_unat)
  with assms(3) have "a \<noteq> b" by (metis word_unat_eq_iff)
  with ab assms(4-) show ?thesis by auto
qed

definition empty_ds :: sched_ds where
  "empty_ds = \<lparr>links = (\<lambda>_. new_link), nodes = (\<lambda>_. new_node 0), freeLinks = 0, freeNodes = 0,
     priorityQ = 0, roundRobinQ = empty_list, runningProcHolder = empty_list\<rparr>"

lemma init_links_page:
  assumes "page_ok kend p" and "bump_data b = p + 20" and "bump_left b = 4076"
  shows "\<exists>L f. init_links NPROCLIST b empty_ds = Inr (bump_by 8 128 b, empty_ds\<lparr>links := L, freeLinks := f\<rparr>) \<and>
    chain (lnext L) f (rev (blocks (p + 20) 8 128))"
  using init_links_room [of 128 b empty_ds "[]"] page_blocks [OF assms(1), of 20 128 8] assms
  by (simp add: free_links_def empty_ds_def del: lnext_apply)

lemma init_nodes_pages:
  assumes p: "page_ok kend p" and b: "bump_data b = p + 1044" "bump_left b = 3052"
    and fp: "free_pages kend (bump_kmem b) (q # xs)" and pq: "p \<noteq> q" and s: "free_nodes s []"
  shows "\<exists>N f b'. init_nodes NPROCMAP b s = Inr (b', s\<lparr>nodes := N, freeNodes := f\<rparr>) \<and>
    free_pages kend (bump_kmem b') xs \<and>
    free_nodes (s\<lparr>nodes := N, freeNodes := f\<rparr>) (rev (blocks q 32 33) @ rev (blocks (p + 1044) 32 95)) \<and>
    distinct (blocks q 32 33 @ rev (blocks (p + 1044) 32 95))"
proof -
  note q = kalloc_spec(3) [OF fp]
  note B = page_blocks [OF p, of 1044 95 32, simplified] and C = page_blocks [OF q, of 0 33 32, simplified]
  from init_nodes_room [of 95 b s "[]"] b s B(1,2) obtain N f where
    r: "init_nodes 95 b s = Inr (bump_by 32 95 b, s\<lparr>nodes := N, freeNodes := f\<rparr>)" and
    c: "free_nodes (s\<lparr>nodes := N, freeNodes := f\<rparr>) (rev (blocks (p + 1044) 32 95))" by auto
  let ?b = "bump_by 32 95 b" and ?s = "s\<lparr>nodes := N, freeNodes := f\<rparr>"
  have left: "bump_left ?b < 32" "free_pages kend (bump_kmem ?b) (q # xs)" using b fp by simp_all
  from init_nodes_page [OF left, of 32 ?s] obtain k where k: "free_pages kend k xs"
    "init_nodes 33 ?b ?s = init_nodes 33 \<lparr>bump_data = q, bump_left = PGSIZE, bump_kmem = k\<rparr> ?s" by auto
  let ?c = "\<lparr>bump_data = q, bump_left = PGSIZE, bump_kmem = k\<rparr>"
  have "x \<noteq> y" if "x \<in> set (blocks (p + 1044) 32 95)" "y \<in> set (blocks q 32 33)" for x y
    using pages_apart [OF p q pq, of x y] B(3) [OF that(1)] C(3) [OF that(2)] by auto
  then have d: "distinct (blocks q 32 33 @ rev (blocks (p + 1044) 32 95))" using B(1) C(1) by auto
  from init_nodes_room [of 33 ?c ?s, OF _ c] d C(2) obtain N' f' where
    "init_nodes 33 ?c ?s = Inr (bump_by 32 33 ?c, ?s\<lparr>nodes := N', freeNodes := f'\<rparr>)"
    "free_nodes (?s\<lparr>nodes := N', freeNodes := f'\<rparr>) (rev (blocks q 32 33) @ rev (blocks (p + 1044) 32 95))" by auto
  moreover have "init_nodes NPROCMAP b s = init_nodes 33 ?b ?s"
    using init_nodes_add [of 95 33 b s] r by (simp add: kbind_def)
  ultimately show ?thesis
    using k d by (intro exI [of _ N'] exI [of _ f'] exI [of _ "bump_by 32 33 ?c"]) simp
qed

lemma initSchedDS_ok:
  assumes fp: "free_pages kend k (p # q # xs)"
  shows "\<exists>k' s. initSchedDS k = Inr (k', s) \<and> free_pages kend k' xs \<and>
    ds_rep s \<lparr>a_pq = [], a_rr = [], a_rp = [], a_free = NPROCLIST\<rparr>"
proof -
  have p: "page_ok kend p" and pq: "p \<noteq> q" using kalloc_spec(3,4) [OF fp] by auto
  from mymalloc_page [of "\<lparr>bump_data = 0, bump_left = 0, bump_kmem = k\<rparr>" 4 kend p] fp obtain k1
    where k1: "free_pages kend k1 (q # xs)" and
    m1: "mymalloc 4 \<lparr>bump_data = 0, bump_left = 0, bump_kmem = k\<rparr> =
      Inr (p, \<lparr>bump_data = p + 4, bump_left = 4092, bump_kmem = k1\<rparr>)" by auto
  let ?b1 = "\<lparr>bump_data = p + 4, bump_left = 4092, bump_kmem = k1\<rparr>"
  let ?b3 = "bump_by 8 2 ?b1"
  have m2: "mymalloc 8 ?b1 = Inr (p + 4, bump_by 8 1 ?b1)" "mymalloc 8 (bump_by 8 1 ?b1) = Inr (p + 12, ?b3)"
    by (simp_all add: mymalloc_by)
  from init_links_page [OF p, of ?b3] obtain L f where
    l: "init_links NPROCLIST ?b3 empty_ds = Inr (bump_by 8 128 ?b3, empty_ds\<lparr>links := L, freeLinks := f\<rparr>)" and
    c: "chain (lnext L) f (rev (blocks (p + 20) 8 128))" by auto
  let ?b4 = "bump_by 8 128 ?b3" and ?s = "empty_ds\<lparr>links := L, freeLinks := f\<rparr>"
  have "bump_data ?b4 = p + 1044" "bump_left ?b4 = 3052" "free_pages kend (bump_kmem ?b4) (q # xs)"
    "free_nodes ?s []" using k1 by (simp_all add: free_nodes_def empty_ds_def)
  from init_nodes_pages [OF p this(1-3) pq this(4)] obtain N g b' where
    n: "init_nodes NPROCMAP ?b4 ?s = Inr (b', ?s\<lparr>nodes := N, freeNodes := g\<rparr>)" "free_pages kend (bump_kmem b') xs"
    "free_nodes (?s\<lparr>nodes := N, freeNodes := g\<rparr>) (rev (blocks q 32 33) @ rev (blocks (p + 1044) 32 95))"
    "distinct (blocks q 32 33 @ rev (blocks (p + 1044) 32 95))" by blast
  let ?t = "?s\<lparr>nodes := N, freeNodes := g\<rparr>" and ?fl = "rev (blocks (p + 20) 8 128)"
  have "ds_inv ?t ?fl (rev (blocks q 32 33) @ rev (blocks (p + 1044) 32 95)) [] [] 0 Lf 0 Lf"
    using n(3,4) c page_blocks(1) [OF p, of 20 128 8] by (auto simp: ds_inv_def free_links_def empty_ds_def)
  then have "ds_rep ?t (absd (lp ?t) ?fl [] [] Lf)" unfolding ds_rep_def empty_ds_def
    by (intro exI [of _ ?fl] exI [of _ "rev (blocks q 32 33) @ rev (blocks (p + 1044) 32 95)"] exI [of _ "[]"] exI [of _ Lf])
      (simp add: empty_ds_def)
  then have "ds_rep ?t \<lparr>a_pq = [], a_rr = [], a_rp = [], a_free = NPROCLIST\<rparr>" by (simp add: absd_def)
  moreover have "initSchedDS k = Inr (bump_kmem b', ?t)"
    using m1 m2 l n(1) by (simp add: initSchedDS_def kbind_def empty_ds_def)
  ultimately show ?thesis using n(2) by blast
qed

section \<open>\<open>__moddi3\<close>\<close>

lemma s64_wrap: "s64 (x - 2 ^ 64) = s64 x"
proof -
  have "x - 2 ^ 64 + 2 ^ 63 = x + 2 ^ 63 - 2 ^ 64" by simp
  then show ?thesis unfolding s64_def by (simp only: minus_mod_self2)
qed

lemma moddi3_inner_spec:
  assumes "0 \<le> n" and "n < 2 ^ 63" and "0 < d2" and "d2 < 2 ^ 63" and "d dvd d2"
  shows "\<exists>r. moddi3_inner n d2 = Some r \<and> 0 \<le> r \<and> r \<le> n \<and> (d2 \<le> n \<longrightarrow> r < n) \<and> r mod d = n mod d"
  using assms
proof (induction "nat n" arbitrary: n d2 rule: less_induct)
  case less
  show ?case
  proof (cases "d2 \<le> n")
    case False
    then show ?thesis using less.prems by (subst moddi3_inner.simps) simp
  next
    case True
    let ?d = "if s64 (d2 + d2) > 0 then s64 (d2 + d2) else d2"
    have d: "0 < ?d" "?d < 2 ^ 63" "d dvd ?d"
    proof -
      have "s64 (d2 + d2) = d2 + d2" if "d2 + d2 < 2 ^ 63" using that less.prems by (intro s64_id) auto
      moreover have "s64 (d2 + d2) < 0" if "\<not> d2 + d2 < 2 ^ 63"
      proof -
        have "s64 (d2 + d2) = s64 (d2 + d2 - 2 ^ 64)" by (simp only: s64_wrap)
        also have "\<dots> = d2 + d2 - 2 ^ 64" using that less.prems by (intro s64_id) auto
        finally show ?thesis using less.prems by simp
      qed
      ultimately show "0 < ?d" "?d < 2 ^ 63" "d dvd ?d" using less.prems by force+
    qed
    have n: "s64 (n - d2) = n - d2" using less.prems True by (intro s64_id) auto
    have "nat (n - d2) < nat n" using less.prems True by simp
    from less.hyps [OF this _ _ d] less.prems True obtain r where
      r: "moddi3_inner (n - d2) ?d = Some r" "0 \<le> r" "r \<le> n - d2" "r mod d = (n - d2) mod d" by auto
    have "(n - d2) mod d = n mod d" 
      using less.prems(5) by (metis diff_zero dvd_imp_mod_0 mod_diff_right_eq)
    then show ?thesis using r n True less.prems(3) by (subst moddi3_inner.simps) auto
  qed
qed

lemma moddi3_outer_spec:
  assumes "0 \<le> n" and "n < 2 ^ 63" and "0 < d" and "d < 2 ^ 63"
  shows "moddi3_outer n d = Some (n mod d)"
  using assms
proof (induction "nat n" arbitrary: n rule: less_induct)
  case less
  from moddi3_inner_spec [OF less.prems dvd_refl] obtain r where
    r: "moddi3_inner n d = Some r" "0 \<le> r" "r \<le> n" "d \<le> n \<longrightarrow> r < n" "r mod d = n mod d" by blast
  show ?case
  proof (cases "r < d")
    case True
    then show ?thesis using r by (subst moddi3_outer.simps) simp
  next
    case False
    then have "nat r < nat n" using r less.prems by auto
    from less.hyps [OF this r(2)] r less.prems False show ?thesis by (subst moddi3_outer.simps) simp
  qed
qed

lemma moddi3_correct:
  assumes "- (2 ^ 63) < number" "number < 2 ^ 63" and "- (2 ^ 63) < divisor" "divisor < 2 ^ 63" and "divisor \<noteq> 0"
  shows "moddi3 number divisor = Inr (if number < 0 then - (\<bar>number\<bar> mod \<bar>divisor\<bar>) else number mod \<bar>divisor\<bar>)"
proof -
  have n: "(if number < 0 then s64 (- number) else number) = \<bar>number\<bar>" using assms by (auto simp: s64_id)
  have d: "(if divisor < 0 then s64 (- divisor) else divisor) = \<bar>divisor\<bar>" using assms by (auto simp: s64_id)
  have o: "moddi3_outer \<bar>number\<bar> \<bar>divisor\<bar> = Some (\<bar>number\<bar> mod \<bar>divisor\<bar>)"
    using assms by (intro moddi3_outer_spec) auto
  have "0 \<le> \<bar>number\<bar> mod \<bar>divisor\<bar>" "\<bar>number\<bar> mod \<bar>divisor\<bar> < \<bar>divisor\<bar>" using assms by simp_all
  then have "s64 (- (\<bar>number\<bar> mod \<bar>divisor\<bar>)) = - (\<bar>number\<bar> mod \<bar>divisor\<bar>)"
    using assms(3,4) by (intro s64_id) linarith+
  then show ?thesis using assms(5) n o
    by (cases "number < 0") (simp_all add: moddi3_def Let_def d)
qed

lemma moddi3_inner_diverges:
  assumes "moddi3_inner n d = Some y"
  shows "d = - (2 ^ 63) \<longrightarrow> - (2 ^ 63) \<le> n \<longrightarrow> n < 2 ^ 63 \<longrightarrow> False"
proof (rule moddi3_inner.raw_induct [OF _ assms, where P = "\<lambda>n d y. d = - (2 ^ 63) \<longrightarrow> - (2 ^ 63) \<le> n \<longrightarrow> n < 2 ^ 63 \<longrightarrow> False"])
  fix rec :: "int \<Rightarrow> int \<Rightarrow> int option" and n d y :: int
  assume rec: "\<And>n d y. rec n d = Some y \<Longrightarrow> d = - (2 ^ 63) \<longrightarrow> - (2 ^ 63) \<le> n \<longrightarrow> n < 2 ^ 63 \<longrightarrow> False"
    and body: "(if n \<ge> d then rec (s64 (n - d)) (if s64 (d + d) > 0 then s64 (d + d) else d) else Some n) = Some y"
  show "d = - (2 ^ 63) \<longrightarrow> - (2 ^ 63) \<le> n \<longrightarrow> n < 2 ^ 63 \<longrightarrow> False"
  proof (intro impI)
    assume d: "d = - (2 ^ 63)" and n: "- (2 ^ 63) \<le> n"
    have "s64 (d + d) = 0" using d by (simp add: s64_def)
    then have "rec (s64 (n - d)) d = Some y" using body n d by simp
    from rec [OF this] d s64_range [of "n - d"] show False by simp
  qed
qed

lemma moddi3_hangs:
  assumes "- (2 ^ 63) \<le> number" and "number < 2 ^ 63"
  shows "moddi3 number (- (2 ^ 63)) = Inl Hang"
proof -
  let ?n = "if number < 0 then s64 (- number) else number"
  have n: "- (2 ^ 63) \<le> ?n" "?n < 2 ^ 63" using assms s64_range [of "- number"] by auto
  have "s64 (2 ^ 63) = - (2 ^ 63)" by (simp add: s64_def)
  moreover have "moddi3_inner ?n (- (2 ^ 63)) = None"
    using moddi3_inner_diverges [of ?n "- (2 ^ 63)"] n by (cases "moddi3_inner ?n (- (2 ^ 63))") auto
  then have "moddi3_outer ?n (- (2 ^ 63)) = None" by (subst moddi3_outer.simps) simp
  ultimately show ?thesis by (simp add: moddi3_def Let_def kbind_def returns_def)
qed

end
