(* ===== verification/SchedSpec.thy ===== *)
theory SchedSpec
  imports SchedInit
begin

text \<open>
  The three interfaces of \<^verbatim>\<open>schedulinginterface.h\<close> as locales, what their clients
  may conclude from the contracts alone, and their interpretations on the heap model
  of \<^verbatim>\<open>ass1ds.cpp\<close>.
\<close>

section \<open>Repeated calls\<close>

fun put_all :: "(procp \<Rightarrow> 's \<Rightarrow> (bool \<times> 's) option) \<Rightarrow> procp list \<Rightarrow> 's \<Rightarrow> (bool list \<times> 's) option" where
  "put_all f [] s = Some ([], s)"
| "put_all f (p # ps) s =
     do { (ok, s1) \<leftarrow> f p s; (oks, s2) \<leftarrow> put_all f ps s1; Some (ok # oks, s2) }"

fun take_all :: "('s \<Rightarrow> (procp \<times> 's) option) \<Rightarrow> nat \<Rightarrow> 's \<Rightarrow> (procp list \<times> 's) option" where
  "take_all f 0 s = Some ([], s)"
| "take_all f (Suc n) s =
     do { (p, s1) \<leftarrow> f s; (ps, s2) \<leftarrow> take_all f n s1; Some (p # ps, s2) }"

section \<open>Stable insertion sorts\<close>

definition pq_inserts :: "(procp \<Rightarrow> int) \<Rightarrow> procp list \<Rightarrow> (int \<times> procp) list \<Rightarrow> (int \<times> procp) list" where
  "pq_inserts acc = fold (\<lambda>p. pq_insert (acc p) p)"

lemma pq_inserts_simps [simp]:
  "pq_inserts acc [] xs = xs" "pq_inserts acc (p # ps) xs = pq_inserts acc ps (pq_insert (acc p) p xs)"
  by (simp_all add: pq_inserts_def)

lemma pq_sorted_inserts: "pq_sorted xs \<Longrightarrow> pq_sorted (pq_inserts acc ps xs)"
  by (induction ps arbitrary: xs) (auto simp: pq_sorted_insert)

lemma set_pq_inserts: "set (pq_inserts acc ps xs) = (\<lambda>p. (acc p, p)) ` set ps \<union> set xs"
  by (induction ps arbitrary: xs) auto

lemma mset_pq_inserts: "mset (pq_inserts acc ps xs) = mset (map (\<lambda>p. (acc p, p)) ps) + mset xs"
  by (induction ps arbitrary: xs) auto

lemma filter_pq_insert:
  assumes "pq_sorted xs"
  shows "filter (\<lambda>e. fst e = j) (pq_insert k p xs) =
    filter (\<lambda>e. fst e = j) xs @ (if j = k then [(k, p)] else [])"
  using assms
proof (induction xs)
  case Nil
  then show ?case by (simp add: pq_insert_def)
next
  case (Cons e xs)
  then have s: "pq_sorted xs" "\<forall>e' \<in> set xs. fst e \<le> fst e'" by (auto simp: pq_sorted_def)
  show ?case
  proof (cases "fst e \<le> k")
    case True
    then have "pq_insert k p (e # xs) = e # pq_insert k p xs" by (simp add: pq_insert_def)
    then show ?thesis using Cons.IH [OF s(1)] by simp
  next
    case False
    then have "pq_insert k p (e # xs) = (k, p) # e # xs" by (simp add: pq_insert_def)
    moreover have "filter (\<lambda>e. fst e = k) (e # xs) = []"
      using s(2) False by (auto simp: filter_empty_conv)
    ultimately show ?thesis by auto
  qed
qed

lemma filter_pq_inserts:
  "pq_sorted xs \<Longrightarrow> filter (\<lambda>e. fst e = j) (pq_inserts acc ps xs) =
    filter (\<lambda>e. fst e = j) xs @ filter (\<lambda>e. fst e = j) (map (\<lambda>p. (acc p, p)) ps)"
  by (induction ps arbitrary: xs) (auto simp: pq_sorted_insert filter_pq_insert)

lemma pq_inserts_sort: "map snd (pq_inserts acc ps []) = sort_key acc ps"
proof -
  let ?E = "map (\<lambda>p. (acc p, p)) ps"
  have "sort_key fst ?E = pq_inserts acc ps []"
  proof (rule properties_for_sort_key)
    show "mset (pq_inserts acc ps []) = mset ?E" by (simp add: mset_pq_inserts)
    show "sorted (map fst (pq_inserts acc ps []))"
      using pq_sorted_inserts [of "[]" acc ps] by (simp add: pq_sorted_def)
    show "filter (\<lambda>x. fst k = fst x) (pq_inserts acc ps []) = filter (\<lambda>x. fst k = fst x) ?E"
      if "k \<in> set (pq_inserts acc ps [])" for k
      using filter_pq_inserts [of "[]" "fst k" acc ps] by (simp add: pq_sorted_def eq_commute [of "fst k"])
  qed
  moreover have "filter (\<lambda>x. acc y = acc x) (sort_key acc ps) = filter (\<lambda>x. acc y = acc x) ps" for y
    using sort_key_stable [of acc "acc y" ps] by (simp add: eq_commute)
  then have "sort_key fst ?E = map (\<lambda>p. (acc p, p)) (sort_key acc ps)"
    by (intro properties_for_sort_key) (auto simp: filter_map o_def)
  ultimately show ?thesis by (simp add: o_def flip: \<open>sort_key fst ?E = pq_inserts acc ps []\<close>)
qed

section \<open>The priority queue\<close>

locale priority_queue =
  fixes rep :: "'s \<Rightarrow> 'a \<Rightarrow> bool" and entries :: "'a \<Rightarrow> (int \<times> procp) list" and room :: "'a \<Rightarrow> nat"
    and is_empty :: "'s \<Rightarrow> bool"
    and put :: "(procp \<Rightarrow> int) \<Rightarrow> procp \<Rightarrow> 's \<Rightarrow> (bool \<times> 's) option"
    and min_acc :: "'s \<Rightarrow> int option option"
    and extract_min :: "'s \<Rightarrow> (procp \<times> 's) option"
  assumes entries_sorted: "rep s A \<Longrightarrow> pq_sorted (entries A)"
    and is_empty: "rep s A \<Longrightarrow> is_empty s \<longleftrightarrow> entries A = []"
    and put_ok: "rep s A \<Longrightarrow> 0 < room A \<Longrightarrow>
      \<exists>s' A'. put acc p s = Some (True, s') \<and> rep s' A' \<and>
        entries A' = pq_insert (acc p) p (entries A) \<and> room A' = room A - 1"
    and put_full: "rep s A \<Longrightarrow> room A = 0 \<Longrightarrow> \<exists>s'. put acc p s = Some (False, s') \<and> rep s' A"
    and min_acc: "rep s A \<Longrightarrow> min_acc s = Some (if entries A = [] then None else Some (fst (hd (entries A))))"
    and extract_ok: "rep s A \<Longrightarrow> entries A = (k, p) # xs \<Longrightarrow>
      \<exists>s' A'. extract_min s = Some (p, s') \<and> rep s' A' \<and> entries A' = xs \<and> room A' = Suc (room A)"
    and extract_empty: "rep s A \<Longrightarrow> entries A = [] \<Longrightarrow> extract_min s = Some (0, s)"
begin

lemma put_all_ok:
  "rep s A \<Longrightarrow> length ps \<le> room A \<Longrightarrow>
   \<exists>s' A'. put_all (put acc) ps s = Some (replicate (length ps) True, s') \<and> rep s' A' \<and>
     entries A' = pq_inserts acc ps (entries A) \<and> room A' = room A - length ps"
proof (induction ps arbitrary: s A)
  case (Cons p ps)
  from put_ok [OF Cons.prems(1), of acc p] Cons.prems(2) obtain s1 A1 where
    1: "put acc p s = Some (True, s1)" "rep s1 A1" "entries A1 = pq_insert (acc p) p (entries A)" "room A1 = room A - 1"
    by auto
  from Cons.IH [OF 1(2)] 1(3,4) Cons.prems(2) obtain s' A' where
    "put_all (put acc) ps s1 = Some (replicate (length ps) True, s')" "rep s' A'"
    "entries A' = pq_inserts acc ps (entries A1)" "room A' = room A1 - length ps" by fastforce
  with 1 show ?case by auto
qed auto

lemma take_all_ok:
  "rep s A \<Longrightarrow> n \<le> length (entries A) \<Longrightarrow>
   \<exists>s' A'. take_all extract_min n s = Some (map snd (take n (entries A)), s') \<and> rep s' A' \<and>
     entries A' = drop n (entries A) \<and> room A' = room A + n"
proof (induction n arbitrary: s A)
  case (Suc n)
  then obtain k p xs where e: "entries A = (k, p) # xs" by (cases "entries A") auto
  from extract_ok [OF Suc.prems(1) e] obtain s1 A1 where
    1: "extract_min s = Some (p, s1)" "rep s1 A1" "entries A1 = xs" "room A1 = Suc (room A)" by auto
  from Suc.IH [OF 1(2)] 1 Suc.prems(2) e obtain s' A' where
    "take_all extract_min n s1 = Some (map snd (take n xs), s')" "rep s' A'" "entries A' = drop n xs"
    "room A' = room A1 + n" by auto
  with 1 e show ?case by auto
qed auto

lemma put_then_drain:
  assumes "rep s A" and "entries A = []" and "length ps \<le> room A"
  shows "\<exists>s1 s2. put_all (put acc) ps s = Some (replicate (length ps) True, s1) \<and>
    take_all extract_min (length ps) s1 = Some (sort_key acc ps, s2)"
proof -
  from put_all_ok [OF assms(1,3), of acc] obtain s1 A1 where
    1: "put_all (put acc) ps s = Some (replicate (length ps) True, s1)" "rep s1 A1"
    "entries A1 = pq_inserts acc ps []" using assms(2) by auto
  have "length (pq_inserts acc ps []) = length ps"
    using arg_cong [OF mset_pq_inserts [of acc ps "[]"], of size] by simp
  with take_all_ok [OF 1(2), of "length ps"] 1(3) pq_inserts_sort [of acc ps] obtain s2 where
    "take_all extract_min (length ps) s1 = Some (sort_key acc ps, s2)" by auto
  with 1 show ?thesis by blast
qed

text \<open>A process waits exactly for the entries whose key is not larger than its own.\<close>

lemma wait_bound:
  assumes "rep s A" and "0 < room A"
  shows "\<exists>s1 s2. put acc p s = Some (True, s1) \<and>
    take_all extract_min (Suc (length (takeWhile (\<lambda>e. fst e \<le> acc p) (entries A)))) s1 =
      Some (map snd (takeWhile (\<lambda>e. fst e \<le> acc p) (entries A)) @ [p], s2)"
proof -
  let ?w = "takeWhile (\<lambda>e. fst e \<le> acc p) (entries A)"
  from put_ok [OF assms, of acc p] obtain s1 A1 where
    1: "put acc p s = Some (True, s1)" "rep s1 A1" "entries A1 = pq_insert (acc p) p (entries A)" by auto
  have "take (Suc (length ?w)) (entries A1) = ?w @ [(acc p, p)]" using 1(3) by (simp add: pq_insert_def)
  moreover have "Suc (length ?w) \<le> length (entries A1)" using 1(3) by (simp add: pq_insert_def)
  ultimately show ?thesis using 1 take_all_ok [OF 1(2), of "Suc (length ?w)"] by fastforce
qed

end

interpretation pq: priority_queue ds_rep a_pq a_free isEmptyPriorityQueue putPriorityQueue
  getMinAccumulatorPriorityQueue extractMinPriorityQueue
proof
  show "pq_sorted (a_pq A)" if "ds_rep s A" for s A by (rule ds_rep_sorted [OF that])
  show "isEmptyPriorityQueue s \<longleftrightarrow> a_pq A = []" if "ds_rep s A" for s A
    by (rule isEmptyPriorityQueue_ref [OF that])
  show "\<exists>s' A'. putPriorityQueue acc p s = Some (True, s') \<and> ds_rep s' A' \<and>
        a_pq A' = pq_insert (acc p) p (a_pq A) \<and> a_free A' = a_free A - 1"
    if "ds_rep s A" "0 < a_free A" for s A acc p using putPriorityQueue_ref [OF that] by fastforce
  show "\<exists>s'. putPriorityQueue acc p s = Some (False, s') \<and> ds_rep s' A"
    if "ds_rep s A" "a_free A = 0" for s A acc p using putPriorityQueue_full_ref [OF that] .
  show "getMinAccumulatorPriorityQueue s = Some (if a_pq A = [] then None else Some (fst (hd (a_pq A))))"
    if "ds_rep s A" for s A by (rule getMinAccumulatorPriorityQueue_ref [OF that])
  show "\<exists>s' A'. extractMinPriorityQueue s = Some (p, s') \<and> ds_rep s' A' \<and> a_pq A' = xs \<and> a_free A' = Suc (a_free A)"
    if "ds_rep s A" "a_pq A = (k, p) # xs" for s A k p xs
    using extractMinPriorityQueue_ref [OF that] by fastforce
  show "extractMinPriorityQueue s = Some (0, s)" if "ds_rep s A" "a_pq A = []" for s A
    by (rule extractMinPriorityQueue_empty_ref [OF that])
qed

section \<open>The round-robin queue\<close>

locale fifo_queue =
  fixes rep :: "'s \<Rightarrow> 'a \<Rightarrow> bool" and items :: "'a \<Rightarrow> procp list" and room :: "'a \<Rightarrow> nat"
    and is_empty :: "'s \<Rightarrow> bool"
    and enq :: "procp \<Rightarrow> 's \<Rightarrow> (bool \<times> 's) option" and deq :: "'s \<Rightarrow> procp \<times> 's"
  assumes is_empty: "rep s A \<Longrightarrow> is_empty s \<longleftrightarrow> items A = []"
    and enq_ok: "rep s A \<Longrightarrow> 0 < room A \<Longrightarrow>
      \<exists>s' A'. enq p s = Some (True, s') \<and> rep s' A' \<and> items A' = items A @ [p] \<and> room A' = room A - 1"
    and enq_full: "rep s A \<Longrightarrow> room A = 0 \<Longrightarrow> \<exists>s'. enq p s = Some (False, s') \<and> rep s' A"
    and deq_ok: "rep s A \<Longrightarrow> items A = p # ps \<Longrightarrow>
      \<exists>s' A'. deq s = (p, s') \<and> rep s' A' \<and> items A' = ps \<and> room A' = Suc (room A)"
    and deq_empty: "rep s A \<Longrightarrow> items A = [] \<Longrightarrow> deq s = (0, s)"
begin

lemma enq_all_ok:
  "rep s A \<Longrightarrow> length ps \<le> room A \<Longrightarrow>
   \<exists>s' A'. put_all enq ps s = Some (replicate (length ps) True, s') \<and> rep s' A' \<and>
     items A' = items A @ ps \<and> room A' = room A - length ps"
proof (induction ps arbitrary: s A)
  case (Cons p ps)
  from enq_ok [OF Cons.prems(1), of p] Cons.prems(2) obtain s1 A1 where
    1: "enq p s = Some (True, s1)" "rep s1 A1" "items A1 = items A @ [p]" "room A1 = room A - 1" by auto
  from Cons.IH [OF 1(2)] 1(3,4) Cons.prems(2) obtain s' A' where
    "put_all enq ps s1 = Some (replicate (length ps) True, s')" "rep s' A'"
    "items A' = items A1 @ ps" "room A' = room A1 - length ps" by fastforce
  with 1 show ?case by auto
qed auto

lemma deq_all_ok:
  "rep s A \<Longrightarrow> n \<le> length (items A) \<Longrightarrow>
   \<exists>s' A'. take_all (\<lambda>s. Some (deq s)) n s = Some (take n (items A), s') \<and> rep s' A' \<and>
     items A' = drop n (items A) \<and> room A' = room A + n"
proof (induction n arbitrary: s A)
  case (Suc n)
  then obtain p ps where e: "items A = p # ps" by (cases "items A") auto
  from deq_ok [OF Suc.prems(1) e] obtain s1 A1 where
    1: "deq s = (p, s1)" "rep s1 A1" "items A1 = ps" "room A1 = Suc (room A)" by auto
  from Suc.IH [OF 1(2)] 1 Suc.prems(2) e obtain s' A' where
    "take_all (\<lambda>s. Some (deq s)) n s1 = Some (take n ps, s')" "rep s' A'" "items A' = drop n ps"
    "room A' = room A1 + n" by auto
  with 1 e show ?case by auto
qed auto

lemma fifo_order:
  assumes "rep s A" and "length ps \<le> room A"
  shows "\<exists>s1 s2. put_all enq ps s = Some (replicate (length ps) True, s1) \<and>
    take_all (\<lambda>s. Some (deq s)) (length (items A) + length ps) s1 = Some (items A @ ps, s2)"
proof -
  from enq_all_ok [OF assms] obtain s1 A1 where
    1: "put_all enq ps s = Some (replicate (length ps) True, s1)" "rep s1 A1" "items A1 = items A @ ps" by auto
  with deq_all_ok [OF 1(2), of "length (items A) + length ps"] show ?thesis by fastforce
qed

end

interpretation rrq: fifo_queue ds_rep a_rr a_free isEmptyRoundRobinQueue enqueueRoundRobinQueue
  dequeueRoundRobinQueue
proof
  show "isEmptyRoundRobinQueue s \<longleftrightarrow> a_rr A = []" if "ds_rep s A" for s A
    by (rule isEmptyRoundRobinQueue_ref [OF that])
  show "\<exists>s' A'. enqueueRoundRobinQueue p s = Some (True, s') \<and> ds_rep s' A' \<and>
        a_rr A' = a_rr A @ [p] \<and> a_free A' = a_free A - 1"
    if "ds_rep s A" "0 < a_free A" for s A p using enqueueRoundRobinQueue_ref [OF that] by fastforce
  show "\<exists>s'. enqueueRoundRobinQueue p s = Some (False, s') \<and> ds_rep s' A"
    if "ds_rep s A" "a_free A = 0" for s A p using enqueueRoundRobinQueue_full_ref [OF that] that by blast
  show "\<exists>s' A'. dequeueRoundRobinQueue s = (p, s') \<and> ds_rep s' A' \<and> a_rr A' = ps \<and> a_free A' = Suc (a_free A)"
    if "ds_rep s A" "a_rr A = p # ps" for s A p ps using dequeueRoundRobinQueue_ref [OF that] by fastforce
  show "dequeueRoundRobinQueue s = (0, s)" if "ds_rep s A" "a_rr A = []" for s A
    by (rule dequeueRoundRobinQueue_empty_ref [OF that])
qed

section \<open>The running processes\<close>

locale process_holder =
  fixes rep :: "'s \<Rightarrow> 'a \<Rightarrow> bool" and held :: "'a \<Rightarrow> procp list" and room :: "'a \<Rightarrow> nat"
    and is_empty :: "'s \<Rightarrow> bool"
    and add :: "procp \<Rightarrow> 's \<Rightarrow> (bool \<times> 's) option" and rem :: "procp \<Rightarrow> 's \<Rightarrow> (bool \<times> 's) option"
    and min_acc :: "(procp \<Rightarrow> int) \<Rightarrow> 's \<Rightarrow> int option option"
  assumes is_empty: "rep s A \<Longrightarrow> is_empty s \<longleftrightarrow> held A = []"
    and add_ok: "rep s A \<Longrightarrow> 0 < room A \<Longrightarrow>
      \<exists>s' A'. add p s = Some (True, s') \<and> rep s' A' \<and> held A' = held A @ [p] \<and> room A' = room A - 1"
    and rem_ok: "rep s A \<Longrightarrow> p \<in> set (held A) \<Longrightarrow>
      \<exists>s' A'. rem p s = Some (True, s') \<and> rep s' A' \<and> held A' = remove1 p (held A) \<and> room A' = Suc (room A)"
    and rem_absent: "rep s A \<Longrightarrow> p \<notin> set (held A) \<Longrightarrow> rem p s = Some (False, s)"
    and min_acc: "rep s A \<Longrightarrow> min_acc acc s = Some (if held A = [] then None else Some (Min (acc ` set (held A))))"
begin

lemma add_rem:
  assumes "rep s A" and "0 < room A" and "p \<notin> set (held A)"
  shows "\<exists>s1 s2 A2. add p s = Some (True, s1) \<and> rem p s1 = Some (True, s2) \<and> rep s2 A2 \<and>
    held A2 = held A \<and> room A2 = room A"
proof -
  from add_ok [OF assms(1,2), of p] obtain s1 A1 where
    1: "add p s = Some (True, s1)" "rep s1 A1" "held A1 = held A @ [p]" "room A1 = room A - 1" by auto
  from rem_ok [OF 1(2), of p] 1(3) obtain s2 A2 where
    "rem p s1 = Some (True, s2)" "rep s2 A2" "held A2 = remove1 p (held A1)" "room A2 = Suc (room A1)" by auto
  with 1 assms(2,3) show ?thesis by (auto simp: remove1_append)
qed

end

interpretation rph: process_holder ds_rep a_rp a_free isEmptyRunningProcessHolder addRunningProcessHolder
  removeRunningProcessHolder getMinAccumulatorRunningProcessHolder
proof
  show "isEmptyRunningProcessHolder s \<longleftrightarrow> a_rp A = []" if "ds_rep s A" for s A
    by (rule isEmptyRunningProcessHolder_ref [OF that])
  show "\<exists>s' A'. addRunningProcessHolder p s = Some (True, s') \<and> ds_rep s' A' \<and>
        a_rp A' = a_rp A @ [p] \<and> a_free A' = a_free A - 1"
    if "ds_rep s A" "0 < a_free A" for s A p using addRunningProcessHolder_ref [OF that] by fastforce
  show "\<exists>s' A'. removeRunningProcessHolder p s = Some (True, s') \<and> ds_rep s' A' \<and>
        a_rp A' = remove1 p (a_rp A) \<and> a_free A' = Suc (a_free A)"
    if "ds_rep s A" "p \<in> set (a_rp A)" for s A p using removeRunningProcessHolder_ref [OF that] by fastforce
  show "removeRunningProcessHolder p s = Some (False, s)" if "ds_rep s A" "p \<notin> set (a_rp A)" for s A p
    by (rule removeRunningProcessHolder_absent_ref [OF that])
  show "getMinAccumulatorRunningProcessHolder acc s =
      Some (if a_rp A = [] then None else Some (Min (acc ` set (a_rp A))))" if "ds_rep s A" for s A acc
    by (rule getMinAccumulatorRunningProcessHolder_ref [OF that])
qed

end
