(* ===== verification/SchedEx.thy ===== *)
theory SchedEx
  imports SchedSpec
begin

text \<open>
  Small concrete states of the scheduler's structures: an empty one, one with an entry
  in every structure, and one per policy. They show that the hypotheses of the
  refinement theorems can hold and give them something to compute on.
\<close>

definition tiny_ds :: sched_ds where
  "tiny_ds = \<lparr>links = (\<lambda>_. new_link)(16 := \<lparr>link_p = 0, link_next = 8\<rparr>),
     nodes = (\<lambda>_. new_node 0)(64 := (new_node 0)\<lparr>node_next := 32\<rparr>),
     freeLinks = 16, freeNodes = 64, priorityQ = 0, roundRobinQ = empty_list, runningProcHolder = empty_list\<rparr>"

lemma tiny_ds_rep: "ds_rep tiny_ds \<lparr>a_pq = [], a_rr = [], a_rp = [], a_free = 2\<rparr>"
proof -
  have "ds_inv tiny_ds [16, 8] [64, 32] [] [] (priorityQ tiny_ds) Lf 0 Lf"
    by (simp add: ds_inv_def tiny_ds_def free_links_def free_nodes_def clear_node_def new_node_def new_link_def)
  then have "ds_rep tiny_ds (absd (lp tiny_ds) [16, 8] [] [] Lf)" unfolding ds_rep_def by blast
  moreover have "absd (lp tiny_ds) [16, 8] [] [] Lf = \<lparr>a_pq = [], a_rr = [], a_rp = [], a_free = 2\<rparr>" by (simp add: absd_def lp_def)
  ultimately show ?thesis by simp
qed

text \<open>Process 3 queued with key 5, process 1 in the round-robin queue, process 2 running, one link free.\<close>

definition busy_ds :: sched_ds where
  "busy_ds = \<lparr>links = (\<lambda>_. new_link)(16 := \<lparr>link_p = 3, link_next = 0\<rparr>, 24 := \<lparr>link_p = 1, link_next = 0\<rparr>,
       40 := \<lparr>link_p = 2, link_next = 0\<rparr>),
     nodes = (\<lambda>_. new_node 0)(64 := (new_node 5)\<lparr>node_procs := \<lparr>ll_first = 16, ll_last = 16\<rparr>\<rparr>,
       128 := (new_node 0)\<lparr>node_next := 192\<rparr>, 192 := (new_node 0)\<lparr>node_next := 256\<rparr>),
     freeLinks = 8, freeNodes = 128, priorityQ = 64,
     roundRobinQ = \<lparr>ll_first = 24, ll_last = 24\<rparr>, runningProcHolder = \<lparr>ll_first = 40, ll_last = 40\<rparr>\<rparr>"

lemma busy_ds_rep: "ds_rep busy_ds \<lparr>a_pq = [(5, 3)], a_rr = [1], a_rp = [2], a_free = 1\<rparr>"
proof -
  have "ds_inv busy_ds [8] [128, 192, 256] [24] [40] (priorityQ busy_ds) (Nd Lf 64 5 [16] Lf) 0 Lf"
    by (simp add: ds_inv_def busy_ds_def free_links_def free_nodes_def clear_node_def new_node_def new_link_def
        ll_rep_def empty_list_def)
  then have "ds_rep busy_ds (absd (lp busy_ds) [8] [24] [40] (Nd Lf 64 5 [16] Lf))" unfolding ds_rep_def by blast
  moreover have "absd (lp busy_ds) [8] [24] [40] (Nd Lf 64 5 [16] Lf) = \<lparr>a_pq = [(5, 3)], a_rr = [1], a_rp = [2], a_free = 1\<rparr>" by (simp add: absd_def lp_def busy_ds_def)
  ultimately show ?thesis by simp
qed

text \<open>As \<open>busy_ds\<close>, with the link of the round-robin queue free.\<close>

definition pq_ds :: sched_ds where
  "pq_ds = busy_ds\<lparr>links := (links busy_ds)(24 := \<lparr>link_p = 1, link_next = 8\<rparr>), freeLinks := 24,
     roundRobinQ := empty_list\<rparr>"

lemma pq_ds_rep: "ds_rep pq_ds \<lparr>a_pq = [(5, 3)], a_rr = [], a_rp = [2], a_free = 2\<rparr>"
proof -
  have "ds_inv pq_ds [24, 8] [128, 192, 256] [] [40] (priorityQ pq_ds) (Nd Lf 64 5 [16] Lf) 0 Lf"
    by (simp add: ds_inv_def pq_ds_def busy_ds_def free_links_def free_nodes_def clear_node_def new_node_def
        new_link_def ll_rep_def empty_list_def)
  then have "ds_rep pq_ds (absd (lp pq_ds) [24, 8] [] [40] (Nd Lf 64 5 [16] Lf))" unfolding ds_rep_def by blast
  moreover have "absd (lp pq_ds) [24, 8] [] [40] (Nd Lf 64 5 [16] Lf) = \<lparr>a_pq = [(5, 3)], a_rr = [], a_rp = [2], a_free = 2\<rparr>" by (simp add: absd_def lp_def pq_ds_def busy_ds_def)
  ultimately show ?thesis by simp
qed

text \<open>As \<open>busy_ds\<close>, with nothing in the priority queue.\<close>

definition rr_ds :: sched_ds where
  "rr_ds = busy_ds\<lparr>links := (links busy_ds)(16 := \<lparr>link_p = 3, link_next = 8\<rparr>), freeLinks := 16,
     nodes := (nodes busy_ds)(64 := (new_node 5)\<lparr>node_next := 128\<rparr>), freeNodes := 64, priorityQ := 0\<rparr>"

lemma rr_ds_rep: "ds_rep rr_ds \<lparr>a_pq = [], a_rr = [1], a_rp = [2], a_free = 2\<rparr>"
proof -
  have "ds_inv rr_ds [16, 8] [64, 128, 192, 256] [24] [40] (priorityQ rr_ds) Lf 0 Lf"
    by (simp add: ds_inv_def rr_ds_def busy_ds_def free_links_def free_nodes_def clear_node_def new_node_def
        new_link_def ll_rep_def empty_list_def)
  then have "ds_rep rr_ds (absd (lp rr_ds) [16, 8] [24] [40] Lf)" unfolding ds_rep_def by blast
  moreover have "absd (lp rr_ds) [16, 8] [24] [40] Lf = \<lparr>a_pq = [], a_rr = [1], a_rp = [2], a_free = 2\<rparr>" by (simp add: absd_def lp_def rr_ds_def busy_ds_def)
  ultimately show ?thesis by simp
qed

text \<open>Two free pages above a kernel that ends at 4 MB.\<close>

definition two_pages :: kmem where
  "two_pages = \<lparr>mem = (\<lambda>_. 0)(0x80400000 := 0x80401000), use_lock = False, freelist = 0x80400000\<rparr>"

lemma two_pages_free: "free_pages 0x80400000 two_pages [0x80400000, 0x80401000]"
  by (simp add: free_pages_def two_pages_def page_ok_def V2P_def)

end
