(* ===== verification/SchedProps.thy ===== *)
theory SchedProps
  imports SchedEx
begin

text \<open>The properties of the scheduler's structures, each with an application to a concrete state.\<close>

section \<open>The priority queue\<close>

text \<open>C1. Processes put into an empty priority queue come out of it as by a stable sort on
  their accumulators: every \<^verbatim>\<open>put\<close> succeeds while links are free, and
  \<^verbatim>\<open>extractMin\<close> returns the processes by increasing accumulator, first come first
  served among equals.\<close>

theorem put_then_drain_sorts:
  assumes "ds_rep s A" and "a_pq A = []" and "length ps \<le> a_free A"
  shows "\<exists>s1 s2. put_all (putPriorityQueue acc) ps s = Some (replicate (length ps) True, s1) \<and>
    take_all extractMinPriorityQueue (length ps) s1 = Some (sort_key acc ps, s2)"
  by (rule pq.put_then_drain [OF assms])

theorem put_then_drain_sorts_witness:
  "\<exists>s1 s2. put_all (putPriorityQueue (\<lambda>p. if p = 7 then 10 else 4)) [7, 9] tiny_ds = Some ([True, True], s1) \<and>
    take_all extractMinPriorityQueue 2 s1 = Some ([9, 7], s2)"
  using put_then_drain_sorts [OF tiny_ds_rep, of "[7, 9]" "\<lambda>p. if p = 7 then 10 else 4"]
  by (simp add: numeral_2_eq_2)

text \<open>C2. \<^verbatim>\<open>put\<close> refines insertion into a list sorted by accumulator, behind the entries
  that are not larger; it takes one link. Without a free link it returns false and the
  queue is unchanged.\<close>

theorem put_refines:
  assumes "ds_rep s A"
  shows "\<exists>s'. putPriorityQueue acc p s = Some (0 < a_free A, s') \<and>
    ds_rep s' (if 0 < a_free A then A\<lparr>a_pq := pq_insert (acc p) p (a_pq A), a_free := a_free A - 1\<rparr> else A)"
  using putPriorityQueue_ref [OF assms, of acc p] putPriorityQueue_full_ref [OF assms, of acc p]
  by (cases "a_free A = 0") simp_all

theorem put_refines_witness:
  "\<exists>s'. putPriorityQueue (\<lambda>_. 5) 4 busy_ds = Some (True, s') \<and>
    ds_rep s' \<lparr>a_pq = [(5, 3), (5, 4)], a_rr = [1], a_rp = [2], a_free = 0\<rparr>"
  using put_refines [OF busy_ds_rep, of "\<lambda>_. 5" 4] by (simp add: pq_insert_def)

text \<open>C3. \<^verbatim>\<open>extractMin\<close> removes and returns the first entry of that list, an entry with the
  least accumulator, and frees its link; on an empty queue it returns null.\<close>

theorem extractMin_refines:
  assumes "ds_rep s A"
  shows "\<exists>s'. extractMinPriorityQueue s = Some (if a_pq A = [] then 0 else snd (hd (a_pq A)), s') \<and>
    ds_rep s' (if a_pq A = [] then A else A\<lparr>a_pq := tl (a_pq A), a_free := Suc (a_free A)\<rparr>) \<and>
    (\<forall>e \<in> set (a_pq A). fst (hd (a_pq A)) \<le> fst e)"
proof (cases "a_pq A")
  case Nil
  then show ?thesis using extractMinPriorityQueue_empty_ref [OF assms Nil] assms by simp
next
  case (Cons e xs)
  obtain k p where e: "e = (k, p)" by (cases e) auto
  have "\<forall>e' \<in> set (a_pq A). fst (hd (a_pq A)) \<le> fst e'"
    using ds_rep_sorted [OF assms] Cons by (auto simp: pq_sorted_def)
  with extractMinPriorityQueue_ref [OF assms Cons [unfolded e]] Cons e show ?thesis by simp
qed

theorem extractMin_refines_witness:
  "\<exists>s'. extractMinPriorityQueue busy_ds = Some (3, s') \<and>
    ds_rep s' \<lparr>a_pq = [], a_rr = [1], a_rp = [2], a_free = 2\<rparr>"
  using extractMin_refines [OF busy_ds_rep] by (simp add: numeral_2_eq_2)

text \<open>C4. A process just put into the queue is extracted after exactly the entries whose key
  is not larger than its own: nothing put with a larger key overtakes it.\<close>

theorem wait_is_bounded:
  assumes "ds_rep s A" and "0 < a_free A"
  shows "\<exists>s1 s2. putPriorityQueue acc p s = Some (True, s1) \<and>
    take_all extractMinPriorityQueue (Suc (length (takeWhile (\<lambda>e. fst e \<le> acc p) (a_pq A)))) s1 =
      Some (map snd (takeWhile (\<lambda>e. fst e \<le> acc p) (a_pq A)) @ [p], s2)"
  by (rule pq.wait_bound [OF assms])

theorem wait_is_bounded_witness:
  "\<exists>s1 s2. putPriorityQueue (\<lambda>_. 6) 4 busy_ds = Some (True, s1) \<and>
    take_all extractMinPriorityQueue 2 s1 = Some ([3, 4], s2)"
  using wait_is_bounded [OF busy_ds_rep, of "\<lambda>_. 6" 4] by (simp add: numeral_2_eq_2)



section \<open>The round-robin queue and the running processes\<close>

text \<open>C6. The round-robin queue is first in, first out: what was in it and then what is
  enqueued comes out in that order, and \<^verbatim>\<open>enqueue\<close> succeeds while links are free.\<close>

theorem round_robin_is_fifo:
  assumes "ds_rep s A" and "length ps \<le> a_free A"
  shows "\<exists>s1 s2. put_all enqueueRoundRobinQueue ps s = Some (replicate (length ps) True, s1) \<and>
    take_all (\<lambda>s. Some (dequeueRoundRobinQueue s)) (length (a_rr A) + length ps) s1 = Some (a_rr A @ ps, s2)"
  by (rule rrq.fifo_order [OF assms])

theorem round_robin_is_fifo_witness:
  "\<exists>s1 s2. put_all enqueueRoundRobinQueue [4] busy_ds = Some ([True], s1) \<and>
    take_all (\<lambda>s. Some (dequeueRoundRobinQueue s)) 2 s1 = Some ([1, 4], s2)"
  using round_robin_is_fifo [OF busy_ds_rep, of "[4]"] by (simp add: numeral_2_eq_2)

text \<open>Adding a process to the running processes and removing it again restores the set and
  the free links; removing one that is not there returns false and changes nothing.\<close>

theorem running_add_remove:
  assumes "ds_rep s A" and "0 < a_free A" and "p \<notin> set (a_rp A)"
  shows "\<exists>s1 s2 A2. addRunningProcessHolder p s = Some (True, s1) \<and>
    removeRunningProcessHolder p s1 = Some (True, s2) \<and> ds_rep s2 A2 \<and> a_rp A2 = a_rp A \<and> a_free A2 = a_free A \<and>
    removeRunningProcessHolder p s2 = Some (False, s2)"
proof -
  from rph.add_rem [OF assms] obtain s1 s2 A2 where
    r: "addRunningProcessHolder p s = Some (True, s1)" "removeRunningProcessHolder p s1 = Some (True, s2)"
      "ds_rep s2 A2" "a_rp A2 = a_rp A" "a_free A2 = a_free A" by blast
  have "removeRunningProcessHolder p s2 = Some (False, s2)"
    by (rule rph.rem_absent [OF r(3)]) (use assms(3) r(4) in simp)
  with r show ?thesis by blast
qed

theorem running_add_remove_witness:
  "\<exists>s1 s2 A2. addRunningProcessHolder 4 busy_ds = Some (True, s1) \<and>
    removeRunningProcessHolder 4 s1 = Some (True, s2) \<and> ds_rep s2 A2 \<and> a_rp A2 = [2]"
  using running_add_remove [OF busy_ds_rep, of 4] by auto

section \<open>Switching policies\<close>

text \<open>C7. \<^verbatim>\<open>switchToRoundRobinPolicy\<close> moves the whole priority queue, in its order, into the
  empty round-robin queue, and is refused when that queue is not empty. Its loop ends,
  and the enqueueing whose result the code ignores never fails.\<close>

theorem switch_to_round_robin:
  assumes "ds_rep s A"
  shows "\<exists>s'. switchToRoundRobinPolicyPriorityQueue s = Some (a_rr A = [], s') \<and>
    ds_rep s' (if a_rr A = [] then A\<lparr>a_pq := [], a_rr := map snd (a_pq A)\<rparr> else A)"
  using assms switchToRoundRobinPolicy_ref [OF assms] switchToRoundRobinPolicy_refused [OF assms]
  by (cases "a_rr A = []") simp_all

theorem switch_to_round_robin_witness:
  "\<exists>s'. switchToRoundRobinPolicyPriorityQueue pq_ds = Some (True, s') \<and>
    ds_rep s' \<lparr>a_pq = [], a_rr = [3], a_rp = [2], a_free = 2\<rparr>"
  using switch_to_round_robin [OF pq_ds_rep] by simp

text \<open>C8. \<^verbatim>\<open>switchToPriorityQueuePolicy\<close> moves the round-robin queue, in its order, into the
  empty priority queue under the single key 0, whatever the accumulators are; no link is
  freed or taken. It is refused when the priority queue is not empty.\<close>

theorem switch_to_priority:
  assumes "ds_rep s A"
  shows "\<exists>s'. switchToPriorityQueuePolicyRoundRobinQueue s = (a_pq A = [], s') \<and>
    ds_rep s' (if a_pq A = [] then A\<lparr>a_pq := map (\<lambda>p. (0, p)) (a_rr A), a_rr := []\<rparr> else A)"
  using assms switchToPriorityQueuePolicy_ref [OF assms] switchToPriorityQueuePolicy_refused [OF assms]
  by (cases "a_pq A = []") simp_all

theorem switch_to_priority_witness:
  "\<exists>s'. switchToPriorityQueuePolicyRoundRobinQueue rr_ds = (True, s') \<and>
    ds_rep s' \<lparr>a_pq = [(0, 1)], a_rr = [], a_rp = [2], a_free = 2\<rparr>"
  using switch_to_priority [OF rr_ds_rep] by simp

section \<open>Initialisation and arithmetic\<close>

text \<open>C9. With two free pages \<^verbatim>\<open>initSchedDS\<close> succeeds, uses exactly these pages, and leaves
  empty structures with all 128 links free.\<close>

theorem initSchedDS_establishes:
  assumes "free_pages kend k (p # q # xs)"
  shows "\<exists>k' s. initSchedDS k = Inr (k', s) \<and> free_pages kend k' xs \<and>
    ds_rep s \<lparr>a_pq = [], a_rr = [], a_rp = [], a_free = NPROCLIST\<rparr>"
  by (rule initSchedDS_ok [OF assms])

theorem initSchedDS_establishes_witness:
  "\<exists>k' s. initSchedDS two_pages = Inr (k', s) \<and> free_pages 0x80400000 k' [] \<and>
    ds_rep s \<lparr>a_pq = [], a_rr = [], a_rp = [], a_free = 128\<rparr>"
  using initSchedDS_establishes [OF two_pages_free] .

text \<open>\<^verbatim>\<open>__moddi3\<close> returns the remainder of C: on all 64-bit arguments but the least
  number it ends with the remainder of the absolute values, with the sign of the dividend.\<close>

theorem moddi3_remainder:
  assumes "- (2 ^ 63) < number" "number < 2 ^ 63" and "- (2 ^ 63) < divisor" "divisor < 2 ^ 63" and "divisor \<noteq> 0"
  shows "moddi3 number divisor = Inr (if number < 0 then - (\<bar>number\<bar> mod \<bar>divisor\<bar>) else number mod \<bar>divisor\<bar>)"
  by (rule moddi3_correct [OF assms])

theorem moddi3_remainder_witness: "moddi3 (- 17) 5 = Inr (- 2)"
  using moddi3_remainder [of "- 17" 5] by simp

text \<open>With the least 64-bit number as its divisor \<^verbatim>\<open>__moddi3\<close> never returns: negating
  the divisor overflows to itself and the subtraction loop runs for ever.\<close>

theorem moddi3_least_divisor:
  assumes "- (2 ^ 63) \<le> number" and "number < 2 ^ 63"
  shows "moddi3 number (- (2 ^ 63)) = Inl Hang"
  by (rule moddi3_hangs [OF assms])

theorem moddi3_least_divisor_witness: "moddi3 1 (- (2 ^ 63)) = Inl Hang"
  using moddi3_least_divisor [of 1] by simp

end
