(* ===== verification/Spinlock.thy ===== *)
theory Spinlock
  imports Kprelude
begin

text \<open>
  Spin locks and interrupt nesting (\<^verbatim>\<open>spinlock.c\<close>, with \<^verbatim>\<open>mycpu\<close>,
  \<^verbatim>\<open>cpuid\<close> and \<^verbatim>\<open>struct cpu\<close> from \<^verbatim>\<open>proc.c\<close> and \<^verbatim>\<open>proc.h\<close>). Every
  operation takes the index \<open>c\<close> of the CPU that executes it. The flag register and
  the local APIC id are hardware registers of that CPU and are fields of its record.
  A call that would spin for ever with interrupts off returns \<open>Spin\<close>; the call
  stack a lock records for debugging is left out.
\<close>

type_synonym lockp = nat

section \<open>State\<close>

text \<open>\<open>lcpu\<close> is the pointer \<^verbatim>\<open>lk->cpu\<close>: 0, or \<open>Suc i\<close> for \<^verbatim>\<open>&cpus[i]\<close>.\<close>

record spinlock =
  locked :: bool
  lname :: string
  lcpu :: nat

record cpu =
  apicid :: byte
  ncli :: int
  intena :: bool
  cproc :: procp
  eflags_IF :: bool
  lapicid :: byte

record mach =
  cpus :: "nat \<Rightarrow> cpu"
  ncpu :: nat
  locks :: "lockp \<Rightarrow> spinlock"

definition set_cpu :: "nat \<Rightarrow> (cpu \<Rightarrow> cpu) \<Rightarrow> 'a mach_scheme \<Rightarrow> 'a mach_scheme" where
  "set_cpu c f m = m\<lparr>cpus := (cpus m)(c := f (cpus m c))\<rparr>"

definition set_lock :: "lockp \<Rightarrow> (spinlock \<Rightarrow> spinlock) \<Rightarrow> 'a mach_scheme \<Rightarrow> 'a mach_scheme" where
  "set_lock l f m = m\<lparr>locks := (locks m)(l := f (locks m l))\<rparr>"

section \<open>The executing CPU\<close>

definition mycpu :: "nat \<Rightarrow> 'a mach_scheme \<Rightarrow> nat kres" where
  "mycpu c m =
     (if eflags_IF (cpus m c) then Inl (Panic (''mycpu called with interrupts enabled'' @ [CHR 0x0A]))
      else case find (\<lambda>i. apicid (cpus m i) = lapicid (cpus m c)) [0..<ncpu m] of
             Some i \<Rightarrow> Inr i
           | None \<Rightarrow> Inl (Panic (''unknown apicid'' @ [CHR 0x0A])))"

definition cpuid :: "nat \<Rightarrow> 'a mach_scheme \<Rightarrow> nat kres" where
  "cpuid c m = mycpu c m"

definition cli :: "nat \<Rightarrow> 'a mach_scheme \<Rightarrow> 'a mach_scheme" where
  "cli c = set_cpu c (\<lambda>x. x\<lparr>eflags_IF := False\<rparr>)"

definition sti :: "nat \<Rightarrow> 'a mach_scheme \<Rightarrow> 'a mach_scheme" where
  "sti c = set_cpu c (\<lambda>x. x\<lparr>eflags_IF := True\<rparr>)"

definition pushcli :: "nat \<Rightarrow> 'a mach_scheme \<Rightarrow> 'a mach_scheme kres" where
  "pushcli c m =
     (let eflags = eflags_IF (cpus m c); m1 = cli c m
      in kbind (mycpu c m1) (\<lambda>i.
         let m2 = (if ncli (cpus m1 i) = 0 then set_cpu i (\<lambda>x. x\<lparr>intena := eflags\<rparr>) m1 else m1)
         in Inr (set_cpu i (\<lambda>x. x\<lparr>ncli := ncli x + 1\<rparr>) m2)))"

definition popcli :: "nat \<Rightarrow> 'a mach_scheme \<Rightarrow> 'a mach_scheme kres" where
  "popcli c m =
     (if eflags_IF (cpus m c) then Inl (Panic ''popcli - interruptible'')
      else kbind (mycpu c m) (\<lambda>i.
        let m1 = set_cpu i (\<lambda>x. x\<lparr>ncli := ncli x - 1\<rparr>) m
        in if ncli (cpus m1 i) < 0 then Inl (Panic ''popcli'')
           else if ncli (cpus m1 i) = 0 \<and> intena (cpus m1 i) then Inr (sti c m1)
           else Inr m1))"

section \<open>Locks\<close>

definition initlock :: "lockp \<Rightarrow> string \<Rightarrow> 'a mach_scheme \<Rightarrow> 'a mach_scheme" where
  "initlock l name = set_lock l (\<lambda>_. \<lparr>locked = False, lname = name, lcpu = 0\<rparr>)"

definition holding :: "nat \<Rightarrow> lockp \<Rightarrow> 'a mach_scheme \<Rightarrow> (bool \<times> 'a mach_scheme) kres" where
  "holding c l m =
     kbind (pushcli c m) (\<lambda>m1.
     kbind (mycpu c m1) (\<lambda>i.
       let r = (locked (locks m1 l) \<and> lcpu (locks m1 l) = Suc i)
       in kbind (popcli c m1) (\<lambda>m2. Inr (r, m2))))"

definition acquire :: "nat \<Rightarrow> lockp \<Rightarrow> 'a mach_scheme \<Rightarrow> 'a mach_scheme kres" where
  "acquire c l m =
     kbind (pushcli c m) (\<lambda>m1.
     kbind (holding c l m1) (\<lambda>(h, m2).
       if h then Inl (Panic ''acquire'')
       else if locked (locks m2 l) then Inl Spin
       else let m3 = set_lock l (\<lambda>x. x\<lparr>locked := True\<rparr>) m2
            in kbind (mycpu c m3) (\<lambda>i. Inr (set_lock l (\<lambda>x. x\<lparr>lcpu := Suc i\<rparr>) m3))))"

definition release :: "nat \<Rightarrow> lockp \<Rightarrow> 'a mach_scheme \<Rightarrow> 'a mach_scheme kres" where
  "release c l m =
     kbind (holding c l m) (\<lambda>(h, m1).
       if \<not> h then Inl (Panic ''release'')
       else popcli c (set_lock l (\<lambda>x. x\<lparr>lcpu := 0, locked := False\<rparr>) m1))"

definition myproc :: "nat \<Rightarrow> 'a mach_scheme \<Rightarrow> (procp \<times> 'a mach_scheme) kres" where
  "myproc c m =
     kbind (pushcli c m) (\<lambda>m1.
     kbind (mycpu c m1) (\<lambda>i.
       let p = cproc (cpus m1 i)
       in kbind (popcli c m1) (\<lambda>m2. Inr (p, m2))))"

section \<open>Well-formed machines\<close>

text \<open>
  The table of CPUs lists the APIC ids of the machine, without repetition, and no
  nesting depth is negative; while a CPU is nested, its interrupts are off.
\<close>

definition wf_mach :: "'a mach_scheme \<Rightarrow> bool" where
  "wf_mach m \<longleftrightarrow>
     (\<forall>i < ncpu m. lapicid (cpus m i) = apicid (cpus m i)) \<and>
     (\<forall>i < ncpu m. \<forall>j < ncpu m. apicid (cpus m i) = apicid (cpus m j) \<longrightarrow> i = j) \<and>
     (\<forall>i < ncpu m. 0 \<le> ncli (cpus m i) \<and> (0 < ncli (cpus m i) \<longrightarrow> \<not> eflags_IF (cpus m i)))"

lemma set_cpu_simps [simp]:
  "cpus (set_cpu c f m) = (cpus m)(c := f (cpus m c))" "ncpu (set_cpu c f m) = ncpu m"
  "locks (set_cpu c f m) = locks m" "mach.more (set_cpu c f m) = mach.more m"
  by (simp_all add: set_cpu_def)

lemma set_lock_simps [simp]:
  "cpus (set_lock l f m) = cpus m" "ncpu (set_lock l f m) = ncpu m"
  "locks (set_lock l f m) = (locks m)(l := f (locks m l))" "mach.more (set_lock l f m) = mach.more m"
  by (simp_all add: set_lock_def)

lemma find_first:
  assumes "c < n" and "P c" and "\<And>i. i < n \<Longrightarrow> P i \<Longrightarrow> i = c"
  shows "find P [0..<n] = Some c"
proof -
  have "\<exists>i. find P [0..<n] = Some i" using assms(1,2) by (cases "find P [0..<n]") (auto simp: find_None_iff)
  then show ?thesis using assms(3) by (auto simp: find_Some_iff)
qed

lemma mycpu_self:
  assumes "wf_mach m" and "c < ncpu m" and "\<not> eflags_IF (cpus m c)"
  shows "mycpu c m = Inr c"
proof -
  have "find (\<lambda>i. apicid (cpus m i) = lapicid (cpus m c)) [0..<ncpu m] = Some c"
    using assms by (intro find_first) (auto simp: wf_mach_def)
  then show ?thesis using assms(3) by (simp add: mycpu_def)
qed

text \<open>The state after \<open>pushcli\<close>, when the machine is well-formed.\<close>

definition pushed :: "nat \<Rightarrow> 'a mach_scheme \<Rightarrow> 'a mach_scheme" where
  "pushed c = set_cpu c (\<lambda>x. x\<lparr>intena := (if ncli x = 0 then eflags_IF x else intena x),
                              ncli := ncli x + 1, eflags_IF := False\<rparr>)"

definition popped :: "nat \<Rightarrow> 'a mach_scheme \<Rightarrow> 'a mach_scheme" where
  "popped c = set_cpu c (\<lambda>x. x\<lparr>ncli := ncli x - 1, eflags_IF := (ncli x = 1 \<and> intena x)\<rparr>)"

lemma wf_set_cpu:
  assumes "wf_mach m" and "\<And>x. apicid (f x) = apicid x" "\<And>x. lapicid (f x) = lapicid x"
    and "0 \<le> ncli (f (cpus m c))" "0 < ncli (f (cpus m c)) \<Longrightarrow> \<not> eflags_IF (f (cpus m c))"
  shows "wf_mach (set_cpu c f m)"
proof -
  have "apicid (cpus (set_cpu c f m) i) = apicid (cpus m i)" "lapicid (cpus (set_cpu c f m) i) = lapicid (cpus m i)" for i
    using assms(2,3) by simp_all
  moreover have "0 \<le> ncli (cpus (set_cpu c f m) i) \<and> (0 < ncli (cpus (set_cpu c f m) i) \<longrightarrow> \<not> eflags_IF (cpus (set_cpu c f m) i))"
    if "i < ncpu m" for i
    using assms(1,4,5) that by (cases "i = c") (simp_all add: wf_mach_def)
  ultimately show ?thesis using assms(1) by (simp add: wf_mach_def del: set_cpu_simps(1))
qed

lemma pushcli_eq:
  assumes "wf_mach m" and "c < ncpu m"
  shows "pushcli c m = Inr (pushed c m)" "wf_mach (pushed c m)"
proof -
  have "wf_mach (cli c m)" unfolding cli_def
    using assms by (intro wf_set_cpu) (auto simp: wf_mach_def)
  then have "mycpu c (cli c m) = Inr c" using assms(2) by (intro mycpu_self) (simp_all add: cli_def)
  then show "pushcli c m = Inr (pushed c m)"
    by (cases "cpus m c") (simp add: pushcli_def pushed_def cli_def Let_def set_cpu_def)
  show "wf_mach (pushed c m)" unfolding pushed_def
    using assms by (intro wf_set_cpu) (auto simp: wf_mach_def)
qed

lemma popcli_eq:
  assumes "wf_mach m" and "c < ncpu m" and "0 < ncli (cpus m c)"
  shows "popcli c m = Inr (popped c m)" "wf_mach (popped c m)"
proof -
  have off: "\<not> eflags_IF (cpus m c)" using assms by (auto simp: wf_mach_def)
  then have "mycpu c m = Inr c" using assms by (intro mycpu_self)
  then show "popcli c m = Inr (popped c m)"
    using off assms(3)
    by (cases "cpus m c") (auto simp: popcli_def popped_def sti_def Let_def set_cpu_def)
  show "wf_mach (popped c m)" unfolding popped_def
    using assms off by (intro wf_set_cpu) (auto simp: wf_mach_def)
qed

text \<open>A push undone by a pop only leaves the saved flag up to date.\<close>

definition noted :: "nat \<Rightarrow> 'a mach_scheme \<Rightarrow> 'a mach_scheme" where
  "noted c = set_cpu c (\<lambda>x. x\<lparr>intena := (if ncli x = 0 then eflags_IF x else intena x)\<rparr>)"

lemma set_cpu_set_cpu: "set_cpu c f (set_cpu c g m) = set_cpu c (\<lambda>x. f (g x)) m"
  by (simp add: set_cpu_def)

lemma popped_pushed:
  assumes "wf_mach m" and "c < ncpu m"
  shows "popped c (pushed c m) = noted c m"
proof -
  have "0 \<le> ncli (cpus m c)" "0 < ncli (cpus m c) \<Longrightarrow> \<not> eflags_IF (cpus m c)"
    using assms by (auto simp: wf_mach_def)
  then show ?thesis
    by (cases "cpus m c") (auto simp: popped_def pushed_def noted_def set_cpu_set_cpu set_cpu_def)
qed

lemma noted_nested [simp]: "0 < ncli (cpus m c) \<Longrightarrow> noted c m = m"
  by (simp add: noted_def set_cpu_def fun_upd_idem)

lemma wf_noted:
  assumes "wf_mach m" and "c < ncpu m"
  shows "wf_mach (noted c m)"
  unfolding noted_def using assms by (intro wf_set_cpu) (auto simp: wf_mach_def)

lemma noted_simps [simp]:
  "ncpu (noted c m) = ncpu m" "locks (noted c m) = locks m" "mach.more (noted c m) = mach.more m"
  "ncli (cpus (noted c m) i) = ncli (cpus m i)" "eflags_IF (cpus (noted c m) i) = eflags_IF (cpus m i)"
  "cproc (cpus (noted c m) i) = cproc (cpus m i)"
  by (simp_all add: noted_def)

lemma pushed_simps [simp]:
  "ncpu (pushed c m) = ncpu m" "locks (pushed c m) = locks m" "mach.more (pushed c m) = mach.more m"
  "ncli (cpus (pushed c m) i) = ncli (cpus m i) + (if i = c then 1 else 0)"
  "eflags_IF (cpus (pushed c m) i) = (i \<noteq> c \<and> eflags_IF (cpus m i))"
  "cproc (cpus (pushed c m) i) = cproc (cpus m i)"
  by (simp_all add: pushed_def)

lemma popped_simps [simp]:
  "ncpu (popped c m) = ncpu m" "locks (popped c m) = locks m" "mach.more (popped c m) = mach.more m"
  "ncli (cpus (popped c m) i) = ncli (cpus m i) - (if i = c then 1 else 0)"
  "cproc (cpus (popped c m) i) = cproc (cpus m i)"
  by (simp_all add: popped_def)

lemma wf_set_lock [simp]: "wf_mach (set_lock l f m) = wf_mach m"
  by (simp add: wf_mach_def)

lemma ncli_nonneg: "wf_mach m \<Longrightarrow> c < ncpu m \<Longrightarrow> 0 \<le> ncli (cpus m c)"
  by (auto simp: wf_mach_def)

lemma holding_eq:
  assumes "wf_mach m" and "c < ncpu m"
  shows "holding c l m = Inr (locked (locks m l) \<and> lcpu (locks m l) = Suc c, noted c m)"
proof -
  note p = pushcli_eq [OF assms]
  have "mycpu c (pushed c m) = Inr c" using p(2) assms(2) by (intro mycpu_self) simp_all
  moreover have "popcli c (pushed c m) = Inr (noted c m)"
    using popcli_eq(1) [OF p(2), of c] assms ncli_nonneg [OF assms] popped_pushed [OF assms] by simp
  ultimately show ?thesis using p(1) by (simp add: holding_def)
qed

lemma myproc_eq:
  assumes "wf_mach m" and "c < ncpu m"
  shows "myproc c m = Inr (cproc (cpus m c), noted c m)"
proof -
  note p = pushcli_eq [OF assms]
  have "mycpu c (pushed c m) = Inr c" using p(2) assms(2) by (intro mycpu_self) simp_all
  moreover have "popcli c (pushed c m) = Inr (noted c m)"
    using popcli_eq(1) [OF p(2), of c] assms ncli_nonneg [OF assms] popped_pushed [OF assms] by simp
  ultimately show ?thesis using p(1) by (simp add: myproc_def)
qed

definition taken :: "nat \<Rightarrow> lockp \<Rightarrow> 'a mach_scheme \<Rightarrow> 'a mach_scheme" where
  "taken c l m = set_lock l (\<lambda>x. x\<lparr>locked := True, lcpu := Suc c\<rparr>) (pushed c m)"

definition freed :: "nat \<Rightarrow> lockp \<Rightarrow> 'a mach_scheme \<Rightarrow> 'a mach_scheme" where
  "freed c l m = popped c (set_lock l (\<lambda>x. x\<lparr>lcpu := 0, locked := False\<rparr>) m)"

lemma acquire_cases:
  assumes "wf_mach m" and "c < ncpu m"
  shows "acquire c l m =
    (if locked (locks m l) then if lcpu (locks m l) = Suc c then Inl (Panic ''acquire'') else Inl Spin
     else Inr (taken c l m))"
proof -
  note p = pushcli_eq [OF assms]
  have "0 < ncli (cpus (pushed c m) c)" using ncli_nonneg [OF assms] by simp
  then have h: "holding c l (pushed c m) = Inr (locked (locks m l) \<and> lcpu (locks m l) = Suc c, pushed c m)"
    using holding_eq [OF p(2), of c l] assms(2) by simp
  have "mycpu c (set_lock l (\<lambda>x. x\<lparr>locked := True\<rparr>) (pushed c m)) = Inr c"
    using p(2) assms(2) by (intro mycpu_self) simp_all
  then show ?thesis using p(1) h
    by (simp add: acquire_def taken_def Let_def set_lock_def)
qed

lemma wf_taken: "wf_mach m \<Longrightarrow> c < ncpu m \<Longrightarrow> wf_mach (taken c l m)"
  by (simp add: taken_def pushcli_eq)

lemma release_cases:
  assumes "wf_mach m" and "c < ncpu m" and "0 < ncli (cpus m c)"
  shows "release c l m =
    (if locked (locks m l) \<and> lcpu (locks m l) = Suc c then Inr (freed c l m) else Inl (Panic ''release''))"
  using holding_eq [OF assms(1,2), of l] popcli_eq(1) [of "set_lock l (\<lambda>x. x\<lparr>lcpu := 0, locked := False\<rparr>) m" c] assms
  by (simp add: release_def freed_def)

lemma wf_freed: "wf_mach m \<Longrightarrow> c < ncpu m \<Longrightarrow> 0 < ncli (cpus m c) \<Longrightarrow> wf_mach (freed c l m)"
  by (simp add: freed_def popcli_eq)

lemma taken_simps [simp]:
  "ncpu (taken c l m) = ncpu m" "mach.more (taken c l m) = mach.more m"
  "locks (taken c l m) = (locks m)(l := (locks m l)\<lparr>locked := True, lcpu := Suc c\<rparr>)"
  "ncli (cpus (taken c l m) i) = ncli (cpus m i) + (if i = c then 1 else 0)"
  "eflags_IF (cpus (taken c l m) i) = (i \<noteq> c \<and> eflags_IF (cpus m i))"
  "cproc (cpus (taken c l m) i) = cproc (cpus m i)"
  by (simp_all add: taken_def)

lemma freed_simps [simp]:
  "ncpu (freed c l m) = ncpu m" "mach.more (freed c l m) = mach.more m"
  "locks (freed c l m) = (locks m)(l := (locks m l)\<lparr>lcpu := 0, locked := False\<rparr>)"
  "ncli (cpus (freed c l m) i) = ncli (cpus m i) - (if i = c then 1 else 0)"
  "cproc (cpus (freed c l m) i) = cproc (cpus m i)"
  by (simp_all add: freed_def)

section \<open>Mutual exclusion and balance\<close>

lemma acquire_excludes:
  assumes "wf_mach m" and "c < ncpu m" and "c' < ncpu m" and "acquire c l m = Inr m'"
  shows "acquire c' l m' = Inl (if c' = c then Panic ''acquire'' else Spin)"
proof -
  have m': "m' = taken c l m" using assms acquire_cases [OF assms(1,2), of l] by (auto split: if_splits)
  then show ?thesis using acquire_cases [of m' c' l] wf_taken [OF assms(1,2), of l] assms(3) by auto
qed

lemma release_only_by_holder:
  assumes "wf_mach m" and "c < ncpu m" and "c' < ncpu m" and "acquire c l m = Inr m'" and "c' \<noteq> c"
  shows "release c' l m' = Inl (Panic ''release'')"
proof -
  have m': "m' = taken c l m" using assms acquire_cases [OF assms(1,2), of l] by (auto split: if_splits)
  have "holding c' l m' = Inr (False, noted c' m')"
    using holding_eq [of m' c' l] wf_taken [OF assms(1,2), of l] assms m' by simp
  then show ?thesis by (simp add: release_def)
qed

lemma acquire_release:
  assumes "wf_mach m" and "c < ncpu m" and "\<not> locked (locks m l)"
  shows "\<exists>m1. acquire c l m = Inr m1 \<and> release c l m1 = Inr (set_lock l (\<lambda>x. x\<lparr>lcpu := 0\<rparr>) (noted c m))"
proof -
  have a: "acquire c l m = Inr (taken c l m)" using acquire_cases [OF assms(1,2)] assms(3) by simp
  have "release c l (taken c l m) = Inr (freed c l (taken c l m))"
    using release_cases [OF wf_taken [OF assms(1,2), of l], of c] assms(2) ncli_nonneg [OF assms(1,2)] by simp
  moreover have "freed c l (taken c l m) = set_lock l (\<lambda>x. x\<lparr>lcpu := 0\<rparr>) (popped c (pushed c m))"
    using assms(3) by (cases "locks m l") (simp add: freed_def taken_def popped_def set_cpu_def set_lock_def)
  ultimately show ?thesis using a popped_pushed [OF assms(1,2)] by simp
qed

end
