(* ===== verification/VM.thy ===== *)
theory VM
  imports Kalloc
begin

text \<open>
  Page tables (\<^verbatim>\<open>vm.c\<close> and the page macros of \<^verbatim>\<open>mmu.h\<close>). A page directory is
  the kernel address of its page in the store of \<open>kmem\<close>; entries are words of the
  store, so that walking, mapping, copying and freeing act on the same memory the
  allocator keeps its free list in. The linker symbols \<^verbatim>\<open>end\<close> and \<^verbatim>\<open>data\<close> are
  the arguments \<open>kend\<close> and \<open>kdata\<close>. Copies are of whole aligned pages; the
  byte-wise \<^verbatim>\<open>copyout\<close> and the hardware side of \<^verbatim>\<open>seginit\<close>,
  \<^verbatim>\<open>switchuvm\<close> and \<^verbatim>\<open>switchkvm\<close> (descriptor tables, \<^verbatim>\<open>cr3\<close>) are not part of
  this theory.
\<close>

section \<open>Entries\<close>

abbreviation PTE_P :: u32 where "PTE_P \<equiv> 1"
abbreviation PTE_W :: u32 where "PTE_W \<equiv> 2"
abbreviation PTE_U :: u32 where "PTE_U \<equiv> 4"
abbreviation EXTMEM :: u32 where "EXTMEM \<equiv> 0x100000"
abbreviation DEVSPACE :: u32 where "DEVSPACE \<equiv> 0xFE000000"
abbreviation KERNLINK :: u32 where "KERNLINK \<equiv> 0x80100000"

definition PDX :: "addr \<Rightarrow> u32" where
  "PDX va = drop_bit 22 va AND 0x3FF"

definition PTX :: "addr \<Rightarrow> u32" where
  "PTX va = drop_bit 12 va AND 0x3FF"

definition PGADDR :: "u32 \<Rightarrow> u32 \<Rightarrow> u32 \<Rightarrow> addr" where
  "PGADDR d t off = push_bit 22 d OR push_bit 12 t OR off"

definition PTE_ADDR :: "u32 \<Rightarrow> u32" where
  "PTE_ADDR pte = pte AND NOT 0xFFF"

definition PTE_FLAGS :: "u32 \<Rightarrow> u32" where
  "PTE_FLAGS pte = pte AND 0xFFF"

definition present :: "u32 \<Rightarrow> bool" where
  "present pte \<longleftrightarrow> pte AND PTE_P \<noteq> 0"

section \<open>Walking and mapping\<close>

definition set_mem :: "addr \<Rightarrow> u32 \<Rightarrow> kmem \<Rightarrow> kmem" where
  "set_mem a v s = s\<lparr>mem := (mem s)(a := v)\<rparr>"

definition zero_page :: "addr \<Rightarrow> kmem \<Rightarrow> kmem" where
  "zero_page a s = s\<lparr>mem := memset_words (mem s) a 0 PGSIZE\<rparr>"

definition copy_page :: "addr \<Rightarrow> addr \<Rightarrow> kmem \<Rightarrow> kmem" where
  "copy_page dst src s = s\<lparr>mem := (\<lambda>x. if x - dst < PGSIZE then mem s (src + (x - dst)) else mem s x)\<rparr>"

definition walkpgdir :: "addr \<Rightarrow> addr \<Rightarrow> bool \<Rightarrow> kmem \<Rightarrow> addr \<times> kmem" where
  "walkpgdir pgdir va alloc s =
     (let pde = pgdir + 4 * PDX va
      in if present (mem s pde) then (P2V (PTE_ADDR (mem s pde)) + 4 * PTX va, s)
         else if \<not> alloc then (0, s)
         else let (pgtab, s1) = kalloc s
              in if pgtab = 0 then (0, s1)
                 else (pgtab + 4 * PTX va,
                       set_mem pde (V2P pgtab OR PTE_P OR PTE_W OR PTE_U) (zero_page pgtab s1)))"

text \<open>
  The loop of \<^verbatim>\<open>mappages\<close>: \<open>n\<close> is the number of pages from \<open>a\<close> to
  \<open>last\<close>, so that the test \<^verbatim>\<open>a == last\<close> is \<open>n = 0\<close>. The result is
  \<open>True\<close> for 0 and \<open>False\<close> for -1.
\<close>

fun mappages_loop :: "nat \<Rightarrow> addr \<Rightarrow> addr \<Rightarrow> u32 \<Rightarrow> u32 \<Rightarrow> kmem \<Rightarrow> (bool \<times> kmem) kres" where
  "mappages_loop n pgdir a pa perm s =
     (let (pte, s1) = walkpgdir pgdir a True s
      in if pte = 0 then Inr (False, s1)
         else if present (mem s1 pte) then Inl (Panic ''remap'')
         else let s2 = set_mem pte (pa OR perm OR PTE_P) s1
              in (case n of
                    0 \<Rightarrow> Inr (True, s2)
                  | Suc m \<Rightarrow> mappages_loop m pgdir (a + PGSIZE) (pa + PGSIZE) perm s2))"

declare mappages_loop.simps [simp del]

definition mappages :: "addr \<Rightarrow> addr \<Rightarrow> u32 \<Rightarrow> u32 \<Rightarrow> u32 \<Rightarrow> kmem \<Rightarrow> (bool \<times> kmem) kres" where
  "mappages pgdir va sz pa perm s =
     (let a = PGROUNDDOWN va; last = PGROUNDDOWN (va + sz - 1)
      in mappages_loop (unat (drop_bit 12 (last - a))) pgdir a pa perm s)"

section \<open>Freeing\<close>

partial_function (option) deallocuvm_loop ::
  "addr \<Rightarrow> addr \<Rightarrow> addr \<Rightarrow> u32 \<Rightarrow> kmem \<Rightarrow> kmem kres option" where
  "deallocuvm_loop kend pgdir a oldsz s =
     (if a < oldsz
      then let (pte, _) = walkpgdir pgdir a False s
           in if pte = 0 then deallocuvm_loop kend pgdir (PGADDR (PDX a + 1) 0 0) oldsz s
              else if present (mem s pte)
              then let pa = PTE_ADDR (mem s pte)
                   in if pa = 0 then Some (Inl (Panic ''kfree''))
                      else (case kfree kend (P2V pa) s of
                              Inl e \<Rightarrow> Some (Inl e)
                            | Inr s1 \<Rightarrow> deallocuvm_loop kend pgdir (a + PGSIZE) oldsz (set_mem pte 0 s1))
              else deallocuvm_loop kend pgdir (a + PGSIZE) oldsz s
      else Some (Inr s))"

definition deallocuvm :: "addr \<Rightarrow> addr \<Rightarrow> u32 \<Rightarrow> u32 \<Rightarrow> kmem \<Rightarrow> (u32 \<times> kmem) kres" where
  "deallocuvm kend pgdir oldsz newsz s =
     (if newsz \<ge> oldsz then Inr (oldsz, s)
      else kbind (returns (deallocuvm_loop kend pgdir (PGROUNDUP newsz) oldsz s))
             (\<lambda>r. kbind r (\<lambda>s1. Inr (newsz, s1))))"

fun free_tables :: "addr \<Rightarrow> addr \<Rightarrow> nat list \<Rightarrow> kmem \<Rightarrow> kmem kres" where
  "free_tables kend pgdir [] s = Inr s"
| "free_tables kend pgdir (i # is) s =
     (let pde = mem s (pgdir + 4 * of_nat i)
      in if present pde
         then kbind (kfree kend (P2V (PTE_ADDR pde)) s) (free_tables kend pgdir is)
         else free_tables kend pgdir is s)"

definition freevm :: "addr \<Rightarrow> addr \<Rightarrow> kmem \<Rightarrow> kmem kres" where
  "freevm kend pgdir s =
     (if pgdir = 0 then Inl (Panic ''freevm: no pgdir'')
      else kbind (deallocuvm kend pgdir KERNBASE 0 s) (\<lambda>(_, s1).
           kbind (free_tables kend pgdir [0..<1024] s1) (\<lambda>s2.
           kfree kend pgdir s2)))"

section \<open>Building\<close>

definition kmap :: "addr \<Rightarrow> (addr \<times> u32 \<times> u32 \<times> u32) list" where
  "kmap kdata =
     [(KERNBASE, 0, EXTMEM, PTE_W),
      (KERNLINK, V2P KERNLINK, V2P kdata, 0),
      (kdata, V2P kdata, PHYSTOP, PTE_W),
      (DEVSPACE, DEVSPACE, 0, PTE_W)]"

fun setupkvm_loop ::
  "addr \<Rightarrow> addr \<Rightarrow> (addr \<times> u32 \<times> u32 \<times> u32) list \<Rightarrow> kmem \<Rightarrow> (addr \<times> kmem) kres" where
  "setupkvm_loop kend pgdir [] s = Inr (pgdir, s)"
| "setupkvm_loop kend pgdir ((virt, start, pend, perm) # ks) s =
     kbind (mappages pgdir virt (pend - start) start perm s) (\<lambda>(ok, s1).
       if \<not> ok then kbind (freevm kend pgdir s1) (\<lambda>s2. Inr (0, s2))
       else setupkvm_loop kend pgdir ks s1)"

definition setupkvm :: "addr \<Rightarrow> addr \<Rightarrow> kmem \<Rightarrow> (addr \<times> kmem) kres" where
  "setupkvm kend kdata s =
     (let (pgdir, s1) = kalloc s
      in if pgdir = 0 then Inr (0, s1)
         else if P2V PHYSTOP > DEVSPACE then Inl (Panic ''PHYSTOP too high'')
         else setupkvm_loop kend pgdir (kmap kdata) (zero_page pgdir s1))"

text \<open>\<open>init\<close> is the image of \<^verbatim>\<open>initcode\<close>, as the words \<^verbatim>\<open>memmove\<close> copies.\<close>

definition inituvm :: "addr \<Rightarrow> u32 list \<Rightarrow> kmem \<Rightarrow> kmem kres" where
  "inituvm pgdir init s =
     (if 4 * length init \<ge> unat PGSIZE then Inl (Panic ''inituvm: more than a page'')
      else let (page, s1) = kalloc s
           in if page = 0 then Inl Fault
              else kbind (mappages pgdir 0 PGSIZE (V2P page) (PTE_W OR PTE_U) (zero_page page s1))
                (\<lambda>(_, s2). Inr (fold (\<lambda>(i, w). set_mem (page + 4 * of_nat i) w) (zip [0..<length init] init) s2)))"

partial_function (option) allocuvm_loop ::
  "addr \<Rightarrow> addr \<Rightarrow> addr \<Rightarrow> u32 \<Rightarrow> u32 \<Rightarrow> kmem \<Rightarrow> (u32 \<times> kmem) kres option" where
  "allocuvm_loop kend pgdir a oldsz newsz s =
     (if a < newsz
      then let (page, s1) = kalloc s
           in if page = 0
              then Some (kbind (deallocuvm kend pgdir newsz oldsz s1) (\<lambda>(_, s2). Inr (0, s2)))
              else (case mappages pgdir a PGSIZE (V2P page) (PTE_W OR PTE_U) (zero_page page s1) of
                      Inl e \<Rightarrow> Some (Inl e)
                    | Inr (ok, s2) \<Rightarrow>
                        if \<not> ok
                        then Some (kbind (deallocuvm kend pgdir newsz oldsz s2)
                                    (\<lambda>(_, s3). kbind (kfree kend page s3) (\<lambda>s4. Inr (0, s4))))
                        else allocuvm_loop kend pgdir (a + PGSIZE) oldsz newsz s2)
      else Some (Inr (newsz, s)))"

definition allocuvm :: "addr \<Rightarrow> addr \<Rightarrow> u32 \<Rightarrow> u32 \<Rightarrow> kmem \<Rightarrow> (u32 \<times> kmem) kres" where
  "allocuvm kend pgdir oldsz newsz s =
     (if newsz \<ge> KERNBASE then Inr (0, s)
      else if newsz < oldsz then Inr (oldsz, s)
      else kbind (returns (allocuvm_loop kend pgdir (PGROUNDUP oldsz) oldsz newsz s)) (\<lambda>r. r))"

definition clearpteu :: "addr \<Rightarrow> addr \<Rightarrow> kmem \<Rightarrow> kmem kres" where
  "clearpteu pgdir uva s =
     (let (pte, _) = walkpgdir pgdir uva False s
      in if pte = 0 then Inl (Panic ''clearpteu'')
         else Inr (set_mem pte (mem s pte AND NOT PTE_U) s))"

partial_function (option) copyuvm_loop ::
  "addr \<Rightarrow> addr \<Rightarrow> addr \<Rightarrow> u32 \<Rightarrow> u32 \<Rightarrow> kmem \<Rightarrow> (addr \<times> kmem) kres option" where
  "copyuvm_loop kend pgdir d i sz s =
     (if i < sz
      then let (pte, _) = walkpgdir pgdir i False s
           in if pte = 0 then Some (Inl (Panic ''copyuvm: pte should exist''))
              else if \<not> present (mem s pte) then Some (Inl (Panic ''copyuvm: page not present''))
              else let pa = PTE_ADDR (mem s pte); flags = PTE_FLAGS (mem s pte);
                       (page, s1) = kalloc s
                   in if page = 0 then Some (kbind (freevm kend d s1) (\<lambda>s2. Inr (0, s2)))
                      else (case mappages d i PGSIZE (V2P page) flags (copy_page page (P2V pa) s1) of
                              Inl e \<Rightarrow> Some (Inl e)
                            | Inr (ok, s2) \<Rightarrow>
                                if \<not> ok
                                then Some (kbind (kfree kend page s2) (\<lambda>s3.
                                           kbind (freevm kend d s3) (\<lambda>s4. Inr (0, s4))))
                                else copyuvm_loop kend pgdir d (i + PGSIZE) sz s2)
      else Some (Inr (d, s)))"

definition copyuvm :: "addr \<Rightarrow> addr \<Rightarrow> addr \<Rightarrow> u32 \<Rightarrow> kmem \<Rightarrow> (addr \<times> kmem) kres" where
  "copyuvm kend kdata pgdir sz s =
     kbind (setupkvm kend kdata s) (\<lambda>(d, s1).
       if d = 0 then Inr (0, s1)
       else kbind (returns (copyuvm_loop kend pgdir d 0 sz s1)) (\<lambda>r. r))"

section \<open>User addresses\<close>

text \<open>\<^verbatim>\<open>uva2ka\<close> reads through the result of \<^verbatim>\<open>walkpgdir\<close> without testing it for null.\<close>

definition uva2ka :: "addr \<Rightarrow> addr \<Rightarrow> kmem \<Rightarrow> addr kres" where
  "uva2ka pgdir uva s =
     (let (pte, _) = walkpgdir pgdir uva False s
      in if pte = 0 then Inl Fault
         else if \<not> present (mem s pte) then Inr 0
         else if mem s pte AND PTE_U = 0 then Inr 0
         else Inr (P2V (PTE_ADDR (mem s pte))))"

text \<open>
  \<^verbatim>\<open>loaduvm\<close>: \<open>readi dst off n\<close> is the file system's, and gives the number of bytes
  read. \<open>True\<close> is 0, \<open>False\<close> is -1.
\<close>

partial_function (option) loaduvm_loop ::
  "(addr \<Rightarrow> u32 \<Rightarrow> u32 \<Rightarrow> kmem \<Rightarrow> int \<times> kmem) \<Rightarrow> addr \<Rightarrow> addr \<Rightarrow> u32 \<Rightarrow> u32 \<Rightarrow> u32 \<Rightarrow> kmem \<Rightarrow> (bool \<times> kmem) kres option" where
  "loaduvm_loop readi pgdir va offset i sz s =
     (if i < sz
      then let (pte, _) = walkpgdir pgdir (va + i) False s
           in if pte = 0 then Some (Inl (Panic ''loaduvm: address should exist''))
              else let pa = PTE_ADDR (mem s pte);
                       n = (if sz - i < PGSIZE then sz - i else PGSIZE);
                       (r, s1) = readi (P2V pa) (offset + i) n s
                   in if r \<noteq> sint n then Some (Inr (False, s1))
                      else loaduvm_loop readi pgdir va offset (i + PGSIZE) sz s1
      else Some (Inr (True, s)))"

definition loaduvm ::
  "(addr \<Rightarrow> u32 \<Rightarrow> u32 \<Rightarrow> kmem \<Rightarrow> int \<times> kmem) \<Rightarrow> addr \<Rightarrow> addr \<Rightarrow> u32 \<Rightarrow> u32 \<Rightarrow> kmem \<Rightarrow> (bool \<times> kmem) kres" where
  "loaduvm readi pgdir va offset sz s =
     (if va mod PGSIZE \<noteq> 0 then Inl (Panic ''loaduvm: addr must be page aligned'')
      else kbind (returns (loaduvm_loop readi pgdir va offset 0 sz s)) (\<lambda>r. r))"

end
