(* ===== verification/Proc.thy ===== *)
theory Proc
  imports SchedSpec Spinlock VM
begin

text \<open>
  The process table and the scheduler (\<^verbatim>\<open>proc.c\<close>, \<^verbatim>\<open>proc.h\<close>). The kernel state
  extends the machine of \<^verbatim>\<open>Spinlock\<close> by the process table, the scheduler's
  structures and the page allocator; the file system is an opaque component
  \<open>fsst\<close> with its operations as arguments. A process pointer is 0 or
  \<open>Suc i\<close> for \<^verbatim>\<open>&ptable.proc[i]\<close>.

  \<^verbatim>\<open>swtch\<close> cuts a function in two. What a process does when it is next switched to
  is its \<open>pcontext\<close>: \<open>Forkret\<close> for a new process, \<open>InSched r i\<close> for one that
  called \<^verbatim>\<open>sched\<close> (with the local variable \<^verbatim>\<open>intena\<close> and the caller
  \<open>r\<close> to return to), \<open>Reacquire l\<close> for one that left \<^verbatim>\<open>sleep\<close> up to its
  last \<^verbatim>\<open>acquire\<close>, \<open>OnCpu\<close> while it runs. The scheduler's own half after
  \<^verbatim>\<open>swtch\<close> runs when a process calls \<^verbatim>\<open>sched\<close>; \<^verbatim>\<open>ptable.lock\<close> is
  held across the switch.
\<close>

abbreviation NPROC :: nat where "NPROC \<equiv> 64"
abbreviation NOFILE :: nat where "NOFILE \<equiv> 16"

abbreviation ptable_lock :: lockp where "ptable_lock \<equiv> Suc 0"

section \<open>Data\<close>

datatype procstate = UNUSED | EMBRYO | SLEEPING | RUNNABLE | RUNNING | ZOMBIE

datatype chan = NoChan | ProcChan procp | ObjChan nat

datatype resume = RYield | RSleep lockp | RWait bool | RExit

datatype kcont = Forkret | InSched resume bool | Reacquire lockp | OnCpu

record trapframe =
  tf_edi :: u32
  tf_esi :: u32
  tf_ebp :: u32
  tf_oesp :: u32
  tf_ebx :: u32
  tf_edx :: u32
  tf_ecx :: u32
  tf_eax :: u32
  tf_gs :: u32
  tf_fs :: u32
  tf_es :: u32
  tf_ds :: u32
  tf_trapno :: u32
  tf_err :: u32
  tf_eip :: u32
  tf_cs :: u32
  tf_eflags :: u32
  tf_esp :: u32
  tf_ss :: u32

record proc =
  sz :: u32
  pgdir :: addr
  kstack :: addr
  state :: procstate
  pid :: int
  parent :: procp
  tf :: trapframe
  pcontext :: kcont
  pchan :: chan
  killed :: bool
  ofile :: "nat \<Rightarrow> nat"
  cwd :: nat
  pname :: string
  status :: int
  priority :: int
  accumulator :: int
  counter :: int

record 'f kst = mach +
  procs :: "procp \<Rightarrow> proc"
  nextpid :: int
  initproc :: procp
  ds :: sched_ds
  km :: kmem
  fsst :: 'f

definition slots :: "procp list" where
  "slots = [1..<Suc NPROC]"

definition set_proc :: "procp \<Rightarrow> (proc \<Rightarrow> proc) \<Rightarrow> 'f kst \<Rightarrow> 'f kst" where
  "set_proc p f k = k\<lparr>procs := (procs k)(p := f (procs k p))\<rparr>"

text \<open>A process pointer used as a channel.\<close>

definition proc_chan :: "procp \<Rightarrow> chan" where
  "proc_chan p = (if p = 0 then NoChan else ProcChan p)"

section \<open>The scheduler's structures\<close>

definition getAccumulator :: "'f kst \<Rightarrow> procp \<Rightarrow> int" where
  "getAccumulator k p = accumulator (procs k p)"

text \<open>Calls through the interface; the results of \<^verbatim>\<open>put\<close>, \<^verbatim>\<open>add\<close> and \<^verbatim>\<open>remove\<close> are ignored by the callers.\<close>

definition pq_put :: "procp \<Rightarrow> 'f kst \<Rightarrow> 'f kst kres" where
  "pq_put p k = kbind (returns (putPriorityQueue (getAccumulator k) p (ds k))) (\<lambda>(_, d). Inr (k\<lparr>ds := d\<rparr>))"

definition rpholder_add :: "procp \<Rightarrow> 'f kst \<Rightarrow> 'f kst kres" where
  "rpholder_add p k = kbind (returns (addRunningProcessHolder p (ds k))) (\<lambda>(_, d). Inr (k\<lparr>ds := d\<rparr>))"

definition rpholder_remove :: "procp \<Rightarrow> 'f kst \<Rightarrow> 'f kst kres" where
  "rpholder_remove p k = kbind (returns (removeRunningProcessHolder p (ds k))) (\<lambda>(_, d). Inr (k\<lparr>ds := d\<rparr>))"

definition get_min :: "'f kst \<Rightarrow> int kres" where
  "get_min k =
     (if isEmptyPriorityQueue (ds k) then Inr 0
      else kbind (returns (getMinAccumulatorPriorityQueue (ds k))) (\<lambda>m.
        let min_accumulator_pq = (case m of None \<Rightarrow> 0 | Some a \<Rightarrow> a)
        in if isEmptyRunningProcessHolder (ds k) then Inr min_accumulator_pq
           else kbind (returns (getMinAccumulatorRunningProcessHolder (getAccumulator k) (ds k))) (\<lambda>r.
             let min_accumulator_rpholder = (case r of None \<Rightarrow> 0 | Some a \<Rightarrow> a)
             in Inr (if min_accumulator_pq < min_accumulator_rpholder
                     then min_accumulator_pq else min_accumulator_rpholder))))"

definition pinit :: "'f kst \<Rightarrow> 'f kst" where
  "pinit k = initlock ptable_lock ''ptable'' k"

section \<open>Creating a process\<close>

text \<open>
  The trap frame and the context lie in the new kernel stack: the frame is written by
  the caller before it is used, the context starts at \<^verbatim>\<open>forkret\<close>.
\<close>

definition allocproc :: "nat \<Rightarrow> 'f kst \<Rightarrow> (procp \<times> 'f kst) kres" where
  "allocproc c k =
     kbind (acquire c ptable_lock k) (\<lambda>k.
       case find (\<lambda>p. state (procs k p) = UNUSED) slots of
         None \<Rightarrow> kbind (release c ptable_lock k) (\<lambda>k. Inr (0, k))
       | Some p \<Rightarrow>
           let k = (set_proc p (\<lambda>x. x\<lparr>state := EMBRYO, pid := nextpid k\<rparr>) k)\<lparr>nextpid := s32 (nextpid k + 1)\<rparr>
           in kbind (release c ptable_lock k) (\<lambda>k.
              let (ks, m) = kalloc (km k);
                  k = set_proc p (\<lambda>x. x\<lparr>kstack := ks\<rparr>) (k\<lparr>km := m\<rparr>)
              in if ks = 0 then Inr (0, set_proc p (\<lambda>x. x\<lparr>state := UNUSED\<rparr>) k)
                 else Inr (p, set_proc p (\<lambda>x. x\<lparr>pcontext := Forkret\<rparr>) k)))"

text \<open>The last section of \<^verbatim>\<open>fork\<close> and \<^verbatim>\<open>userinit\<close>: the process becomes runnable.\<close>

definition publish :: "nat \<Rightarrow> procp \<Rightarrow> 'f kst \<Rightarrow> 'f kst kres" where
  "publish c p k =
     kbind (acquire c ptable_lock k) (\<lambda>k.
     let k = set_proc p (\<lambda>x. x\<lparr>state := RUNNABLE, priority := 5\<rparr>) k
     in kbind (get_min k) (\<lambda>a.
        kbind (pq_put p (set_proc p (\<lambda>x. x\<lparr>accumulator := a\<rparr>) k)) (\<lambda>k.
        release c ptable_lock k)))"

fun dup_files :: "(nat \<Rightarrow> 'f \<Rightarrow> (nat \<times> 'f) kres) \<Rightarrow> procp \<Rightarrow> procp \<Rightarrow> nat list \<Rightarrow> 'f kst \<Rightarrow> 'f kst kres" where
  "dup_files filedup cp np [] k = Inr k"
| "dup_files filedup cp np (i # is) k =
     (if ofile (procs k cp) i \<noteq> 0
      then kbind (filedup (ofile (procs k cp) i) (fsst k)) (\<lambda>(f, fs).
           dup_files filedup cp np is (set_proc np (\<lambda>x. x\<lparr>ofile := (ofile x)(i := f)\<rparr>) (k\<lparr>fsst := fs\<rparr>)))
      else dup_files filedup cp np is k)"

text \<open>\<^verbatim>\<open>fork\<close>: -1, or the pid of the child.\<close>

definition fork ::
  "(nat \<Rightarrow> 'f \<Rightarrow> (nat \<times> 'f) kres) \<Rightarrow> (nat \<Rightarrow> 'f \<Rightarrow> (nat \<times> 'f) kres) \<Rightarrow> addr \<Rightarrow> addr \<Rightarrow> nat \<Rightarrow> 'f kst \<Rightarrow> (int \<times> 'f kst) kres" where
  "fork filedup idup kend kdata c k =
     kbind (myproc c k) (\<lambda>(cp, k).
     kbind (allocproc c k) (\<lambda>(np, k).
       if np = 0 then Inr (- 1, k)
       else
         kbind (copyuvm kend kdata (pgdir (procs k cp)) (sz (procs k cp)) (km k)) (\<lambda>(d, m).
         let k = set_proc np (\<lambda>x. x\<lparr>pgdir := d\<rparr>) (k\<lparr>km := m\<rparr>)
         in if d = 0
            then kbind (kfree kend (kstack (procs k np)) (km k)) (\<lambda>m.
                 Inr (- 1, set_proc np (\<lambda>x. x\<lparr>kstack := 0, state := UNUSED\<rparr>) (k\<lparr>km := m\<rparr>)))
            else
              let k = set_proc np (\<lambda>x. x\<lparr>sz := sz (procs k cp), parent := cp,
                                         tf := (tf (procs k cp))\<lparr>tf_eax := 0\<rparr>\<rparr>) k
              in kbind (dup_files filedup cp np [0..<NOFILE] k) (\<lambda>k.
                 kbind (idup (cwd (procs k cp)) (fsst k)) (\<lambda>(i, fs).
                 let k = set_proc np (\<lambda>x. x\<lparr>cwd := i, pname := take 15 (pname (procs k cp))\<rparr>) (k\<lparr>fsst := fs\<rparr>);
                     npid = pid (procs k np)
                 in kbind (publish c np k) (\<lambda>k. Inr (npid, k))))))) "

definition initial_tf :: trapframe where
  "initial_tf = \<lparr>tf_edi = 0, tf_esi = 0, tf_ebp = 0, tf_oesp = 0, tf_ebx = 0, tf_edx = 0, tf_ecx = 0, tf_eax = 0, tf_gs = 0, tf_fs = 0,
     tf_es = 0x23, tf_ds = 0x23, tf_trapno = 0, tf_err = 0, tf_eip = 0, tf_cs = 0x1B,
     tf_eflags = 0x200, tf_esp = PGSIZE, tf_ss = 0x23\<rparr>"

definition userinit ::
  "(string \<Rightarrow> 'f \<Rightarrow> (nat \<times> 'f) kres) \<Rightarrow> u32 list \<Rightarrow> addr \<Rightarrow> addr \<Rightarrow> nat \<Rightarrow> 'f kst \<Rightarrow> 'f kst kres" where
  "userinit namei initcode kend kdata c k =
     kbind (allocproc c k) (\<lambda>(p, k).
     let k = k\<lparr>initproc := p\<rparr>
     in if p = 0 then Inl Fault
        else kbind (setupkvm kend kdata (km k)) (\<lambda>(d, m).
          let k = set_proc p (\<lambda>x. x\<lparr>pgdir := d\<rparr>) (k\<lparr>km := m\<rparr>)
          in if d = 0 then Inl (Panic ''userinit: out of memory?'')
             else kbind (inituvm d initcode (km k)) (\<lambda>m.
                  let k = set_proc p (\<lambda>x. x\<lparr>sz := PGSIZE, tf := initial_tf, pname := ''initcode''\<rparr>) (k\<lparr>km := m\<rparr>)
                  in kbind (namei ''/'' (fsst k)) (\<lambda>(i, fs).
                     publish c p (set_proc p (\<lambda>x. x\<lparr>cwd := i\<rparr>) (k\<lparr>fsst := fs\<rparr>))))))"

text \<open>\<^verbatim>\<open>growproc\<close>: \<open>True\<close> for 0, \<open>False\<close> for -1. \<open>n\<close> is a C int.\<close>

definition switchuvm :: "nat \<Rightarrow> procp \<Rightarrow> 'f kst \<Rightarrow> 'f kst kres" where
  "switchuvm c p k =
     (if p = 0 then Inl (Panic ''switchuvm: no process'')
      else if kstack (procs k p) = 0 then Inl (Panic ''switchuvm: no kstack'')
      else if pgdir (procs k p) = 0 then Inl (Panic ''switchuvm: no pgdir'')
      else kbind (pushcli c k) (\<lambda>k. kbind (mycpu c k) (\<lambda>_. popcli c k)))"

definition growproc :: "addr \<Rightarrow> int \<Rightarrow> nat \<Rightarrow> 'f kst \<Rightarrow> (bool \<times> 'f kst) kres" where
  "growproc kend n c k =
     kbind (myproc c k) (\<lambda>(p, k).
     let s = sz (procs k p)
     in kbind (if n > 0 then allocuvm kend (pgdir (procs k p)) s (s + of_int n) (km k)
               else if n < 0 then deallocuvm kend (pgdir (procs k p)) s (s + of_int n) (km k)
               else Inr (s, km k)) (\<lambda>(s', m).
        if n \<noteq> 0 \<and> s' = 0 then Inr (False, k\<lparr>km := m\<rparr>)
        else kbind (switchuvm c p (set_proc p (\<lambda>x. x\<lparr>sz := s'\<rparr>) (k\<lparr>km := m\<rparr>))) (\<lambda>k. Inr (True, k))))"

section \<open>Waking up\<close>

definition wake :: "procp \<Rightarrow> 'f kst \<Rightarrow> 'f kst kres" where
  "wake p k =
     (let k = set_proc p (\<lambda>x. x\<lparr>state := RUNNABLE\<rparr>) k
      in kbind (get_min k) (\<lambda>a. pq_put p (set_proc p (\<lambda>x. x\<lparr>accumulator := a\<rparr>) k)))"

fun wakeup1_loop :: "chan \<Rightarrow> procp list \<Rightarrow> 'f kst \<Rightarrow> 'f kst kres" where
  "wakeup1_loop ch [] k = Inr k"
| "wakeup1_loop ch (p # ps) k =
     (if state (procs k p) = SLEEPING \<and> pchan (procs k p) = ch
      then kbind (wake p k) (wakeup1_loop ch ps)
      else wakeup1_loop ch ps k)"

definition wakeup1 :: "chan \<Rightarrow> 'f kst \<Rightarrow> 'f kst kres" where
  "wakeup1 ch k = wakeup1_loop ch slots k"

text \<open>
  \<^verbatim>\<open>wakeup\<close> and \<^verbatim>\<open>sleep\<close> are sequences of actions, so that what other CPUs do
  between two of them can be stated.
\<close>

definition wakeup_prog :: "chan \<Rightarrow> nat \<Rightarrow> ('f kst \<Rightarrow> 'f kst kres) list" where
  "wakeup_prog ch c = [acquire c ptable_lock, wakeup1 ch, release c ptable_lock]"

definition wakeup :: "chan \<Rightarrow> nat \<Rightarrow> 'f kst \<Rightarrow> 'f kst kres" where
  "wakeup ch c k = run_prog (wakeup_prog ch c) k"

lemma wakeup_eq: "wakeup ch c k = kbind (acquire c ptable_lock k) (\<lambda>k. kbind (wakeup1 ch k) (release c ptable_lock))"
  by (simp add: wakeup_def wakeup_prog_def kbind_def split: sum.split)

section \<open>The scheduler\<close>

text \<open>\<^verbatim>\<open>Priority_Scheduler\<close> after \<^verbatim>\<open>swtch\<close> has come back from process \<open>p\<close>.\<close>

definition Priority_Scheduler_back :: "nat \<Rightarrow> procp \<Rightarrow> 'f kst \<Rightarrow> 'f kst kres" where
  "Priority_Scheduler_back c p k =
     kbind (rpholder_remove p (set_cpu c (\<lambda>x. x\<lparr>cproc := 0\<rparr>) k)) (\<lambda>k.
     kbind (if state (procs k p) = RUNNABLE
            then pq_put p (set_proc p (\<lambda>x. x\<lparr>accumulator := s64 (accumulator x + priority x)\<rparr>) k)
            else Inr k)
       (release c ptable_lock))"

text \<open>\<^verbatim>\<open>sched\<close> up to \<^verbatim>\<open>swtch\<close>, then the scheduler of the same CPU.\<close>

definition sched :: "nat \<Rightarrow> resume \<Rightarrow> 'f kst \<Rightarrow> 'f kst kres" where
  "sched c r k =
     kbind (myproc c k) (\<lambda>(p, k).
     kbind (holding c ptable_lock k) (\<lambda>(h, k).
       if \<not> h then Inl (Panic ''sched ptable.lock'')
       else kbind (mycpu c k) (\<lambda>i.
         if ncli (cpus k i) \<noteq> 1 then Inl (Panic ''sched locks'')
         else if state (procs k p) = RUNNING then Inl (Panic ''sched running'')
         else if eflags_IF (cpus k c) then Inl (Panic ''sched interruptible'')
         else Priority_Scheduler_back c p (set_proc p (\<lambda>x. x\<lparr>pcontext := InSched r (intena (cpus k i))\<rparr>) k))))"

definition yield :: "nat \<Rightarrow> 'f kst \<Rightarrow> 'f kst kres" where
  "yield c k =
     kbind (acquire c ptable_lock k) (\<lambda>k.
     kbind (myproc c k) (\<lambda>(p, k).
     kbind (rpholder_remove p (set_proc p (\<lambda>x. x\<lparr>state := RUNNABLE\<rparr>) k)) (\<lambda>k.
     kbind (pq_put p k) (\<lambda>k.
     sched c RYield k))))"

text \<open>\<^verbatim>\<open>sleep(chan, lk)\<close>; \<open>r\<close> is where the process goes on once it is awake.\<close>

definition go_to_sleep :: "nat \<Rightarrow> procp \<Rightarrow> chan \<Rightarrow> resume \<Rightarrow> 'f kst \<Rightarrow> 'f kst kres" where
  "go_to_sleep c p ch r k =
     kbind (rpholder_remove p (set_proc p (\<lambda>x. x\<lparr>pchan := ch, state := SLEEPING\<rparr>) k)) (sched c r)"

definition sleep_prog :: "nat \<Rightarrow> procp \<Rightarrow> chan \<Rightarrow> lockp \<Rightarrow> resume \<Rightarrow> ('f kst \<Rightarrow> 'f kst kres) list" where
  "sleep_prog c p ch lk r =
     (if lk \<noteq> ptable_lock then [acquire c ptable_lock, release c lk] else []) @ [go_to_sleep c p ch r]"

definition sleep :: "nat \<Rightarrow> chan \<Rightarrow> lockp \<Rightarrow> resume \<Rightarrow> 'f kst \<Rightarrow> 'f kst kres" where
  "sleep c ch lk r k =
     kbind (myproc c k) (\<lambda>(p, k).
       if p = 0 then Inl (Panic ''sleep'')
       else if lk = 0 then Inl (Panic ''sleep without lk'')
       else run_prog (sleep_prog c p ch lk r) k)"

lemma sleep_eq:
  fixes k :: "'f kst"
  shows "sleep c ch lk r k =
     kbind (myproc c k) (\<lambda>(p, k).
       if p = 0 then Inl (Panic ''sleep'')
       else if lk = 0 then Inl (Panic ''sleep without lk'')
       else kbind (if lk \<noteq> ptable_lock then kbind (acquire c ptable_lock k) (release c lk) else Inr k) (\<lambda>k.
            kbind (rpholder_remove p (set_proc p (\<lambda>x. x\<lparr>pchan := ch, state := SLEEPING\<rparr>) k)) (sched c r)))"
proof -
  have "run_prog (sleep_prog c p ch lk r) k =
    kbind (if lk \<noteq> ptable_lock then kbind (acquire c ptable_lock k) (release c lk) else Inr k) (go_to_sleep c p ch r)"
    for p and k :: "'f kst"
    by (simp add: sleep_prog_def kbind_def split: sum.split)
  then show ?thesis by (simp add: sleep_def go_to_sleep_def [abs_def] cong: if_cong)
qed

section \<open>Leaving\<close>

fun reparent :: "procp \<Rightarrow> procp list \<Rightarrow> 'f kst \<Rightarrow> 'f kst kres" where
  "reparent cp [] k = Inr k"
| "reparent cp (p # ps) k =
     (if parent (procs k p) = cp
      then let k = set_proc p (\<lambda>x. x\<lparr>parent := initproc k\<rparr>) k
           in kbind (if state (procs k p) = ZOMBIE then wakeup1 (proc_chan (initproc k)) k else Inr k)
                (reparent cp ps)
      else reparent cp ps k)"

text \<open>The part of \<^verbatim>\<open>exit\<close> under \<^verbatim>\<open>ptable.lock\<close>.\<close>

definition exit_tail :: "nat \<Rightarrow> procp \<Rightarrow> 'f kst \<Rightarrow> 'f kst kres" where
  "exit_tail c cp k =
     kbind (acquire c ptable_lock k) (\<lambda>k.
     kbind (wakeup1 (proc_chan (parent (procs k cp))) k) (\<lambda>k.
     kbind (reparent cp slots k) (\<lambda>k.
     sched c RExit (set_proc cp (\<lambda>x. x\<lparr>state := ZOMBIE\<rparr>) k))))"

text \<open>
  \<^verbatim>\<open>exit\<close>: \<open>fileclose\<close> and \<open>iput\<close> (the latter inside a log transaction) are
  the file system's. They take the CPU and the whole kernel state, since closing the end of a pipe
  wakes processes; they may sleep and so return on another CPU; they may panic.
\<close>

type_synonym 'f file_op = "nat \<Rightarrow> nat \<Rightarrow> 'f kst \<Rightarrow> (nat \<times> 'f kst) kres"

fun close_files :: "'f file_op \<Rightarrow> nat \<Rightarrow> procp \<Rightarrow> nat list \<Rightarrow> 'f kst \<Rightarrow> (nat \<times> 'f kst) kres" where
  "close_files fileclose c cp [] k = Inr (c, k)"
| "close_files fileclose c cp (i # is) k =
     (if ofile (procs k cp) i \<noteq> 0
      then kbind (fileclose (ofile (procs k cp) i) c k) (\<lambda>(c, k).
           close_files fileclose c cp is (set_proc cp (\<lambda>x. x\<lparr>ofile := (ofile x)(i := 0)\<rparr>) k))
      else close_files fileclose c cp is k)"

definition exit :: "'f file_op \<Rightarrow> 'f file_op \<Rightarrow> int \<Rightarrow> nat \<Rightarrow> 'f kst \<Rightarrow> 'f kst kres" where
  "exit fileclose iput st c k =
     kbind (myproc c k) (\<lambda>(cp, k).
     let k = set_proc cp (\<lambda>x. x\<lparr>status := st\<rparr>) k
     in if cp = initproc k then Inl (Panic ''init exiting'')
        else kbind (close_files fileclose c cp [0..<NOFILE] k) (\<lambda>(c, k).
             kbind (iput (cwd (procs k cp)) c k) (\<lambda>(c, k).
             exit_tail c cp (set_proc cp (\<lambda>x. x\<lparr>cwd := 0\<rparr>) k))))"

section \<open>Waiting\<close>

text \<open>
  One pass of the loop of \<^verbatim>\<open>wait\<close> over the table, up to the first zombie child:
  whether a child was seen, and that child.
\<close>

fun wait_scan :: "procp \<Rightarrow> (procp \<Rightarrow> proc) \<Rightarrow> procp list \<Rightarrow> bool \<Rightarrow> bool \<times> procp option" where
  "wait_scan cp ps [] havekids = (havekids, None)"
| "wait_scan cp ps (p # qs) havekids =
     (if parent (ps p) \<noteq> cp then wait_scan cp ps qs havekids
      else if state (ps p) = ZOMBIE then (True, Some p)
      else wait_scan cp ps qs True)"

definition reap :: "addr \<Rightarrow> procp \<Rightarrow> 'f kst \<Rightarrow> 'f kst kres" where
  "reap kend p k =
     kbind (kfree kend (kstack (procs k p)) (km k)) (\<lambda>m.
     kbind (freevm kend (pgdir (procs k p)) m) (\<lambda>m.
     Inr (set_proc p (\<lambda>x. x\<lparr>kstack := 0, pid := 0, parent := 0, pname := [], killed := False, state := UNUSED\<rparr>)
            (k\<lparr>km := m\<rparr>))))"

text \<open>
  The body of the loop, with \<^verbatim>\<open>ptable.lock\<close> held. The result is \<open>None\<close> when the
  process went to sleep, else the return value and, if the caller asked for it, the
  exit status stored through its pointer.
\<close>

definition wait_body :: "addr \<Rightarrow> bool \<Rightarrow> nat \<Rightarrow> procp \<Rightarrow> 'f kst \<Rightarrow> ((int \<times> int option) option \<times> 'f kst) kres" where
  "wait_body kend want c cp k =
     (case wait_scan cp (procs k) slots False of
        (havekids, Some p) \<Rightarrow>
          let chpid = pid (procs k p)
          in kbind (reap kend p k) (\<lambda>k.
             kbind (release c ptable_lock k) (\<lambda>k'.
             Inr (Some (chpid, if want then Some (status (procs k p)) else None), k')))
      | (havekids, None) \<Rightarrow>
          if \<not> havekids \<or> killed (procs k cp)
          then kbind (release c ptable_lock k) (\<lambda>k. Inr (Some (- 1, None), k))
          else kbind (sleep c (proc_chan cp) ptable_lock (RWait want) k) (\<lambda>k. Inr (None, k)))"

definition wait :: "addr \<Rightarrow> bool \<Rightarrow> nat \<Rightarrow> 'f kst \<Rightarrow> ((int \<times> int option) option \<times> 'f kst) kres" where
  "wait kend want c k =
     kbind (myproc c k) (\<lambda>(cp, k).
     kbind (acquire c ptable_lock k) (wait_body kend want c cp))"

section \<open>Starting and resuming a process\<close>

text \<open>
  What \<^verbatim>\<open>swtch\<close> to a process continues with. \<^verbatim>\<open>forkret\<close> releases the lock (the
  file-system initialisation of its first call belongs to the file system). The
  result is the return value of \<^verbatim>\<open>wait\<close>, if the process was in it and returns.
\<close>

definition resume_proc :: "addr \<Rightarrow> nat \<Rightarrow> procp \<Rightarrow> 'f kst \<Rightarrow> ((int \<times> int option) option \<times> 'f kst) kres" where
  "resume_proc kend c p k =
     (case pcontext (procs k p) of
        Forkret \<Rightarrow>
          kbind (release c ptable_lock (set_proc p (\<lambda>x. x\<lparr>pcontext := OnCpu\<rparr>) k)) (\<lambda>k. Inr (None, k))
      | InSched r i \<Rightarrow>
          let k = set_cpu c (\<lambda>x. x\<lparr>intena := i\<rparr>) (set_proc p (\<lambda>x. x\<lparr>pcontext := OnCpu\<rparr>) k)
          in (case r of
                RYield \<Rightarrow> kbind (release c ptable_lock k) (\<lambda>k. Inr (None, k))
              | RSleep l \<Rightarrow>
                  kbind (release c ptable_lock (set_proc p (\<lambda>x. x\<lparr>pchan := NoChan, pcontext := Reacquire l\<rparr>) k))
                    (\<lambda>k. Inr (None, k))
              | RWait want \<Rightarrow> wait_body kend want c p (set_proc p (\<lambda>x. x\<lparr>pchan := NoChan\<rparr>) k)
              | RExit \<Rightarrow> Inl (Panic ''zombie exit''))
      | _ \<Rightarrow> Inl Fault)"

text \<open>The end of \<^verbatim>\<open>sleep\<close>: the caller's lock is taken again.\<close>

definition reacquire :: "nat \<Rightarrow> procp \<Rightarrow> lockp \<Rightarrow> 'f kst \<Rightarrow> 'f kst kres" where
  "reacquire c p l k = acquire c l (set_proc p (\<lambda>x. x\<lparr>pcontext := OnCpu\<rparr>) k)"

definition Priority_Scheduler :: "addr \<Rightarrow> nat \<Rightarrow> 'f kst \<Rightarrow> ((int \<times> int option) option \<times> 'f kst) kres" where
  "Priority_Scheduler kend c k =
     kbind (acquire c ptable_lock k) (\<lambda>k.
       if isEmptyPriorityQueue (ds k) then kbind (release c ptable_lock k) (\<lambda>k. Inr (None, k))
       else kbind (returns (extractMinPriorityQueue (ds k))) (\<lambda>(p, d).
         let k = k\<lparr>ds := d\<rparr>
         in if p = 0 then Inl Fault
            else if state (procs k p) \<noteq> RUNNABLE then kbind (release c ptable_lock k) (\<lambda>k. Inr (None, k))
            else kbind (switchuvm c p (set_cpu c (\<lambda>x. x\<lparr>cproc := p\<rparr>) k)) (\<lambda>k.
                 kbind (rpholder_add p (set_proc p (\<lambda>x. x\<lparr>state := RUNNING\<rparr>) k)) (\<lambda>k.
                 resume_proc kend c p k))))"

text \<open>One turn of the endless loop of \<^verbatim>\<open>scheduler\<close>.\<close>

definition scheduler :: "addr \<Rightarrow> nat \<Rightarrow> 'f kst \<Rightarrow> ((int \<times> int option) option \<times> 'f kst) kres" where
  "scheduler kend c k = Priority_Scheduler kend c (sti c k)"

text \<open>\<^verbatim>\<open>Round_Robin_Scheduler\<close>, up to and after \<^verbatim>\<open>swtch\<close>; the kernel does not call it.\<close>

definition Round_Robin_Scheduler :: "addr \<Rightarrow> nat \<Rightarrow> 'f kst \<Rightarrow> ((int \<times> int option) option \<times> 'f kst) kres" where
  "Round_Robin_Scheduler kend c k =
     (let k = sti c k
      in if isEmptyRoundRobinQueue (ds k) then Inr (None, k)
         else kbind (acquire c ptable_lock k) (\<lambda>k.
           let (p, d) = dequeueRoundRobinQueue (ds k); k = k\<lparr>ds := d\<rparr>
           in if p = 0 then Inl Fault
              else if state (procs k p) = RUNNABLE
              then kbind (switchuvm c p (set_cpu c (\<lambda>x. x\<lparr>cproc := p\<rparr>) k)) (\<lambda>k.
                   kbind (rpholder_add p (set_proc p (\<lambda>x. x\<lparr>state := RUNNING\<rparr>) k)) (\<lambda>k.
                   resume_proc kend c p k))
              else kbind (release c ptable_lock k) (\<lambda>k. Inr (None, k))))"

definition Round_Robin_Scheduler_back :: "nat \<Rightarrow> procp \<Rightarrow> 'f kst \<Rightarrow> 'f kst kres" where
  "Round_Robin_Scheduler_back c p k =
     kbind (if state (procs k p) = RUNNABLE
            then kbind (returns (enqueueRoundRobinQueue p (ds k))) (\<lambda>(_, d). Inr (k\<lparr>ds := d\<rparr>))
            else Inr k) (\<lambda>k.
     release c ptable_lock (set_cpu c (\<lambda>x. x\<lparr>cproc := 0\<rparr>) k))"

section \<open>The remaining calls\<close>

definition kill :: "int \<Rightarrow> nat \<Rightarrow> 'f kst \<Rightarrow> (int \<times> 'f kst) kres" where
  "kill n c k =
     kbind (acquire c ptable_lock k) (\<lambda>k.
       case find (\<lambda>p. pid (procs k p) = n) slots of
         None \<Rightarrow> kbind (release c ptable_lock k) (\<lambda>k. Inr (- 1, k))
       | Some p \<Rightarrow>
           let k = set_proc p (\<lambda>x. x\<lparr>killed := True\<rparr>) k
           in kbind (if state (procs k p) = SLEEPING then wake p k else Inr k) (\<lambda>k.
              kbind (release c ptable_lock k) (\<lambda>k. Inr (0, k))))"

definition detach :: "int \<Rightarrow> nat \<Rightarrow> 'f kst \<Rightarrow> (int \<times> 'f kst) kres" where
  "detach n c k =
     kbind (myproc c k) (\<lambda>(cp, k).
     kbind (acquire c ptable_lock k) (\<lambda>k.
       case find (\<lambda>p. pid (procs k p) = n \<and> parent (procs k p) = cp) slots of
         None \<Rightarrow> kbind (release c ptable_lock k) (\<lambda>k. Inr (- 1, k))
       | Some p \<Rightarrow>
           kbind (release c ptable_lock (set_proc p (\<lambda>x. x\<lparr>parent := initproc k\<rparr>) k)) (\<lambda>k. Inr (0, k))))"

definition set_priority :: "int \<Rightarrow> nat \<Rightarrow> 'f kst \<Rightarrow> 'f kst kres" where
  "set_priority prio c k =
     kbind (acquire c ptable_lock k) (\<lambda>k.
     kbind (myproc c k) (\<lambda>(p, k).
     release c ptable_lock (set_proc p (\<lambda>x. x\<lparr>priority := prio\<rparr>) k)))"

end
