(* ===== verification/ProcInv.thy ===== *)
theory ProcInv
  imports Proc
begin

text \<open>
  The invariant of the process table at the points where \<^verbatim>\<open>ptable.lock\<close> is free,
  and what each section of \<^verbatim>\<open>proc.c\<close> does to it.
\<close>

section \<open>Fields under updates\<close>

lemma kst_set_cpu [simp]:
  "procs (set_cpu c f k) = procs k" "nextpid (set_cpu c f k) = nextpid k" "initproc (set_cpu c f k) = initproc k"
  "ds (set_cpu c f k) = ds k" "km (set_cpu c f k) = km k" "fsst (set_cpu c f k) = fsst k"
  by (simp_all add: set_cpu_def)

lemma kst_set_lock [simp]:
  "procs (set_lock l f k) = procs k" "nextpid (set_lock l f k) = nextpid k" "initproc (set_lock l f k) = initproc k"
  "ds (set_lock l f k) = ds k" "km (set_lock l f k) = km k" "fsst (set_lock l f k) = fsst k"
  by (simp_all add: set_lock_def)

lemma kst_set_proc [simp]:
  "procs (set_proc p f k) = (procs k)(p := f (procs k p))" "nextpid (set_proc p f k) = nextpid k"
  "initproc (set_proc p f k) = initproc k" "ds (set_proc p f k) = ds k" "km (set_proc p f k) = km k"
  "fsst (set_proc p f k) = fsst k" "cpus (set_proc p f k) = cpus k" "ncpu (set_proc p f k) = ncpu k"
  "locks (set_proc p f k) = locks k"
  by (simp_all add: set_proc_def)

lemmas mach_upd_defs = taken_def freed_def noted_def pushed_def popped_def cli_def sti_def

lemma kst_taken [simp]:
  "procs (taken c l k) = procs k" "nextpid (taken c l k) = nextpid k" "initproc (taken c l k) = initproc k"
  "ds (taken c l k) = ds k" "km (taken c l k) = km k" "fsst (taken c l k) = fsst k"
  by (simp_all add: mach_upd_defs)

lemma kst_freed [simp]:
  "procs (freed c l k) = procs k" "nextpid (freed c l k) = nextpid k" "initproc (freed c l k) = initproc k"
  "ds (freed c l k) = ds k" "km (freed c l k) = km k" "fsst (freed c l k) = fsst k"
  by (simp_all add: mach_upd_defs)

lemma kst_noted [simp]:
  "procs (noted c k) = procs k" "nextpid (noted c k) = nextpid k" "initproc (noted c k) = initproc k"
  "ds (noted c k) = ds k" "km (noted c k) = km k" "fsst (noted c k) = fsst k"
  by (simp_all add: mach_upd_defs)

lemma kst_sti [simp]:
  "procs (sti c k) = procs k" "nextpid (sti c k) = nextpid k" "initproc (sti c k) = initproc k"
  "ds (sti c k) = ds k" "km (sti c k) = km k" "fsst (sti c k) = fsst k"
  "ncpu (sti c k) = ncpu k" "locks (sti c k) = locks k" "cproc (cpus (sti c k) i) = cproc (cpus k i)"
  "ncli (cpus (sti c k) i) = ncli (cpus k i)"
  by (simp_all add: mach_upd_defs)

lemma wf_mach_upd [simp]:
  "wf_mach (set_proc p f k) = wf_mach k" "wf_mach (k\<lparr>ds := d\<rparr>) = wf_mach k"
  "wf_mach (k\<lparr>km := m\<rparr>) = wf_mach k" "wf_mach (k\<lparr>nextpid := n\<rparr>) = wf_mach k"
  "wf_mach (k\<lparr>fsst := fs\<rparr>) = wf_mach k" "wf_mach (k\<lparr>initproc := p\<rparr>) = wf_mach k"
  by (simp_all add: wf_mach_def)

lemma getAccumulator_upd [simp]:
  "getAccumulator (taken c l k) = getAccumulator k" "getAccumulator (noted c k) = getAccumulator k"
  "getAccumulator (set_cpu c f k) = getAccumulator k" "getAccumulator (k\<lparr>ds := d\<rparr>) = getAccumulator k"
  by (auto simp: getAccumulator_def)

lemma set_slots: "set slots = {1..NPROC}"
  by (auto simp: slots_def)

section \<open>The scheduler's structures, abstractly\<close>

definition a_put :: "(procp \<Rightarrow> int) \<Rightarrow> procp \<Rightarrow> abs_ds \<Rightarrow> abs_ds" where
  "a_put acc p A =
     (if a_free A = 0 then A
      else A\<lparr>a_pq := pq_insert (acc p) p (a_pq A), a_free := a_free A - 1\<rparr>)"

definition a_remove :: "procp \<Rightarrow> abs_ds \<Rightarrow> abs_ds" where
  "a_remove p A =
     (if p \<in> set (a_rp A) then A\<lparr>a_rp := remove1 p (a_rp A), a_free := Suc (a_free A)\<rparr> else A)"

definition a_min :: "(procp \<Rightarrow> int) \<Rightarrow> abs_ds \<Rightarrow> int" where
  "a_min acc A =
     (if a_pq A = [] then 0
      else if a_rp A = [] then fst (hd (a_pq A))
      else min (fst (hd (a_pq A))) (Min (acc ` set (a_rp A))))"

lemma pq_put_eq:
  assumes "ds_rep (ds k) A"
  shows "\<exists>d. pq_put p k = Inr (k\<lparr>ds := d\<rparr>) \<and> ds_rep d (a_put (getAccumulator k) p A)"
proof (cases "a_free A = 0")
  case True
  with putPriorityQueue_full_ref [OF assms True, of "getAccumulator k" p] show ?thesis by (fastforce simp: pq_put_def a_put_def)
next
  case False
  then have "0 < a_free A" by simp
  from putPriorityQueue_ref [OF assms this, of "getAccumulator k" p] False show ?thesis
    by (fastforce simp: pq_put_def a_put_def)
qed

lemma rpholder_remove_eq:
  assumes "ds_rep (ds k) A"
  shows "\<exists>d. rpholder_remove p k = Inr (k\<lparr>ds := d\<rparr>) \<and> ds_rep d (a_remove p A)"
proof (cases "p \<in> set (a_rp A)")
  case True
  with removeRunningProcessHolder_ref [OF assms True] show ?thesis
    by (fastforce simp: rpholder_remove_def a_remove_def)
next
  case False
  with removeRunningProcessHolder_absent_ref [OF assms False] assms show ?thesis
    by (intro exI [of _ "ds k"]) (simp add: rpholder_remove_def a_remove_def)
qed

lemma rpholder_add_eq:
  assumes "ds_rep (ds k) A" and "0 < a_free A"
  shows "\<exists>d. rpholder_add p k = Inr (k\<lparr>ds := d\<rparr>) \<and> ds_rep d (A\<lparr>a_rp := a_rp A @ [p], a_free := a_free A - 1\<rparr>)"
  using addRunningProcessHolder_ref [OF assms, of p] by (fastforce simp: rpholder_add_def)

lemma get_min_eq:
  assumes "ds_rep (ds k) A"
  shows "get_min k = Inr (a_min (getAccumulator k) A)"
  using isEmptyPriorityQueue_ref [OF assms] isEmptyRunningProcessHolder_ref [OF assms]
    getMinAccumulatorPriorityQueue_ref [OF assms]
    getMinAccumulatorRunningProcessHolder_ref [OF assms, of "getAccumulator k"]
  by (auto simp: get_min_def a_min_def Let_def min_def simp del: Min_less_iff Min_gr_iff Min_le_iff Min_ge_iff)

text \<open>Entries of the priority queue and the running list after these operations.\<close>

lemma a_put_simps [simp]: "a_rp (a_put acc p A) = a_rp A" "a_rr (a_put acc p A) = a_rr A"
  by (simp_all add: a_put_def)

lemma a_put_within: "snd ` set (a_pq A) \<subseteq> S \<Longrightarrow> p \<in> S \<Longrightarrow> snd ` set (a_pq (a_put acc p A)) \<subseteq> S"
  by (auto simp: a_put_def)

lemma a_remove_simps [simp]: "a_pq (a_remove p A) = a_pq A" "a_rr (a_remove p A) = a_rr A"
  by (simp_all add: a_remove_def)

lemma a_rp_remove: "distinct (a_rp A) \<Longrightarrow> a_rp (a_remove p A) = remove1 p (a_rp A)"
  by (auto simp: a_remove_def remove1_idem)

text \<open>Putting never takes an entry out, and succeeds while a link is free.\<close>

lemma a_put_mem: "0 < a_free A \<Longrightarrow> p \<in> snd ` set (a_pq (a_put acc p A))"
  by (auto simp: a_put_def)

lemma a_put_mono: "snd ` set (a_pq A) \<subseteq> snd ` set (a_pq (a_put acc p A))"
  by (auto simp: a_put_def)

section \<open>Holding \<^verbatim>\<open>ptable.lock\<close>\<close>

definition held :: "nat \<Rightarrow> 'f kst \<Rightarrow> bool" where
  "held c k \<longleftrightarrow> wf_mach k \<and> c < ncpu k \<and> 0 < ncli (cpus k c) \<and>
     locked (locks k ptable_lock) \<and> lcpu (locks k ptable_lock) = Suc c"

definition lock_free :: "'f kst \<Rightarrow> bool" where
  "lock_free k \<longleftrightarrow> wf_mach k \<and> \<not> locked (locks k ptable_lock)"

lemma held_upd [simp]:
  "held c (set_proc p f k) = held c k" "held c (k\<lparr>ds := d\<rparr>) = held c k"
  "held c (k\<lparr>km := m\<rparr>) = held c k" "held c (k\<lparr>nextpid := n\<rparr>) = held c k"
  "held c (k\<lparr>fsst := fs\<rparr>) = held c k"
  by (simp_all add: held_def)

lemma wf_set_cpu_same:
  assumes "\<And>x. apicid (f x) = apicid x" "\<And>x. lapicid (f x) = lapicid x" "\<And>x. ncli (f x) = ncli x"
    "\<And>x. eflags_IF (f x) = eflags_IF x"
  shows "wf_mach (set_cpu i f k) = wf_mach k"
proof -
  have "apicid (cpus (set_cpu i f k) j) = apicid (cpus k j)" "lapicid (cpus (set_cpu i f k) j) = lapicid (cpus k j)"
    "ncli (cpus (set_cpu i f k) j) = ncli (cpus k j)" "eflags_IF (cpus (set_cpu i f k) j) = eflags_IF (cpus k j)" for j
    using assms by simp_all
  then show ?thesis unfolding wf_mach_def by (simp only: set_cpu_simps(2))
qed

lemma wf_set_cproc [simp]:
  "wf_mach (set_cpu i (\<lambda>x. x\<lparr>cproc := q\<rparr>) k) = wf_mach k"
  "wf_mach (set_cpu i (\<lambda>x. x\<lparr>intena := b\<rparr>) k) = wf_mach k"
  by (rule wf_set_cpu_same; simp)+

lemma held_set_cpu [simp]:
  "held c (set_cpu i (\<lambda>x. x\<lparr>cproc := q\<rparr>) k) = held c k"
  "held c (set_cpu i (\<lambda>x. x\<lparr>intena := b\<rparr>) k) = held c k"
  by (auto simp: held_def)

lemma acquire_held:
  assumes "lock_free k" and "c < ncpu k"
  shows "acquire c ptable_lock k = Inr (taken c ptable_lock k)" "held c (taken c ptable_lock k)"
  using assms acquire_cases [of k c ptable_lock] wf_taken [of k c ptable_lock] ncli_nonneg [of k c]
  by (auto simp: lock_free_def held_def)

lemma release_held:
  assumes "held c k"
  shows "release c ptable_lock k = Inr (freed c ptable_lock k)" "lock_free (freed c ptable_lock k)"
  using assms release_cases [of k c ptable_lock] wf_freed [of k c ptable_lock]
  by (auto simp: lock_free_def held_def)

lemma held_myproc: "held c k \<Longrightarrow> myproc c k = Inr (cproc (cpus k c), k)"
  by (simp add: held_def myproc_eq)

lemma held_holding: "held c k \<Longrightarrow> holding c ptable_lock k = Inr (True, k)"
  by (simp add: held_def holding_eq)

lemma held_mycpu: "held c k \<Longrightarrow> mycpu c k = Inr c \<and> \<not> eflags_IF (cpus k c)"
  by (auto simp: held_def wf_mach_def intro!: mycpu_self)

lemma held_switchuvm:
  assumes "held c k" and "p \<noteq> 0" and "kstack (procs k p) \<noteq> 0" and "pgdir (procs k p) \<noteq> 0"
  shows "switchuvm c p k = Inr k"
proof -
  have h: "wf_mach k" "c < ncpu k" "0 < ncli (cpus k c)" using assms(1) by (simp_all add: held_def)
  note pc = pushcli_eq [OF h(1,2)]
  have "mycpu c (pushed c k) = Inr c" using pc(2) h by (intro mycpu_self) simp_all
  moreover have "popcli c (pushed c k) = Inr k"
    using popcli_eq(1) [OF pc(2), of c] h popped_pushed [OF h(1,2)] by simp
  ultimately show ?thesis using assms pc(1) by (simp add: switchuvm_def)
qed

section \<open>The invariant\<close>

definition on_cpu :: "'f kst \<Rightarrow> procp \<Rightarrow> bool" where
  "on_cpu k p \<longleftrightarrow> (\<exists>c < ncpu k. cproc (cpus k c) = p)"

text \<open>The CPUs and the states of the processes agree; no process is on two CPUs.\<close>

definition cpu_inv :: "'f kst \<Rightarrow> bool" where
  "cpu_inv k \<longleftrightarrow>
     (\<forall>c < ncpu k. cproc (cpus k c) \<noteq> 0 \<longrightarrow> cproc (cpus k c) \<in> set slots) \<and>
     (\<forall>c < ncpu k. \<forall>c' < ncpu k. cproc (cpus k c) = cproc (cpus k c') \<longrightarrow> cproc (cpus k c) \<noteq> 0 \<longrightarrow> c = c') \<and>
     (\<forall>p \<in> set slots. state (procs k p) = RUNNING \<longleftrightarrow> on_cpu k p) \<and>
     (\<forall>c < ncpu k. cproc (cpus k c) = 0 \<longrightarrow> ncli (cpus k c) = 0)"

text \<open>A process that can run has a stack and an address space, and a context that fits its state.\<close>

definition ctx_ok :: "procstate \<Rightarrow> kcont \<Rightarrow> bool" where
  "ctx_ok st x =
     (case st of
        SLEEPING \<Rightarrow> (case x of InSched r i \<Rightarrow> r \<noteq> RYield \<and> r \<noteq> RExit | _ \<Rightarrow> False)
      | RUNNABLE \<Rightarrow> (case x of Forkret \<Rightarrow> True | InSched r i \<Rightarrow> r \<noteq> RExit | _ \<Rightarrow> False)
      | RUNNING \<Rightarrow> (case x of OnCpu \<Rightarrow> True | Reacquire l \<Rightarrow> True | _ \<Rightarrow> False)
      | _ \<Rightarrow> True)"

lemma ctx_ok_simps [simp]:
  "ctx_ok SLEEPING (InSched r i) \<longleftrightarrow> r \<noteq> RYield \<and> r \<noteq> RExit"
  "ctx_ok RUNNABLE Forkret" "ctx_ok RUNNABLE (InSched r i) \<longleftrightarrow> r \<noteq> RExit"
  "ctx_ok RUNNING OnCpu" "ctx_ok RUNNING (Reacquire l)"
  "ctx_ok UNUSED x" "ctx_ok EMBRYO x" "ctx_ok ZOMBIE x"
  by (simp_all add: ctx_ok_def)

definition proc_ok :: "proc \<Rightarrow> bool" where
  "proc_ok x \<longleftrightarrow> ctx_ok (state x) (pcontext x) \<and>
     (state x \<in> {SLEEPING, RUNNABLE, RUNNING} \<longrightarrow> kstack x \<noteq> 0 \<and> pgdir x \<noteq> 0)"

lemma proc_ok_upd [simp]:
  "proc_ok (x\<lparr>priority := a1\<rparr>) = proc_ok x" "proc_ok (x\<lparr>killed := a2\<rparr>) = proc_ok x"
  "proc_ok (x\<lparr>parent := a3\<rparr>) = proc_ok x" "proc_ok (x\<lparr>accumulator := a4\<rparr>) = proc_ok x"
  "proc_ok (x\<lparr>status := a5\<rparr>) = proc_ok x" "proc_ok (x\<lparr>pname := a6\<rparr>) = proc_ok x"
  "proc_ok (x\<lparr>pid := a7\<rparr>) = proc_ok x" "proc_ok (x\<lparr>tf := a8\<rparr>) = proc_ok x"
  "proc_ok (x\<lparr>sz := a9\<rparr>) = proc_ok x" "proc_ok (x\<lparr>ofile := b1\<rparr>) = proc_ok x"
  "proc_ok (x\<lparr>cwd := b2\<rparr>) = proc_ok x" "proc_ok (x\<lparr>pchan := b3\<rparr>) = proc_ok x"
  by (simp_all add: proc_ok_def)

definition kinv :: "'f kst \<Rightarrow> abs_ds \<Rightarrow> bool" where
  "kinv k A \<longleftrightarrow> lock_free k \<and> cpu_inv k \<and> (\<forall>p \<in> set slots. proc_ok (procs k p)) \<and>
     ds_rep (ds k) A \<and> snd ` set (a_pq A) \<subseteq> set slots \<and>
     distinct (a_rp A) \<and> set (a_rp A) = {p \<in> set slots. on_cpu k p}"

lemma cpu_inv_slot: "cpu_inv k \<Longrightarrow> c < ncpu k \<Longrightarrow> cproc (cpus k c) \<noteq> 0 \<Longrightarrow> cproc (cpus k c) \<in> set slots"
  by (drule cpu_inv_def [THEN iffD1, THEN conjunct1]) blast

lemma cpu_inv_uniq:
  "cpu_inv k \<Longrightarrow> a < ncpu k \<Longrightarrow> b < ncpu k \<Longrightarrow> cproc (cpus k a) = cproc (cpus k b) \<Longrightarrow> cproc (cpus k a) \<noteq> 0 \<Longrightarrow> a = b"
  by (drule cpu_inv_def [THEN iffD1, THEN conjunct2, THEN conjunct1]) blast

lemma cpu_inv_running: "cpu_inv k \<Longrightarrow> p \<in> set slots \<Longrightarrow> state (procs k p) = RUNNING \<longleftrightarrow> on_cpu k p"
  by (drule cpu_inv_def [THEN iffD1, THEN conjunct2, THEN conjunct2, THEN conjunct1]) blast

lemma cpu_inv_idle: "cpu_inv k \<Longrightarrow> c < ncpu k \<Longrightarrow> cproc (cpus k c) = 0 \<Longrightarrow> ncli (cpus k c) = 0"
  by (drule cpu_inv_def [THEN iffD1, THEN conjunct2, THEN conjunct2, THEN conjunct2]) blast

lemma kinvD:
  assumes "kinv k A"
  shows "lock_free k" "cpu_inv k" "\<And>p. p \<in> set slots \<Longrightarrow> proc_ok (procs k p)" "ds_rep (ds k) A"
    "snd ` set (a_pq A) \<subseteq> set slots" "distinct (a_rp A)" "set (a_rp A) = {p \<in> set slots. on_cpu k p}"
  using assms by (simp_all only: kinv_def)

lemma slots_nonnull: "p \<in> set slots \<Longrightarrow> p \<noteq> 0"
  by (simp add: set_slots)

lemma kinv_slot:
  assumes "kinv k A" and "c < ncpu k" and "cproc (cpus k c) = p" and "p \<noteq> 0"
  shows "p \<in> set slots" "state (procs k p) = RUNNING" "p \<in> set (a_rp A)" "proc_ok (procs k p)"
proof -
  show s: "p \<in> set slots" using cpu_inv_slot [OF kinvD(2) [OF assms(1)] assms(2)] assms(3,4) by blast
  have o: "on_cpu k p" using assms(2,3) by (auto simp: on_cpu_def)
  show "state (procs k p) = RUNNING" using cpu_inv_running [OF kinvD(2) [OF assms(1)] s] o by blast
  show "p \<in> set (a_rp A)" using kinvD(7) [OF assms(1)] s o by blast
  show "proc_ok (procs k p)" by (rule kinvD(3) [OF assms(1) s])
qed

end
