(* ===== verification/ProcYield.thy ===== *)
theory ProcYield
  imports ProcInv
begin

text \<open>
  The sections of \<^verbatim>\<open>proc.c\<close> that give up the CPU (\<^verbatim>\<open>sched\<close> with its callers
  \<^verbatim>\<open>yield\<close>, \<^verbatim>\<open>sleep\<close> and \<^verbatim>\<open>exit\<close>): none of them panics, and each keeps
  the invariant.
\<close>

section \<open>The scheduler's half\<close>

definition bump_acc :: "procp \<Rightarrow> 'f kst \<Rightarrow> 'f kst" where
  "bump_acc p k =
     (if state (procs k p) = RUNNABLE
      then set_proc p (\<lambda>x. x\<lparr>accumulator := s64 (accumulator x + priority x)\<rparr>) k else k)"

definition a_back :: "'f kst \<Rightarrow> procp \<Rightarrow> abs_ds \<Rightarrow> abs_ds" where
  "a_back k p A =
     (if state (procs k p) = RUNNABLE then a_put (getAccumulator (bump_acc p k)) p (a_remove p A) else a_remove p A)"

lemma bump_acc_simps [simp]:
  "ds (bump_acc p k) = ds k" "ncpu (bump_acc p k) = ncpu k" "cpus (bump_acc p k) = cpus k"
  "locks (bump_acc p k) = locks k" "held c (bump_acc p k) = held c k" "wf_mach (bump_acc p k) = wf_mach k"
  "nextpid (bump_acc p k) = nextpid k" "initproc (bump_acc p k) = initproc k"
  "km (bump_acc p k) = km k" "fsst (bump_acc p k) = fsst k"
  "state (procs (bump_acc p k) q) = state (procs k q)"
  "pcontext (procs (bump_acc p k) q) = pcontext (procs k q)"
  "proc_ok (procs (bump_acc p k) q) = proc_ok (procs k q)"
  by (simp_all add: bump_acc_def proc_ok_def)

lemma back_eq:
  assumes h: "held c k" and A: "ds_rep (ds k) A"
  shows "\<exists>d. Priority_Scheduler_back c p k =
      Inr (freed c ptable_lock ((bump_acc p (set_cpu c (\<lambda>x. x\<lparr>cproc := 0\<rparr>) k))\<lparr>ds := d\<rparr>)) \<and>
    ds_rep d (a_back k p A)"
proof -
  let ?k = "set_cpu c (\<lambda>x. x\<lparr>cproc := 0\<rparr>) k"
  have "ds_rep (ds ?k) A" using A by simp
  from rpholder_remove_eq [OF this, of p] obtain d1 where
    1: "rpholder_remove p ?k = Inr (?k\<lparr>ds := d1\<rparr>)" "ds_rep d1 (a_remove p A)" by blast
  show ?thesis
  proof (cases "state (procs k p) = RUNNABLE")
    case False
    then show ?thesis using 1 h release_held(1) [of c "?k\<lparr>ds := d1\<rparr>"]
      by (intro exI [of _ d1]) (simp add: Priority_Scheduler_back_def bump_acc_def a_back_def)
  next
    case True
    let ?b = "set_proc p (\<lambda>x. x\<lparr>accumulator := s64 (accumulator x + priority x)\<rparr>) (?k\<lparr>ds := d1\<rparr>)"
    have "ds_rep (ds ?b) (a_remove p A)" using 1 by simp
    from pq_put_eq [OF this, of p] obtain d2 where
      2: "pq_put p ?b = Inr (?b\<lparr>ds := d2\<rparr>)" "ds_rep d2 (a_put (getAccumulator ?b) p (a_remove p A))" by blast
    have "getAccumulator ?b = getAccumulator (bump_acc p k)"
      using True by (auto simp: getAccumulator_def bump_acc_def)
    moreover have "?b\<lparr>ds := d2\<rparr> = (bump_acc p ?k)\<lparr>ds := d2\<rparr>" using True by (simp add: bump_acc_def set_proc_def)
    moreover have "release c ptable_lock (?b\<lparr>ds := d2\<rparr>) = Inr (freed c ptable_lock (?b\<lparr>ds := d2\<rparr>))"
      using h by (intro release_held(1)) simp
    ultimately show ?thesis using 1 2 True
      by (intro exI [of _ d2]) (simp add: Priority_Scheduler_back_def a_back_def)
  qed
qed

lemma sched_eq:
  assumes h: "held c k" and n: "ncli (cpus k c) = 1" and p: "cproc (cpus k c) = p"
    and st: "state (procs k p) \<noteq> RUNNING"
  shows "sched c r k =
    Priority_Scheduler_back c p (set_proc p (\<lambda>x. x\<lparr>pcontext := InSched r (intena (cpus k c))\<rparr>) k)"
  using held_myproc [OF h] held_holding [OF h] held_mycpu [OF h] n p st by (simp add: sched_def)

section \<open>Leaving a CPU keeps the invariant\<close>

definition left_cpu :: "nat \<Rightarrow> 'f kst \<Rightarrow> 'f kst \<Rightarrow> bool" where
  "left_cpu c k k' \<longleftrightarrow> lock_free k' \<and> ncpu k' = ncpu k \<and>
     (\<forall>i. cproc (cpus k' i) = (if i = c then 0 else cproc (cpus k i))) \<and>
     (\<forall>i. ncli (cpus k' i) = (if i = c then 0 else ncli (cpus k i)))"

lemma kinv_leave:
  fixes k k' :: "'f kst"
  assumes inv: "kinv k A" and c: "c < ncpu k" "cproc (cpus k c) = p" "p \<noteq> 0" and l: "left_cpu c k k'"
    and st: "state (procs k' p) \<noteq> RUNNING"
      "\<And>q. q \<in> set slots \<Longrightarrow> q \<noteq> p \<Longrightarrow> state (procs k' q) = RUNNING \<longleftrightarrow> state (procs k q) = RUNNING"
    and ok: "\<And>q. q \<in> set slots \<Longrightarrow> proc_ok (procs k' q)"
    and A: "ds_rep (ds k') A'" "snd ` set (a_pq A') \<subseteq> set slots" "a_rp A' = remove1 p (a_rp A)"
  shows "kinv k' A'"
proof -
  note ci = kinvD(2) [OF inv] and rp = kinvD(6,7) [OF inv]
  note sl = cpu_inv_slot [OF ci] and uniq = cpu_inv_uniq [OF ci] and run = cpu_inv_running [OF ci]
    and idle = cpu_inv_idle [OF ci]
  have n: "ncpu k' = ncpu k" and cp: "\<And>a. cproc (cpus k' a) = (if a = c then 0 else cproc (cpus k a))"
    and nc: "\<And>a. ncli (cpus k' a) = (if a = c then 0 else ncli (cpus k a))"
    using l by (simp_all add: left_cpu_def)
  have oc: "on_cpu k' q \<longleftrightarrow> on_cpu k q \<and> q \<noteq> p" if q: "q \<noteq> 0" for q
  proof
    assume "on_cpu k' q"
    then obtain a where a: "a < ncpu k" "a \<noteq> c" "cproc (cpus k a) = q"
      using q by (auto simp: on_cpu_def n cp split: if_splits)
    moreover have "q \<noteq> p" using uniq [OF a(1) c(1)] a c q by auto
    ultimately show "on_cpu k q \<and> q \<noteq> p" by (auto simp: on_cpu_def)
  next
    assume "on_cpu k q \<and> q \<noteq> p"
    then obtain a where "a < ncpu k" "cproc (cpus k a) = q" "a \<noteq> c" using c by (auto simp: on_cpu_def)
    then show "on_cpu k' q" by (auto simp: on_cpu_def n cp)
  qed
  note nz = slots_nonnull
  have "cpu_inv k'" unfolding cpu_inv_def
  proof (intro conjI ballI allI impI)
    show "state (procs k' q) = RUNNING \<longleftrightarrow> on_cpu k' q" if q: "q \<in> set slots" for q
      using st run [OF q] oc [OF nz [OF q]] q by (cases "q = p") auto
    show "a = b" if "a < ncpu k'" "b < ncpu k'" "cproc (cpus k' a) = cproc (cpus k' b)" "cproc (cpus k' a) \<noteq> 0" for a b
      using uniq [of a b] that by (simp add: n cp split: if_splits)
    show "cproc (cpus k' a) \<in> set slots" if "a < ncpu k'" "cproc (cpus k' a) \<noteq> 0" for a
      using sl [of a] that by (simp add: n cp split: if_splits)
    show "ncli (cpus k' a) = 0" if "a < ncpu k'" "cproc (cpus k' a) = 0" for a
      using idle [of a] that by (simp add: n cp nc split: if_splits)
  qed
  moreover have "distinct (a_rp A')" using rp A(3) by (simp add: distinct_remove1)
  moreover have "set (a_rp A') = {q \<in> set slots. on_cpu k' q}"
    using rp A(3) oc nz by (auto simp: set_remove1_eq)
  ultimately show ?thesis using l ok A by (simp add: kinv_def left_cpu_def)
qed

lemma a_remove_remove:
  "distinct (a_rp A) \<Longrightarrow> a_rp A' = a_rp (a_remove p A) \<Longrightarrow> a_remove p A' = A'"
  by (auto simp: a_remove_def)

lemma left_cpuI:
  fixes k k1 :: "'f kst"
  assumes h: "held c k1" and n: "ncli (cpus k1 c) = 1" and nk: "ncpu k1 = ncpu k"
    and cp: "\<And>i. cproc (cpus k1 i) = cproc (cpus k i)"
    and nc: "\<And>i. i \<noteq> c \<Longrightarrow> ncli (cpus k1 i) = ncli (cpus k i)"
  shows "left_cpu c k (freed c ptable_lock ((bump_acc p (set_cpu c (\<lambda>x. x\<lparr>cproc := 0\<rparr>) k1))\<lparr>ds := d\<rparr>))"
proof -
  have "lock_free (freed c ptable_lock ((bump_acc p (set_cpu c (\<lambda>x. x\<lparr>cproc := 0\<rparr>) k1))\<lparr>ds := d\<rparr>))"
    using h by (intro release_held(2)) simp
  then show ?thesis using n nk cp nc by (simp add: left_cpu_def)
qed

text \<open>The process leaves the CPU through \<^verbatim>\<open>sched\<close> from a section of its own.\<close>

lemma sched_kinv:
  fixes k k1 :: "'f kst"
  assumes inv: "kinv k A" and c: "c < ncpu k" "cproc (cpus k c) = p" "p \<noteq> 0"
    and h: "held c k1" and n: "ncli (cpus k1 c) = 1" and nk: "ncpu k1 = ncpu k"
    and cp: "\<And>i. cproc (cpus k1 i) = cproc (cpus k i)"
    and nc: "\<And>i. i \<noteq> c \<Longrightarrow> ncli (cpus k1 i) = ncli (cpus k i)"
    and st: "state (procs k1 p) \<noteq> RUNNING"
      "\<And>q. q \<in> set slots \<Longrightarrow> q \<noteq> p \<Longrightarrow> state (procs k1 q) = RUNNING \<longleftrightarrow> state (procs k q) = RUNNING"
    and ok: "\<And>q. q \<in> set slots \<Longrightarrow> q \<noteq> p \<Longrightarrow> proc_ok (procs k1 q)"
      "\<And>i. proc_ok ((procs k1 p)\<lparr>pcontext := InSched r i\<rparr>)"
    and A: "ds_rep (ds k1) A1" "snd ` set (a_pq A1) \<subseteq> set slots" "remove1 p (a_rp A1) = remove1 p (a_rp A)"
      "distinct (a_rp A1)"
  shows "\<exists>k'. sched c r k1 = Inr k' \<and> kinv k' (a_back k1 p A1) \<and>
    (\<forall>l. l \<noteq> ptable_lock \<longrightarrow> locks k' l = locks k1 l) \<and> cproc (cpus k' c) = 0 \<and>
    procs k' = (procs (bump_acc p k1))(p := (procs (bump_acc p k1) p)\<lparr>pcontext := InSched r (intena (cpus k1 c))\<rparr>)"
proof -
  let ?k2 = "set_proc p (\<lambda>x. x\<lparr>pcontext := InSched r (intena (cpus k1 c))\<rparr>) k1"
  have s: "sched c r k1 = Priority_Scheduler_back c p ?k2"
    using h n st(1) cp c(2) by (intro sched_eq) simp_all
  have h2: "held c ?k2" "ds_rep (ds ?k2) A1" using h A(1) by simp_all
  from back_eq [OF h2, of p] obtain d where
    b: "Priority_Scheduler_back c p ?k2 =
      Inr (freed c ptable_lock ((bump_acc p (set_cpu c (\<lambda>x. x\<lparr>cproc := 0\<rparr>) ?k2))\<lparr>ds := d\<rparr>))" (is "_ = Inr ?k'")
    and d: "ds_rep d (a_back ?k2 p A1)" by blast
  have ga: "getAccumulator (bump_acc p ?k2) = getAccumulator (bump_acc p k1)"
    by (auto simp: getAccumulator_def bump_acc_def)
  then have ab: "a_back ?k2 p A1 = a_back k1 p A1" by (simp add: a_back_def)
  have P: "procs ?k' = (procs (bump_acc p k1))(p := (procs (bump_acc p k1) p)\<lparr>pcontext := InSched r (intena (cpus k1 c))\<rparr>)"
    by (auto simp: bump_acc_def)
  have l: "left_cpu c k ?k'" using h n nk cp nc by (intro left_cpuI) simp_all
  have pq: "snd ` set (a_pq (a_back k1 p A1)) \<subseteq> set slots"
    using A(2) kinv_slot(1) [OF inv c] by (simp add: a_back_def a_put_within)
  have rp: "a_rp (a_back k1 p A1) = remove1 p (a_rp A)"
    using A(3) a_rp_remove [OF A(4), of p] by (simp add: a_back_def)
  have "kinv ?k' (a_back k1 p A1)"
  proof (rule kinv_leave [OF inv c l _ _ _ _ pq rp])
    show "state (procs ?k' p) \<noteq> RUNNING" using st(1) by simp
    show "state (procs ?k' q) = RUNNING \<longleftrightarrow> state (procs k q) = RUNNING" if "q \<in> set slots" "q \<noteq> p" for q
      using st(2) [OF that] that(2) by simp
    show "proc_ok (procs ?k' q)" if "q \<in> set slots" for q
      using ok(1) [OF that] ok(2) by (cases "q = p") simp_all
    show "ds_rep (ds ?k') (a_back k1 p A1)" using d ab by simp
  qed
  then show ?thesis using s b P by (intro exI [of _ ?k']) simp
qed

section \<open>\<^verbatim>\<open>yield\<close>\<close>

lemma kinv_taken:
  assumes "kinv k A" and "c < ncpu k"
  shows "acquire c ptable_lock k = Inr (taken c ptable_lock k)" "held c (taken c ptable_lock k)"
  using acquire_held [OF kinvD(1) [OF assms(1)] assms(2)] by simp_all

lemma yield_ok:
  assumes inv: "kinv k A" and c: "c < ncpu k" "cproc (cpus k c) = p" "p \<noteq> 0" and n: "ncli (cpus k c) = 0"
  shows "\<exists>k' i. yield c k = Inr k' \<and> cproc (cpus k' c) = 0 \<and>
    procs k' = (procs k)(p := (procs k p)\<lparr>state := RUNNABLE,
       accumulator := s64 (accumulator (procs k p) + priority (procs k p)), pcontext := InSched RYield i\<rparr>) \<and>
    kinv k' (a_put (getAccumulator k') p (a_put (getAccumulator k) p (a_remove p A)))"
proof -
  note sl = kinv_slot [OF inv c] and D = kinvD [OF inv]
  let ?k1 = "taken c ptable_lock k"
  note t = kinv_taken [OF inv c(1)]
  let ?k2 = "set_proc p (\<lambda>x. x\<lparr>state := RUNNABLE\<rparr>) ?k1"
  have my: "myproc c ?k1 = Inr (p, ?k1)" using held_myproc [OF t(2)] c(2) by simp
  have "ds_rep (ds ?k2) A" using D(4) by simp
  from rpholder_remove_eq [OF this, of p] obtain d1 where
    1: "rpholder_remove p ?k2 = Inr (?k2\<lparr>ds := d1\<rparr>)" "ds_rep d1 (a_remove p A)" by blast
  then have "ds_rep (ds (?k2\<lparr>ds := d1\<rparr>)) (a_remove p A)" by simp
  from pq_put_eq [OF this, of p] obtain d2 where
    2: "pq_put p (?k2\<lparr>ds := d1\<rparr>) = Inr (?k2\<lparr>ds := d2\<rparr>)"
    "ds_rep d2 (a_put (getAccumulator ?k2) p (a_remove p A))" by auto
  have ga: "getAccumulator ?k2 = getAccumulator k" by (auto simp: getAccumulator_def)
  let ?k3 = "?k2\<lparr>ds := d2\<rparr>" and ?A3 = "a_put (getAccumulator k) p (a_remove p A)"
  have "\<exists>k'. sched c RYield ?k3 = Inr k' \<and> kinv k' (a_back ?k3 p ?A3) \<and>
    (\<forall>l. l \<noteq> ptable_lock \<longrightarrow> locks k' l = locks ?k3 l) \<and> cproc (cpus k' c) = 0 \<and>
    procs k' = (procs (bump_acc p ?k3))(p := (procs (bump_acc p ?k3) p)\<lparr>pcontext := InSched RYield (intena (cpus ?k3 c))\<rparr>)"
  proof (rule sched_kinv [OF inv c])
    show "held c ?k3" using t(2) by simp
    show "proc_ok (procs ?k3 q)" if "q \<in> set slots" "q \<noteq> p" for q using D(3) [OF that(1)] that(2) by simp
    show "proc_ok ((procs ?k3 p)\<lparr>pcontext := InSched RYield i\<rparr>)" for i using sl(2,4) by (simp add: proc_ok_def)
    show "ds_rep (ds ?k3) ?A3" using 2(2) ga by simp
    show "snd ` set (a_pq ?A3) \<subseteq> set slots"
      using D(5) sl(1) by (simp add: a_put_within)
    show "remove1 p (a_rp ?A3) = remove1 p (a_rp A)" "distinct (a_rp ?A3)"
      using a_rp_remove [OF D(6), of p] D(6) by (simp_all add: distinct_remove1 remove1_idem)
  qed (use n in simp_all)
  then obtain k' where k': "sched c RYield ?k3 = Inr k'" "kinv k' (a_back ?k3 p ?A3)" "cproc (cpus k' c) = 0"
    "procs k' = (procs (bump_acc p ?k3))(p := (procs (bump_acc p ?k3) p)\<lparr>pcontext := InSched RYield (intena (cpus ?k3 c))\<rparr>)"
    by blast
  have "getAccumulator (bump_acc p ?k3) = getAccumulator k'"
    using k'(4) by (auto simp: getAccumulator_def)
  then have "a_back ?k3 p ?A3 = a_put (getAccumulator k') p ?A3"
    using a_remove_remove [OF D(6), of ?A3 p] by (simp add: a_back_def)
  moreover have "yield c k = Inr k'" using t(1) my 1(1) 2(1) k'(1) by (simp add: yield_def)
  moreover have "procs k' = (procs k)(p := (procs k p)\<lparr>state := RUNNABLE,
       accumulator := s64 (accumulator (procs k p) + priority (procs k p)), pcontext := InSched RYield (intena (cpus ?k3 c))\<rparr>)"
    using k'(4) by (simp add: bump_acc_def)
  ultimately show ?thesis using k' by (intro exI [of _ k'] exI [of _ "intena (cpus ?k3 c)"]) simp
qed

end
