(* ===== verification/ProcWake.thy ===== *)
theory ProcWake
  imports ProcYield
begin

text \<open>
  Waking up (\<^verbatim>\<open>wakeup1\<close>, \<^verbatim>\<open>wakeup\<close>, \<^verbatim>\<open>kill\<close>), sleeping and exiting.
\<close>

section \<open>\<^verbatim>\<open>wakeup1\<close>\<close>

lemma wake_eq:
  assumes "ds_rep (ds k) A"
  shows "\<exists>d. wake p k =
      Inr ((set_proc p (\<lambda>x. x\<lparr>state := RUNNABLE, accumulator := a_min (getAccumulator k) A\<rparr>) k)\<lparr>ds := d\<rparr>) \<and>
    ds_rep d (a_put (\<lambda>_. a_min (getAccumulator k) A) p A)"
proof -
  let ?k1 = "set_proc p (\<lambda>x. x\<lparr>state := RUNNABLE\<rparr>) k" and ?a = "a_min (getAccumulator k) A"
  let ?k2 = "set_proc p (\<lambda>x. x\<lparr>accumulator := ?a\<rparr>) ?k1"
  have "getAccumulator ?k1 = getAccumulator k" by (auto simp: getAccumulator_def)
  then have g: "get_min ?k1 = Inr ?a" using get_min_eq [of ?k1 A] assms by simp
  have "ds_rep (ds ?k2) A" using assms by simp
  from pq_put_eq [OF this, of p] obtain d where
    d: "pq_put p ?k2 = Inr (?k2\<lparr>ds := d\<rparr>)" "ds_rep d (a_put (getAccumulator ?k2) p A)" by blast
  have e: "a_put (getAccumulator ?k2) p A = a_put (\<lambda>_. ?a) p A" by (simp add: a_put_def getAccumulator_def)
  note d' = d(2) [unfolded e]
  have "?k2 = set_proc p (\<lambda>x. x\<lparr>state := RUNNABLE, accumulator := ?a\<rparr>) k" by (simp add: set_proc_def)
  then show ?thesis using g d(1) d' by (intro exI [of _ d]) (simp add: wake_def Let_def)
qed

definition sleeper :: "chan \<Rightarrow> proc \<Rightarrow> bool" where
  "sleeper ch x \<longleftrightarrow> state x = SLEEPING \<and> pchan x = ch"

text \<open>
  The sleepers on the channel among \<open>ps\<close> become runnable, with some accumulator;
  nothing else changes in the table. With enough free links each of them is queued.
\<close>

definition woken ::
  "chan \<Rightarrow> procp list \<Rightarrow> (procp \<Rightarrow> proc) \<Rightarrow> abs_ds \<Rightarrow> (procp \<Rightarrow> proc) \<Rightarrow> abs_ds \<Rightarrow> bool" where
  "woken ch ps P A P' A' \<longleftrightarrow>
     (\<forall>q. if q \<in> set ps \<and> sleeper ch (P q)
          then \<exists>a. P' q = (P q)\<lparr>state := RUNNABLE, accumulator := a\<rparr> else P' q = P q) \<and>
     a_rp A' = a_rp A \<and> a_rr A' = a_rr A \<and> snd ` set (a_pq A) \<subseteq> snd ` set (a_pq A') \<and>
     snd ` set (a_pq A') \<subseteq> snd ` set (a_pq A) \<union> {q \<in> set ps. sleeper ch (P q)} \<and>
     a_free A' = a_free A - length (filter (\<lambda>q. sleeper ch (P q)) ps) \<and>
     (length (filter (\<lambda>q. sleeper ch (P q)) ps) \<le> a_free A \<longrightarrow>
       {q \<in> set ps. sleeper ch (P q)} \<subseteq> snd ` set (a_pq A'))"

lemma woken_skip: "\<not> sleeper ch (P p) \<Longrightarrow> woken ch ps P A P' A' \<Longrightarrow> woken ch (p # ps) P A P' A'"
  unfolding woken_def by (auto split: if_splits)

lemma woken_wake:
  assumes p: "sleeper ch (P p)" "p \<notin> set ps"
    and P1: "P1 = P(p := (P p)\<lparr>state := RUNNABLE, accumulator := a\<rparr>)" and A1: "A1 = a_put (\<lambda>_. b) p A"
    and w: "woken ch ps P1 A1 P' A'"
  shows "woken ch (p # ps) P A P' A'"
proof -
  have s: "sleeper ch (P1 q) \<longleftrightarrow> q \<noteq> p \<and> sleeper ch (P q)" for q
    by (simp add: P1 sleeper_def)
  have f: "filter (\<lambda>q. sleeper ch (P1 q)) ps = filter (\<lambda>q. sleeper ch (P q)) ps"
    using p(2) by (intro filter_cong) (auto simp: s)
  have e: "{q \<in> set ps. sleeper ch (P1 q)} = {q \<in> set ps. sleeper ch (P q)}" using p(2) by (auto simp: s)
  have a: "snd ` set (a_pq A) \<subseteq> snd ` set (a_pq A1)" "snd ` set (a_pq A1) \<subseteq> insert p (snd ` set (a_pq A))"
    "0 < a_free A \<Longrightarrow> p \<in> snd ` set (a_pq A1)" "a_free A1 = a_free A - 1" "a_rp A1 = a_rp A" "a_rr A1 = a_rr A"
    by (auto simp: A1 a_put_def)
  note w' = w [unfolded woken_def f e]
  have "if q \<in> set (p # ps) \<and> sleeper ch (P q) then \<exists>a. P' q = (P q)\<lparr>state := RUNNABLE, accumulator := a\<rparr>
        else P' q = P q" for q
    using w' [THEN conjunct1, rule_format, of q] p by (cases "q = p") (auto simp: P1 s sleeper_def split: if_splits)
  moreover let ?E = "{q \<in> set ps. sleeper ch (P q)}" and ?n = "length (filter (\<lambda>q. sleeper ch (P q)) ps)"
  have E: "{q \<in> set (p # ps). sleeper ch (P q)} = insert p ?E" using p(1) by auto
  have n: "length (filter (\<lambda>q. sleeper ch (P q)) (p # ps)) = Suc ?n" using p(1) by simp
  have w2: "a_rp A' = a_rp A1" "a_rr A' = a_rr A1" "snd ` set (a_pq A1) \<subseteq> snd ` set (a_pq A')"
    "snd ` set (a_pq A') \<subseteq> snd ` set (a_pq A1) \<union> ?E" "a_free A' = a_free A1 - ?n"
    "?n \<le> a_free A1 \<Longrightarrow> ?E \<subseteq> snd ` set (a_pq A')" using w' by blast+
  have "insert p ?E \<subseteq> snd ` set (a_pq A')" if "Suc ?n \<le> a_free A"
    using w2(3,6) a(3,4) that by (auto simp: subset_iff)
  moreover have "snd ` set (a_pq A') \<subseteq> snd ` set (a_pq A) \<union> insert p ?E" using w2(4) a(2) by blast
  moreover have "snd ` set (a_pq A) \<subseteq> snd ` set (a_pq A')" using w2(3) a(1) by blast
  moreover have "a_free A' = a_free A - Suc ?n" using w2(5) a(4) by simp
  ultimately show ?thesis unfolding woken_def E n using w2(1,2) a(5,6) by simp
qed

lemma wakeup1_loop_eq:
  assumes "ds_rep (ds k) A" and "distinct ps"
  shows "\<exists>P d A'. wakeup1_loop ch ps k = Inr (k\<lparr>procs := P, ds := d\<rparr>) \<and> ds_rep d A' \<and> woken ch ps (procs k) A P A'"
  using assms
proof (induction ps arbitrary: k A)
  case Nil
  have "woken ch [] (procs k) A (procs k) A" by (simp add: woken_def)
  then show ?case using Nil(1) by (intro exI [of _ "procs k"] exI [of _ "ds k"] exI [of _ A]) simp
next
  case (Cons p ps)
  show ?case
  proof (cases "sleeper ch (procs k p)")
    case False
    with Cons.IH [OF Cons.prems(1)] Cons.prems(2) woken_skip [of ch "procs k" p ps A] show ?thesis
      by (fastforce simp: sleeper_def)
  next
    case True
    let ?a = "a_min (getAccumulator k) A"
    from wake_eq [OF Cons.prems(1), of p] obtain d where
      w: "wake p k = Inr ((set_proc p (\<lambda>x. x\<lparr>state := RUNNABLE, accumulator := ?a\<rparr>) k)\<lparr>ds := d\<rparr>)" (is "_ = Inr ?k1")
      and d: "ds_rep d (a_put (\<lambda>_. ?a) p A)" by blast
    have "ds_rep (ds ?k1) (a_put (\<lambda>_. ?a) p A)" using d by simp
    moreover have "distinct ps" using Cons.prems(2) by simp
    ultimately obtain P d' A' where
      r: "wakeup1_loop ch ps ?k1 = Inr (?k1\<lparr>procs := P, ds := d'\<rparr>)" and A': "ds_rep d' A'"
      and wk: "woken ch ps (procs ?k1) (a_put (\<lambda>_. ?a) p A) P A'" using Cons.IH by blast
    have "woken ch (p # ps) (procs k) A P A'"
      using Cons.prems(2) 
        woken_wake [of ch "procs k" p ps "procs ?k1" ?a "a_put (\<lambda>_. ?a) p A" ?a A P A'] True wk by simp
    moreover have "?k1\<lparr>procs := P, ds := d'\<rparr> = k\<lparr>procs := P, ds := d'\<rparr>" by (simp add: set_proc_def)
    moreover have "wakeup1_loop ch (p # ps) k = wakeup1_loop ch ps ?k1"
      using True w by (simp add: sleeper_def)
    ultimately show ?thesis using r A' by (intro exI [of _ P] exI [of _ d'] exI [of _ A']) simp
  qed
qed

lemma distinct_slots: "distinct slots"
  by (simp add: slots_def)

lemma wakeup1_eq:
  assumes "ds_rep (ds k) A"
  shows "\<exists>P d A'. wakeup1 ch k = Inr (k\<lparr>procs := P, ds := d\<rparr>) \<and> ds_rep d A' \<and> woken ch slots (procs k) A P A'"
  using wakeup1_loop_eq [OF assms distinct_slots] by (simp add: wakeup1_def)

section \<open>Sections that keep the CPU\<close>

lemma held_cong: "cpus k = cpus k' \<Longrightarrow> locks k = locks k' \<Longrightarrow> ncpu k = ncpu k' \<Longrightarrow> held c k = held c k'"
  by (simp add: held_def wf_mach_def)

lemma kinv_stay:
  fixes k k' :: "'f kst"
  assumes inv: "kinv k A" and l: "lock_free k'" "ncpu k' = ncpu k"
    and cp: "\<And>i. cproc (cpus k' i) = cproc (cpus k i)" and nc: "\<And>i. cproc (cpus k i) = 0 \<Longrightarrow> ncli (cpus k' i) = ncli (cpus k i)"
    and st: "\<And>q. q \<in> set slots \<Longrightarrow> state (procs k' q) = RUNNING \<longleftrightarrow> state (procs k q) = RUNNING"
    and ok: "\<And>q. q \<in> set slots \<Longrightarrow> proc_ok (procs k' q)"
    and A: "ds_rep (ds k') A'" "snd ` set (a_pq A') \<subseteq> set slots" "a_rp A' = a_rp A"
  shows "kinv k' A'"
proof -
  have oc: "on_cpu k' q = on_cpu k q" for q by (simp add: on_cpu_def l cp)
  note ci = kinvD(2) [OF inv]
  have "cpu_inv k'" unfolding cpu_inv_def l(2) cp oc
    using cpu_inv_slot [OF ci] cpu_inv_uniq [OF ci] cpu_inv_running [OF ci] cpu_inv_idle [OF ci] st nc by simp
  then show ?thesis using kinvD(6,7) [OF inv] l ok A oc by (simp add: kinv_def)
qed

lemma kinv_section:
  fixes k k2 :: "'f kst"
  assumes inv: "kinv k A" and c: "c < ncpu k"
    and k2: "cpus k2 = cpus (taken c ptable_lock k)" "locks k2 = locks (taken c ptable_lock k)" "ncpu k2 = ncpu k"
    and st: "\<And>q. q \<in> set slots \<Longrightarrow> state (procs k2 q) = RUNNING \<longleftrightarrow> state (procs k q) = RUNNING"
    and ok: "\<And>q. q \<in> set slots \<Longrightarrow> proc_ok (procs k2 q)"
    and A: "ds_rep (ds k2) A'" "snd ` set (a_pq A') \<subseteq> set slots" "a_rp A' = a_rp A"
  shows "release c ptable_lock k2 = Inr (freed c ptable_lock k2)" "kinv (freed c ptable_lock k2) A'"
proof -
  have "held c k2 = held c (taken c ptable_lock k)" using k2 by (intro held_cong) simp_all
  then have h: "held c k2" using kinv_taken(2) [OF inv c] by simp
  show "release c ptable_lock k2 = Inr (freed c ptable_lock k2)" by (rule release_held(1) [OF h])
  show "kinv (freed c ptable_lock k2) A'"
  proof (rule kinv_stay [OF inv release_held(2) [OF h]])
    show "ncli (cpus (freed c ptable_lock k2) i) = ncli (cpus k i)" for i
      using k2(1) by simp
    show "cproc (cpus (freed c ptable_lock k2) i) = cproc (cpus k i)" for i
      using k2(1) by simp
  qed (use k2 st ok A in simp_all)
qed

lemma woken_state:
  assumes "woken ch ps P A P' A'"
  shows "state (P' q) = RUNNING \<longleftrightarrow> state (P q) = RUNNING" "proc_ok (P q) \<Longrightarrow> proc_ok (P' q)"
proof -
  have *: "if q \<in> set ps \<and> sleeper ch (P q) then \<exists>a. P' q = (P q)\<lparr>state := RUNNABLE, accumulator := a\<rparr> else P' q = P q"
    using assms unfolding woken_def by blast
  then show "state (P' q) = RUNNING \<longleftrightarrow> state (P q) = RUNNING" by (auto simp: sleeper_def split: if_splits)
  show "proc_ok (P' q)" if "proc_ok (P q)"
    using * that by (auto simp: sleeper_def proc_ok_def ctx_ok_def split: if_splits kcont.splits)
qed

lemma woken_within:
  "woken ch ps P A P' A' \<Longrightarrow> snd ` set (a_pq A) \<subseteq> S \<Longrightarrow> set ps \<subseteq> S \<Longrightarrow> snd ` set (a_pq A') \<subseteq> S"
  unfolding woken_def by blast

lemma woken_rp: "woken ch ps P A P' A' \<Longrightarrow> a_rp A' = a_rp A"
  unfolding woken_def by blast

lemma wakeup_ok:
  assumes inv: "kinv k A" and c: "c < ncpu k"
  shows "\<exists>k' A'. wakeup ch c k = Inr k' \<and> kinv k' A' \<and> woken ch slots (procs k) A (procs k') A'"
proof -
  note D = kinvD [OF inv] and t = kinv_taken [OF inv c]
  let ?k1 = "taken c ptable_lock k"
  have "ds_rep (ds ?k1) A" using D(4) by simp
  from wakeup1_eq [OF this, of ch] obtain P d A' where
    w: "wakeup1 ch ?k1 = Inr (?k1\<lparr>procs := P, ds := d\<rparr>)" "ds_rep d A'" "woken ch slots (procs k) A P A'" by auto
  let ?k2 = "?k1\<lparr>procs := P, ds := d\<rparr>"
  have "release c ptable_lock ?k2 = Inr (freed c ptable_lock ?k2)" "kinv (freed c ptable_lock ?k2) A'"
    by (rule kinv_section [OF inv c, of ?k2 A'];
        use w D woken_state [OF w(3)] woken_within [OF w(3) D(5)] woken_rp [OF w(3)] in simp)+
  then show ?thesis using t(1) w by (intro exI [of _ "freed c ptable_lock ?k2"] exI [of _ A']) (simp add: wakeup_eq)
qed

lemma set_priority_ok:
  assumes inv: "kinv k A" and c: "c < ncpu k" "cproc (cpus k c) = p" "p \<noteq> 0"
  shows "\<exists>k'. set_priority prio c k = Inr k' \<and> kinv k' A \<and> procs k' = (procs k)(p := (procs k p)\<lparr>priority := prio\<rparr>)"
proof -
  note D = kinvD [OF inv] and t = kinv_taken [OF inv c(1)]
  let ?k2 = "set_proc p (\<lambda>x. x\<lparr>priority := prio\<rparr>) (taken c ptable_lock k)"
  have "proc_ok (procs ?k2 q)" if "q \<in> set slots" for q
    using D(3) [OF that] by (cases "q = p") simp_all
  then have "release c ptable_lock ?k2 = Inr (freed c ptable_lock ?k2)" "kinv (freed c ptable_lock ?k2) A"
    by (rule_tac [!] kinv_section [OF inv c(1)]) (use D in simp_all)
  then show ?thesis using t(1) held_myproc [OF t(2)] c(2)
    by (intro exI [of _ "freed c ptable_lock ?k2"]) (simp add: set_priority_def)
qed

section \<open>\<^verbatim>\<open>kill\<close> and \<^verbatim>\<open>detach\<close>\<close>

lemma find_slot:
  assumes "find Q slots = Some p"
  shows "p \<in> set slots" "Q p"
  using assms by (auto simp: find_Some_iff)

text \<open>An unknown pid is refused and nothing but the lock's bookkeeping changes.\<close>

lemma kill_absent:
  assumes inv: "kinv k A" and c: "c < ncpu k" and "\<forall>p \<in> set slots. pid (procs k p) \<noteq> n"
  shows "\<exists>k'. kill n c k = Inr (- 1, k') \<and> kinv k' A \<and> procs k' = procs k"
proof -
  note D = kinvD [OF inv] and t = kinv_taken [OF inv c]
  let ?k1 = "taken c ptable_lock k"
  have "find (\<lambda>p. pid (procs ?k1 p) = n) slots = None" using assms(3) by (auto simp: find_None_iff)
  moreover have "release c ptable_lock ?k1 = Inr (freed c ptable_lock ?k1)" "kinv (freed c ptable_lock ?k1) A"
    by (rule kinv_section [OF inv c, of ?k1 A]; use D in simp)+
  ultimately show ?thesis using t(1) by (intro exI [of _ "freed c ptable_lock ?k1"]) (simp add: kill_def)
qed

text \<open>The first slot with the pid is marked; a sleeper there becomes runnable.\<close>

definition kill_effect :: "procp \<Rightarrow> (procp \<Rightarrow> proc) \<Rightarrow> (procp \<Rightarrow> proc) \<Rightarrow> bool" where
  "kill_effect p P P' \<longleftrightarrow>
     (if state (P p) = SLEEPING
      then \<exists>a. P' = P(p := (P p)\<lparr>killed := True, state := RUNNABLE, accumulator := a\<rparr>)
      else P' = P(p := (P p)\<lparr>killed := True\<rparr>))"

lemma kill_present:
  assumes inv: "kinv k A" and c: "c < ncpu k" and f: "find (\<lambda>p. pid (procs k p) = n) slots = Some p"
  shows "\<exists>k' A'. kill n c k = Inr (0, k') \<and> kinv k' A' \<and> kill_effect p (procs k) (procs k') \<and>
    (state (procs k p) = SLEEPING \<longrightarrow> 0 < a_free A \<longrightarrow> p \<in> snd ` set (a_pq A'))"
proof -
  note D = kinvD [OF inv] and t = kinv_taken [OF inv c] and sl = find_slot [OF f]
  let ?k1 = "set_proc p (\<lambda>x. x\<lparr>killed := True\<rparr>) (taken c ptable_lock k)"
  have f1: "find (\<lambda>p. pid (procs (taken c ptable_lock k) p) = n) slots = Some p" using f by simp
  have ok1: "proc_ok (procs ?k1 q)" if "q \<in> set slots" for q using D(3) [OF that] by (cases "q = p") simp_all
  show ?thesis
  proof (cases "state (procs k p) = SLEEPING")
    case False
    have "release c ptable_lock ?k1 = Inr (freed c ptable_lock ?k1)" "kinv (freed c ptable_lock ?k1) A"
      by (rule kinv_section [OF inv c, of ?k1 A]; use D ok1 in simp)+
    then show ?thesis using t(1) f1 False
      by (intro exI [of _ "freed c ptable_lock ?k1"] exI [of _ A]) (simp add: kill_def kill_effect_def)
  next
    case True
    have "ds_rep (ds ?k1) A" using D(4) by simp
    from wake_eq [OF this, of p] obtain d where
      w: "wake p ?k1 = Inr ((set_proc p (\<lambda>x. x\<lparr>state := RUNNABLE, accumulator := a_min (getAccumulator ?k1) A\<rparr>) ?k1)\<lparr>ds := d\<rparr>)"
        (is "_ = Inr ?k2")
      and d: "ds_rep d (a_put (\<lambda>_. a_min (getAccumulator ?k1) A) p A)" (is "ds_rep d ?A") by blast
    have "proc_ok (procs ?k2 q)" if "q \<in> set slots" for q
      using ok1 [OF that] True by (cases "q = p") (auto simp: proc_ok_def ctx_ok_def split: kcont.splits)
    then have "release c ptable_lock ?k2 = Inr (freed c ptable_lock ?k2)" "kinv (freed c ptable_lock ?k2) ?A"
      by (rule_tac [!] kinv_section [OF inv c, of ?k2 ?A]) (use D d sl True a_put_within [OF D(5) sl(1)] in simp_all)
    then show ?thesis using t(1) f1 True w a_put_mem [of A p]
      by (intro exI [of _ "freed c ptable_lock ?k2"] exI [of _ ?A]) (auto simp: kill_def kill_effect_def Let_def)
  qed
qed

text \<open>
  \<^verbatim>\<open>detach\<close> hands a child to \<^verbatim>\<open>initproc\<close>. \<open>ps\<close> is the table after the call;
  every other field and process is as before.
\<close>

lemma detach_ok:
  assumes inv: "kinv k A" and c: "c < ncpu k" "cproc (cpus k c) = cp"
  shows "\<exists>k'. kinv k' A \<and> initproc k' = initproc k \<and>
    (case find (\<lambda>p. pid (procs k p) = n \<and> parent (procs k p) = cp) slots of
       None \<Rightarrow> detach n c k = Inr (- 1, k') \<and> procs k' = procs k
     | Some p \<Rightarrow> detach n c k = Inr (0, k') \<and> procs k' = (procs k)(p := (procs k p)\<lparr>parent := initproc k\<rparr>))"
proof -
  let ?k0 = "noted c k"
  have wf: "wf_mach k" using kinvD(1) [OF inv] by (simp add: lock_free_def)
  have inv0: "kinv ?k0 A"
    by (rule kinv_stay [OF inv]) (use kinvD [OF inv] wf_noted [OF wf c(1)] in \<open>simp_all add: lock_free_def\<close>)
  have c0: "c < ncpu ?k0" using c by simp
  note D = kinvD [OF inv0] and t = kinv_taken [OF inv0 c0]
  let ?k1 = "taken c ptable_lock ?k0"
  have my: "myproc c k = Inr (cp, ?k0)" using myproc_eq [OF wf c(1)] c(2) by simp
  show ?thesis
  proof (cases "find (\<lambda>p. pid (procs k p) = n \<and> parent (procs k p) = cp) slots")
    case None
    have "release c ptable_lock ?k1 = Inr (freed c ptable_lock ?k1)" "kinv (freed c ptable_lock ?k1) A"
      by (rule kinv_section [OF inv0 c0, of ?k1 A]; use D in simp)+
    then show ?thesis using t(1) my None by (intro exI [of _ "freed c ptable_lock ?k1"]) (simp add: detach_def)
  next
    case (Some p)
    let ?k2 = "set_proc p (\<lambda>x. x\<lparr>parent := initproc k\<rparr>) ?k1"
    have "proc_ok (procs ?k2 q)" if "q \<in> set slots" for q using D(3) [OF that] by (cases "q = p") simp_all
    then have "release c ptable_lock ?k2 = Inr (freed c ptable_lock ?k2)" "kinv (freed c ptable_lock ?k2) A"
      by (rule_tac [!] kinv_section [OF inv0 c0, of ?k2 A]) (use D in simp_all)
    then show ?thesis using t(1) my Some by (intro exI [of _ "freed c ptable_lock ?k2"]) (simp add: detach_def)
  qed
qed

end
