(* ===== verification/ProcFrame.thy ===== *)
theory ProcFrame
  imports ProcInv
begin

text \<open>
  What a successful operation keeps: the parts of the state that \<^verbatim>\<open>spinlock.c\<close> does not
  know, the other locks, and the memory and the file system in the sections of \<^verbatim>\<open>proc.c\<close>.
\<close>

lemma mach_more_kst:
  assumes "mach.more k' = mach.more (k :: 'f kst)"
  shows "procs k' = procs k" "ds k' = ds k" "km k' = km k" "fsst k' = fsst k" "initproc k' = initproc k" "nextpid k' = nextpid k"
  using assms by (cases k; cases k'; simp)+

lemma pushcli_more: "pushcli c m = Inr m' \<Longrightarrow> mach.more m' = mach.more m \<and> ncpu m' = ncpu m \<and> locks m' = locks m"
  by (auto simp: pushcli_def kbind_Inr_iff Let_def cli_def split: if_splits)

lemma popcli_more: "popcli c m = Inr m' \<Longrightarrow> mach.more m' = mach.more m \<and> ncpu m' = ncpu m \<and> locks m' = locks m"
  by (auto simp: popcli_def kbind_Inr_iff Let_def sti_def split: if_splits)

lemma holding_more: "holding c l m = Inr (h, m') \<Longrightarrow> mach.more m' = mach.more m \<and> ncpu m' = ncpu m \<and> locks m' = locks m"
  by (auto simp: holding_def kbind_Inr_iff Let_def dest!: pushcli_more popcli_more)

lemma myproc_more: "myproc c m = Inr (p, m') \<Longrightarrow> mach.more m' = mach.more m \<and> ncpu m' = ncpu m \<and> locks m' = locks m"
  by (auto simp: myproc_def kbind_Inr_iff Let_def dest!: pushcli_more popcli_more)

text \<open>A lock is acquired only when it is free, and no other lock changes.\<close>

lemma acquire_more:
  assumes "acquire c l m = Inr m'"
  shows "mach.more m' = mach.more m \<and> ncpu m' = ncpu m \<and> \<not> locked (locks m l) \<and> locked (locks m' l) \<and>
    (\<forall>l'. l' \<noteq> l \<longrightarrow> locks m' l' = locks m l')"
proof -
  from assms obtain m1 m2 i where "pushcli c m = Inr m1" "holding c l m1 = Inr (False, m2)" "\<not> locked (locks m2 l)"
    "m' = set_lock l (\<lambda>x. x\<lparr>lcpu := Suc i\<rparr>) (set_lock l (\<lambda>x. x\<lparr>locked := True\<rparr>) m2)"
    by (auto simp: acquire_def kbind_Inr_iff Let_def split: if_splits)
  then show ?thesis using pushcli_more [of c m m1] holding_more [of c l m1 False m2] by simp
qed

lemma release_more:
  assumes "release c l m = Inr m'"
  shows "mach.more m' = mach.more m \<and> ncpu m' = ncpu m \<and> \<not> locked (locks m' l) \<and> (\<forall>l'. l' \<noteq> l \<longrightarrow> locks m' l' = locks m l')"
proof -
  from assms obtain m1 where "holding c l m = Inr (True, m1)" "popcli c (set_lock l (\<lambda>x. x\<lparr>lcpu := 0, locked := False\<rparr>) m1) = Inr m'"
    by (auto simp: release_def kbind_Inr_iff split: if_splits)
  then show ?thesis using holding_more [of c l m True m1] popcli_more [of c "set_lock l (\<lambda>x. x\<lparr>lcpu := 0, locked := False\<rparr>) m1" m'] by simp
qed

text \<open>The memory, the file system, the number of CPUs and the first process.\<close>

definition kept :: "'f kst \<Rightarrow> 'f kst \<Rightarrow> bool" where
  "kept k k' \<longleftrightarrow> km k' = km k \<and> fsst k' = fsst k \<and> ncpu k' = ncpu k \<and> initproc k' = initproc k"

lemma kept_refl [simp]: "kept k k" and kept_trans [trans]: "kept k k1 \<Longrightarrow> kept k1 k2 \<Longrightarrow> kept k k2"
  by (simp_all add: kept_def)

lemma kept_upd [simp]:
  "kept k (set_proc p f k') = kept k k'" "kept k (set_cpu c g k') = kept k k'" "kept k (k'\<lparr>ds := d\<rparr>) = kept k k'"
  "kept k (k'\<lparr>procs := P\<rparr>) = kept k k'" "kept (set_proc p f k) k' = kept k k'"
  by (simp_all add: kept_def)

lemma kept_more: "mach.more k' = mach.more k \<Longrightarrow> ncpu k' = ncpu k \<Longrightarrow> kept k k'"
  using mach_more_kst [of k' k] by (simp add: kept_def)

lemma kept_mach:
  "acquire c l k = Inr k' \<Longrightarrow> kept k k'" "release c l k = Inr k' \<Longrightarrow> kept k k'"
  "myproc c k = Inr (p, k') \<Longrightarrow> kept k k'" "holding c l k = Inr (h, k') \<Longrightarrow> kept k k'"
  by (rule kept_more, blast dest: acquire_more release_more myproc_more holding_more,
      blast dest: acquire_more release_more myproc_more holding_more)+

lemma kept_ds:
  "pq_put p k = Inr k' \<Longrightarrow> kept k k'" "rpholder_remove p k = Inr k' \<Longrightarrow> kept k k'"
  by (auto simp: pq_put_def rpholder_remove_def kbind_Inr_iff)

lemma kept_wake: "wake p k = Inr k' \<Longrightarrow> kept k k'"
  by (auto simp: wake_def Let_def kbind_Inr_iff dest!: kept_ds)

lemma kept_wakeup1: "wakeup1 ch k = Inr k' \<Longrightarrow> kept k k'"
proof -
  have "wakeup1_loop ch ps k = Inr k' \<Longrightarrow> kept k k'" for ps
  proof (induction ps arbitrary: k)
    case (Cons p ps)
    then show ?case by (auto simp: kbind_Inr_iff split: if_splits dest!: kept_wake intro: kept_trans)
  qed simp
  then show "wakeup1 ch k = Inr k' \<Longrightarrow> kept k k'" by (simp add: wakeup1_def)
qed

lemma kept_reparent: "reparent cp ps k = Inr k' \<Longrightarrow> kept k k'"
proof (induction ps arbitrary: k)
  case (Cons p ps)
  then show ?case by (auto simp: kbind_Inr_iff Let_def split: if_splits dest!: kept_wakeup1) (meson kept_trans kept_upd(5))+
qed simp

lemma kept_back: "Priority_Scheduler_back c p k = Inr k' \<Longrightarrow> kept k k'"
proof -
  assume "Priority_Scheduler_back c p k = Inr k'"
  then obtain k1 k2 where k: "rpholder_remove p (set_cpu c (\<lambda>x. x\<lparr>cproc := 0\<rparr>) k) = Inr k1" "release c ptable_lock k2 = Inr k'"
    "(if state (procs k1 p) = RUNNABLE then pq_put p (set_proc p (\<lambda>x. x\<lparr>accumulator := s64 (accumulator x + priority x)\<rparr>) k1) else Inr k1) = Inr k2"
    unfolding Priority_Scheduler_back_def kbind_Inr_iff by blast
  have "kept k k1" using kept_ds(2) [OF k(1)] by (simp add: kept_def)
  moreover have "kept k1 k2" using k(3) by (auto split: if_splits dest!: kept_ds)
  ultimately show ?thesis using kept_mach(2) [OF k(2)] kept_trans by blast
qed

lemma kept_sched: "sched c r k = Inr k' \<Longrightarrow> kept k k'"
proof -
  assume "sched c r k = Inr k'"
  then obtain p k1 k2 i where "myproc c k = Inr (p, k1)" "holding c ptable_lock k1 = Inr (True, k2)"
    "Priority_Scheduler_back c p (set_proc p (\<lambda>x. x\<lparr>pcontext := InSched r (intena (cpus k2 i))\<rparr>) k2) = Inr k'"
    by (auto simp: sched_def kbind_Inr_iff split: if_splits)
  then show ?thesis using kept_mach(3,4) kept_back kept_upd(5) kept_trans by metis
qed

lemma kept_exit_tail: "exit_tail c cp k = Inr k' \<Longrightarrow> kept k k'"
proof -
  assume "exit_tail c cp k = Inr k'"
  then obtain k1 k2 k3 where k: "acquire c ptable_lock k = Inr k1" "wakeup1 (proc_chan (parent (procs k1 cp))) k1 = Inr k2"
    "reparent cp slots k2 = Inr k3" "sched c RExit (set_proc cp (\<lambda>x. x\<lparr>state := ZOMBIE\<rparr>) k3) = Inr k'"
    unfolding exit_tail_def kbind_Inr_iff by blast
  from kept_sched [OF k(4)] have "kept k3 k'" by simp
  then show ?thesis using kept_mach(1) [OF k(1)] kept_wakeup1 [OF k(2)] kept_reparent [OF k(3)] kept_trans by blast
qed

lemma kept_go_to_sleep: "go_to_sleep c p ch r k = Inr k' \<Longrightarrow> kept k k'"
proof -
  assume "go_to_sleep c p ch r k = Inr k'"
  then obtain k1 where k: "rpholder_remove p (set_proc p (\<lambda>x. x\<lparr>pchan := ch, state := SLEEPING\<rparr>) k) = Inr k1" "sched c r k1 = Inr k'"
    unfolding go_to_sleep_def kbind_Inr_iff by blast
  from kept_ds(2) [OF k(1)] have "kept k k1" by simp
  then show ?thesis using kept_sched [OF k(2)] kept_trans by blast
qed

end
