(* ===== verification/ProcSleep.thy ===== *)
theory ProcSleep
  imports ProcWake ProcFrame
begin

text \<open>
  Sleeping, exiting and waiting. A section \<open>sect c k A\<close> is a state in which CPU
  \<open>c\<close> holds \<^verbatim>\<open>ptable.lock\<close> and could release it with the invariant intact.
\<close>

definition sect :: "nat \<Rightarrow> 'f kst \<Rightarrow> abs_ds \<Rightarrow> bool" where
  "sect c k A \<longleftrightarrow> held c k \<and> kinv (freed c ptable_lock k) A"

lemma sect_acquire:
  assumes inv: "kinv k A" and c: "c < ncpu k"
  shows "acquire c ptable_lock k = Inr (taken c ptable_lock k)" "sect c (taken c ptable_lock k) A"
proof -
  note t = kinv_taken [OF inv c] and D = kinvD [OF inv]
  show "acquire c ptable_lock k = Inr (taken c ptable_lock k)" by (rule t(1))
  have "kinv (freed c ptable_lock (taken c ptable_lock k)) A"
    by (rule kinv_section(2) [OF inv c]) (use D in simp_all)
  then show "sect c (taken c ptable_lock k) A" using t(2) by (simp add: sect_def)
qed

lemma sect_release:
  assumes "sect c k A"
  shows "release c ptable_lock k = Inr (freed c ptable_lock k)" "kinv (freed c ptable_lock k) A"
  using assms release_held(1) [of c k] by (simp_all add: sect_def)

lemma sectD:
  assumes "sect c k A"
  shows "held c k" "\<And>p. p \<in> set slots \<Longrightarrow> proc_ok (procs k p)" "ds_rep (ds k) A"
    "snd ` set (a_pq A) \<subseteq> set slots" "distinct (a_rp A)" "c < ncpu k"
  using assms kinvD [of "freed c ptable_lock k" A] by (auto simp: sect_def held_def)

lemma sect_slot:
  assumes "sect c k A" and "cproc (cpus k c) = p" and "p \<noteq> 0"
  shows "p \<in> set slots" "state (procs k p) = RUNNING" "p \<in> set (a_rp A)" "proc_ok (procs k p)"
  using kinv_slot [of "freed c ptable_lock k" A c p] assms sectD(6) [OF assms(1)] by (simp_all add: sect_def)

text \<open>Changes of the table and of the scheduler's structures inside a section.\<close>

lemma sect_update:
  fixes k k2 :: "'f kst"
  assumes s: "sect c k A"
    and k2: "cpus k2 = cpus k" "locks k2 = locks k" "ncpu k2 = ncpu k"
    and st: "\<And>q. q \<in> set slots \<Longrightarrow> state (procs k2 q) = RUNNING \<longleftrightarrow> state (procs k q) = RUNNING"
    and ok: "\<And>q. q \<in> set slots \<Longrightarrow> proc_ok (procs k2 q)"
    and A: "ds_rep (ds k2) A'" "snd ` set (a_pq A') \<subseteq> set slots" "a_rp A' = a_rp A"
  shows "sect c k2 A'"
proof -
  have "held c k2 = held c k" using k2 by (intro held_cong) simp_all
  then have h: "held c k2" using sectD(1) [OF s] by simp
  have inv: "kinv (freed c ptable_lock k) A" using s by (simp add: sect_def)
  have "kinv (freed c ptable_lock k2) A'"
    by (rule kinv_stay [OF inv release_held(2) [OF h]]) (use k2 st ok A in simp_all)
  with h show ?thesis by (simp add: sect_def)
qed

lemma sect_wakeup1:
  assumes s: "sect c k A"
  shows "\<exists>P d A'. wakeup1 ch k = Inr (k\<lparr>procs := P, ds := d\<rparr>) \<and> sect c (k\<lparr>procs := P, ds := d\<rparr>) A' \<and>
    woken ch slots (procs k) A P A'"
proof -
  from wakeup1_eq [OF sectD(3) [OF s], of ch] obtain P d A' where
    w: "wakeup1 ch k = Inr (k\<lparr>procs := P, ds := d\<rparr>)" "ds_rep d A'" "woken ch slots (procs k) A P A'" by blast
  have "sect c (k\<lparr>procs := P, ds := d\<rparr>) A'"
    by (rule sect_update [OF s])
      (use w sectD [OF s] woken_state [OF w(3)] woken_within [OF w(3)] woken_rp [OF w(3)] in simp_all)
  with w show ?thesis by blast
qed

section \<open>\<^verbatim>\<open>sched\<close> from a section\<close>

lemma sched_sect:
  fixes k k1 :: "'f kst"
  assumes s: "sect c k A" and n: "ncli (cpus k c) = 1" and p: "cproc (cpus k c) = p" "p \<noteq> 0"
    and k1: "cpus k1 = cpus k" "locks k1 = locks k" "ncpu k1 = ncpu k"
    and st: "state (procs k1 p) \<noteq> RUNNING"
      "\<And>q. q \<in> set slots \<Longrightarrow> q \<noteq> p \<Longrightarrow> state (procs k1 q) = RUNNING \<longleftrightarrow> state (procs k q) = RUNNING"
    and ok: "\<And>q. q \<in> set slots \<Longrightarrow> q \<noteq> p \<Longrightarrow> proc_ok (procs k1 q)"
      "\<And>i. proc_ok ((procs k1 p)\<lparr>pcontext := InSched r i\<rparr>)"
    and A: "ds_rep (ds k1) A1" "snd ` set (a_pq A1) \<subseteq> set slots" "remove1 p (a_rp A1) = remove1 p (a_rp A)"
      "distinct (a_rp A1)"
  shows "\<exists>k'. sched c r k1 = Inr k' \<and> kinv k' (a_back k1 p A1) \<and>
    (\<forall>l. l \<noteq> ptable_lock \<longrightarrow> locks k' l = locks k1 l) \<and> cproc (cpus k' c) = 0 \<and>
    procs k' = (procs (bump_acc p k1))(p := (procs (bump_acc p k1) p)\<lparr>pcontext := InSched r (intena (cpus k1 c))\<rparr>)"
proof (rule sched_kinv [of "freed c ptable_lock k" A])
  show "kinv (freed c ptable_lock k) A" using s by (simp add: sect_def)
  have "held c k1 = held c k" using k1 by (intro held_cong) simp_all
  then show "held c k1" using sectD(1) [OF s] by simp
qed (use sectD(6) [OF s] n p k1 st ok A in simp_all)

text \<open>The common end of \<^verbatim>\<open>sleep\<close>.\<close>

lemma sleep_tail:
  assumes s: "sect c k A" and n: "ncli (cpus k c) = 1" and p: "cproc (cpus k c) = p" "p \<noteq> 0"
    and r: "r \<noteq> RYield" "r \<noteq> RExit"
  shows "\<exists>k'. kbind (rpholder_remove p (set_proc p (\<lambda>x. x\<lparr>pchan := ch, state := SLEEPING\<rparr>) k)) (sched c r) = Inr k' \<and>
    kinv k' (a_remove p A) \<and> (\<forall>l. l \<noteq> ptable_lock \<longrightarrow> locks k' l = locks k l) \<and> cproc (cpus k' c) = 0 \<and>
    procs k' = (procs k)(p := (procs k p)\<lparr>pchan := ch, state := SLEEPING, pcontext := InSched r (intena (cpus k c))\<rparr>)"
proof -
  note D = sectD [OF s] and sl = sect_slot [OF s p]
  let ?k1 = "set_proc p (\<lambda>x. x\<lparr>pchan := ch, state := SLEEPING\<rparr>) k"
  have "ds_rep (ds ?k1) A" using D(3) by simp
  from rpholder_remove_eq [OF this, of p] obtain d where
    d: "rpholder_remove p ?k1 = Inr (?k1\<lparr>ds := d\<rparr>)" "ds_rep d (a_remove p A)" by blast
  let ?k2 = "?k1\<lparr>ds := d\<rparr>"
  have "\<exists>k'. sched c r ?k2 = Inr k' \<and> kinv k' (a_back ?k2 p (a_remove p A)) \<and>
    (\<forall>l. l \<noteq> ptable_lock \<longrightarrow> locks k' l = locks ?k2 l) \<and> cproc (cpus k' c) = 0 \<and>
    procs k' = (procs (bump_acc p ?k2))(p := (procs (bump_acc p ?k2) p)\<lparr>pcontext := InSched r (intena (cpus ?k2 c))\<rparr>)"
  proof (rule sched_sect [OF s n p])
    show "proc_ok (procs ?k2 q)" if "q \<in> set slots" "q \<noteq> p" for q using D(2) [OF that(1)] that(2) by simp
    show "proc_ok ((procs ?k2 p)\<lparr>pcontext := InSched r i\<rparr>)" for i using sl(2,4) r by (simp add: proc_ok_def)
    show "snd ` set (a_pq (a_remove p A)) \<subseteq> set slots" using D(4) by simp
    show "remove1 p (a_rp (a_remove p A)) = remove1 p (a_rp A)" "distinct (a_rp (a_remove p A))"
      using a_rp_remove [OF D(5), of p] D(5) by (simp_all add: distinct_remove1 remove1_idem)
  qed (use d in simp_all)
  moreover have "a_back ?k2 p (a_remove p A) = a_remove p A"
    using a_remove_remove [OF D(5), of "a_remove p A" p] by (simp add: a_back_def)
  ultimately show ?thesis using d(1) by (fastforce simp: bump_acc_def)
qed

lemma sleep_ok:
  assumes inv: "kinv k A" and c: "c < ncpu k" "cproc (cpus k c) = p" "p \<noteq> 0" and n: "ncli (cpus k c) = 1"
    and lk: "lk \<noteq> 0" "lk \<noteq> ptable_lock" "locked (locks k lk)" "lcpu (locks k lk) = Suc c"
  shows "\<exists>k' i. sleep c ch lk (RSleep lk) k = Inr k' \<and> kinv k' (a_remove p A) \<and> cproc (cpus k' c) = 0 \<and>
    \<not> locked (locks k' lk) \<and>
    procs k' = (procs k)(p := (procs k p)\<lparr>pchan := ch, state := SLEEPING, pcontext := InSched (RSleep lk) i\<rparr>)"
proof -
  note D = kinvD [OF inv] and t = kinv_taken [OF inv c(1)]
  have wf: "wf_mach k" using D(1) by (simp add: lock_free_def)
  have my: "myproc c k = Inr (p, k)" using myproc_eq [OF wf c(1)] c(2) n by simp
  let ?k1 = "taken c ptable_lock k"
  let ?k2 = "freed c lk ?k1"
  have wf1: "wf_mach ?k1" "c < ncpu ?k1" "0 < ncli (cpus ?k1 c)" using wf_taken [OF wf c(1)] c n by simp_all
  have rel: "release c lk ?k1 = Inr ?k2" using release_cases [OF wf1, of lk] lk by simp
  have h2: "held c ?k2" using wf_freed [OF wf1, of lk] wf1 lk n by (simp add: held_def)
  have "kinv (freed c ptable_lock ?k2) A"
    by (rule kinv_stay [OF inv release_held(2) [OF h2]]) (use D c n in auto)
  then have s: "sect c ?k2 A" using h2 by (simp add: sect_def)
  have n2: "ncli (cpus ?k2 c) = 1" "cproc (cpus ?k2 c) = p" using n c by simp_all
  from sleep_tail [OF s n2 c(3), of "RSleep lk" ch] obtain k' where
    k': "kbind (rpholder_remove p (set_proc p (\<lambda>x. x\<lparr>pchan := ch, state := SLEEPING\<rparr>) ?k2)) (sched c (RSleep lk)) = Inr k'"
    "kinv k' (a_remove p A)" "\<forall>l. l \<noteq> ptable_lock \<longrightarrow> locks k' l = locks ?k2 l" "cproc (cpus k' c) = 0"
    "procs k' = (procs ?k2)(p := (procs ?k2 p)\<lparr>pchan := ch, state := SLEEPING, pcontext := InSched (RSleep lk) (intena (cpus ?k2 c))\<rparr>)"
    by auto
  have "sleep c ch lk (RSleep lk) k = Inr k'" using my t(1) rel k'(1) c(3) lk by (simp add: sleep_eq)
  moreover have "\<not> locked (locks k' lk)" using k'(3) lk by simp
  ultimately show ?thesis using k' by (intro exI [of _ k'] exI [of _ "intena (cpus ?k2 c)"]) simp
qed

section \<open>\<^verbatim>\<open>exit\<close>\<close>

text \<open>
  What handing over the children and waking the parent may do to another process: its
  parent may become \<open>ip\<close>, and a sleeper on \<open>ch\<close> may become runnable.
\<close>

definition moved :: "chan \<Rightarrow> proc \<Rightarrow> proc \<Rightarrow> bool" where
  "moved ch x y \<longleftrightarrow> y = x\<lparr>parent := parent y, state := state y, accumulator := accumulator y\<rparr> \<and>
     (state y = state x \<or> sleeper ch x \<and> state y = RUNNABLE)"

lemma moved_refl [simp]: "moved ch x x"
  by (simp add: moved_def)

lemma moved_fields:
  assumes "moved ch x y"
  shows "pid y = pid x" "pcontext y = pcontext x" "kstack y = kstack x" "pgdir y = pgdir x" "pchan y = pchan x"
    "status y = status x" "killed y = killed x" "ofile y = ofile x" "cwd y = cwd x"
proof -
  have "y = x\<lparr>parent := parent y, state := state y, accumulator := accumulator y\<rparr>" using assms by (simp add: moved_def)
  then obtain a b d where "y = x\<lparr>parent := a, state := b, accumulator := d\<rparr>" by blast
  then show "pid y = pid x" "pcontext y = pcontext x" "kstack y = kstack x" "pgdir y = pgdir x" "pchan y = pchan x"
    "status y = status x" "killed y = killed x" "ofile y = ofile x" "cwd y = cwd x" by simp_all
qed

lemma moved_trans: "moved ch x y \<Longrightarrow> moved ch y z \<Longrightarrow> moved ch x z"
proof -
  assume xy: "moved ch x y" and yz: "moved ch y z"
  from xy obtain a b d where y: "y = x\<lparr>parent := a, state := b, accumulator := d\<rparr>" unfolding moved_def by blast
  from yz obtain a' b' d' where z: "z = y\<lparr>parent := a', state := b', accumulator := d'\<rparr>" unfolding moved_def by blast
  have "z = x\<lparr>parent := a', state := b', accumulator := d'\<rparr>" using y z by simp
  moreover have "b' = state x \<or> sleeper ch x \<and> b' = RUNNABLE"
    using xy yz y z by (auto simp: moved_def sleeper_def)
  ultimately show "moved ch x z" by (simp add: moved_def)
qed

lemma moved_running: "moved ch x y \<Longrightarrow> state y = RUNNING \<longleftrightarrow> state x = RUNNING"
  by (auto simp: moved_def sleeper_def)

lemma woken_runnable:
  assumes "woken ch ps P A P' A'" and "q \<in> set ps" and "sleeper ch (P q)"
  shows "state (P' q) = RUNNABLE"
proof -
  have "if q \<in> set ps \<and> sleeper ch (P q) then \<exists>a. P' q = (P q)\<lparr>state := RUNNABLE, accumulator := a\<rparr> else P' q = P q"
    using assms(1) unfolding woken_def by blast
  then show ?thesis using assms(2,3) by auto
qed

lemma moved_runnable: "moved ch x y \<Longrightarrow> state x = RUNNABLE \<Longrightarrow> state y = RUNNABLE"
  by (auto simp: moved_def)

lemma moved_sleeper: "moved ch x y \<Longrightarrow> sleeper ch' x \<Longrightarrow> sleeper ch' y \<or> state y = RUNNABLE"
  using moved_fields(5) [of ch x y] by (auto simp: moved_def sleeper_def)

lemma woken_moved:
  assumes "woken ch ps P A P' A'"
  shows "moved ch (P q) (P' q)" "parent (P' q) = parent (P q)"
proof -
  have "if q \<in> set ps \<and> sleeper ch (P q) then \<exists>a. P' q = (P q)\<lparr>state := RUNNABLE, accumulator := a\<rparr> else P' q = P q"
    using assms unfolding woken_def by blast
  then show "moved ch (P q) (P' q)" "parent (P' q) = parent (P q)"
    by (auto simp: moved_def split: if_splits)
qed

definition handed ::
  "procp \<Rightarrow> procp \<Rightarrow> procp list \<Rightarrow> (procp \<Rightarrow> proc) \<Rightarrow> abs_ds \<Rightarrow> (procp \<Rightarrow> proc) \<Rightarrow> abs_ds \<Rightarrow> bool" where
  "handed cp ip ps P A P' A' \<longleftrightarrow> a_rp A' = a_rp A \<and> snd ` set (a_pq A) \<subseteq> snd ` set (a_pq A') \<and>
     (\<forall>q. moved (proc_chan ip) (P q) (P' q)) \<and>
     (\<forall>q. parent (P' q) = (if q \<in> set ps \<and> parent (P q) = cp then ip else parent (P q))) \<and>
     (\<forall>q \<in> set ps. parent (P q) = cp \<longrightarrow> state (P q) = ZOMBIE \<longrightarrow>
        (\<forall>r \<in> set slots. sleeper (proc_chan ip) (P r) \<longrightarrow> state (P' r) = RUNNABLE))"

lemma handed_skip: "parent (P p) \<noteq> cp \<Longrightarrow> handed cp ip ps P A P' A' \<Longrightarrow> handed cp ip (p # ps) P A P' A'"
proof -
  assume p: "parent (P p) \<noteq> cp" and h: "handed cp ip ps P A P' A'"
  have "q \<in> set (p # ps) \<and> parent (P q) = cp \<longleftrightarrow> q \<in> set ps \<and> parent (P q) = cp" for q using p by auto
  then show ?thesis using h p by (simp add: handed_def)
qed

lemma handedD:
  assumes "handed cp ip ps P A P' A'"
  shows "a_rp A' = a_rp A" "snd ` set (a_pq A) \<subseteq> snd ` set (a_pq A')" "moved (proc_chan ip) (P q) (P' q)"
    "parent (P' q) = (if q \<in> set ps \<and> parent (P q) = cp then ip else parent (P q))"
    "q \<in> set ps \<Longrightarrow> parent (P q) = cp \<Longrightarrow> state (P q) = ZOMBIE \<Longrightarrow> r \<in> set slots \<Longrightarrow> sleeper (proc_chan ip) (P r) \<Longrightarrow> state (P' r) = RUNNABLE"
  using assms unfolding handed_def by blast+

lemma handed_step:
  assumes h1: "handed cp ip [p] P A P1 A1" and h2: "handed cp ip ps P1 A1 P' A'" and "p \<notin> set ps"
  shows "handed cp ip (p # ps) P A P' A'"
  unfolding handed_def
proof (intro conjI allI ballI impI)
  show "a_rp A' = a_rp A" using handedD(1) [OF h1] handedD(1) [OF h2] by simp
  show "snd ` set (a_pq A) \<subseteq> snd ` set (a_pq A')" by (rule subset_trans [OF handedD(2) [OF h1] handedD(2) [OF h2]])
  show "moved (proc_chan ip) (P q) (P' q)" for q by (rule moved_trans [OF handedD(3) [OF h1] handedD(3) [OF h2]])
  show "parent (P' q) = (if q \<in> set (p # ps) \<and> parent (P q) = cp then ip else parent (P q))" for q
    unfolding handedD(4) [OF h2] handedD(4) [OF h1] using assms(3) by (cases "q = p") simp_all
  show "state (P' r) = RUNNABLE"
    if q: "q \<in> set (p # ps)" "parent (P q) = cp" "state (P q) = ZOMBIE" and r: "r \<in> set slots" "sleeper (proc_chan ip) (P r)" for q r
  proof (cases "state (P1 r) = RUNNABLE")
    case True
    then show ?thesis by (rule moved_runnable [OF handedD(3) [OF h2]])
  next
    case False
    then have z: "sleeper (proc_chan ip) (P1 r)" using moved_sleeper [OF handedD(3) [OF h1] r(2)] by blast
    have "q \<noteq> p" using handedD(5) [OF h1 _ q(2,3) r] False by auto
    moreover have "state (P1 q) = ZOMBIE" using handedD(3) [OF h1, of q] q(3) by (auto simp: moved_def sleeper_def)
    moreover have "parent (P1 q) = cp" using handedD(4) [OF h1, of q] q(2) \<open>q \<noteq> p\<close> by simp
    ultimately show ?thesis using handedD(5) [OF h2 _ _ _ r(1) z] q(1) by simp
  qed
qed

lemma sect_reparent1:
  assumes s: "sect c k A" and p: "parent (procs k p) = cp"
  shows "\<exists>P d A'.
    (let k1 = set_proc p (\<lambda>x. x\<lparr>parent := initproc k\<rparr>) k
     in if state (procs k1 p) = ZOMBIE then wakeup1 (proc_chan (initproc k1)) k1 else Inr k1) = Inr (k\<lparr>procs := P, ds := d\<rparr>) \<and>
    sect c (k\<lparr>procs := P, ds := d\<rparr>) A' \<and> handed cp (initproc k) [p] (procs k) A P A'"
proof -
  let ?ch = "proc_chan (initproc k)" and ?k1 = "set_proc p (\<lambda>x. x\<lparr>parent := initproc k\<rparr>) k"
  note D = sectD [OF s]
  have "proc_ok (procs ?k1 q)" if "q \<in> set slots" for q using D(2) [OF that] by (cases "q = p") simp_all
  then have s1: "sect c ?k1 A" by (intro sect_update [OF s]) (use D in simp_all)
  have h1: "moved ?ch (procs k q) (procs ?k1 q)" "parent (procs ?k1 q) = (if q \<in> set [p] \<and> parent (procs k q) = cp then initproc k else parent (procs k q))" for q
    using p by (auto simp: moved_def)
  show ?thesis
  proof (cases "state (procs k p) = ZOMBIE")
    case True
    from sect_wakeup1 [OF s1, of ?ch] obtain P d A' where
      w: "wakeup1 ?ch ?k1 = Inr (?k1\<lparr>procs := P, ds := d\<rparr>)" "sect c (?k1\<lparr>procs := P, ds := d\<rparr>) A'"
      "woken ?ch slots (procs ?k1) A P A'" by blast
    have e: "?k1\<lparr>procs := P, ds := d\<rparr> = k\<lparr>procs := P, ds := d\<rparr>" by (simp add: set_proc_def)
    have "snd ` set (a_pq A) \<subseteq> snd ` set (a_pq A')" using w(3) unfolding woken_def by blast
    moreover have "state (P r) = RUNNABLE" if "r \<in> set slots" "sleeper ?ch (procs k r)" for r
      using woken_runnable [OF w(3) that(1)] that(2) True by (cases "r = p") (simp_all add: sleeper_def)
    ultimately have "handed cp (initproc k) [p] (procs k) A P A'"
      unfolding handed_def woken_rp [OF w(3)] woken_moved(2) [OF w(3)]
      using h1(2) moved_trans [OF h1(1) woken_moved(1) [OF w(3)]] by blast
    then show ?thesis using w(1,2) e True by (intro exI [of _ P] exI [of _ d] exI [of _ A']) simp
  next
    case False
    have "?k1 = k\<lparr>procs := procs ?k1, ds := ds k\<rparr>" by (simp add: set_proc_def)
    moreover have "handed cp (initproc k) [p] (procs k) A (procs ?k1) A"
      unfolding handed_def using False h1 by (simp del: kst_set_proc)
    ultimately show ?thesis using False s1
      by (intro exI [of _ "procs ?k1"] exI [of _ "ds k"] exI [of _ A]) (simp add: set_proc_def)
  qed
qed

lemma sect_reparent:
  assumes "sect c k A" and "distinct ps"
  shows "\<exists>P d A'. reparent cp ps k = Inr (k\<lparr>procs := P, ds := d\<rparr>) \<and> sect c (k\<lparr>procs := P, ds := d\<rparr>) A' \<and>
    handed cp (initproc k) ps (procs k) A P A'"
  using assms
proof (induction ps arbitrary: k A)
  case Nil
  then show ?case by (intro exI [of _ "procs k"] exI [of _ "ds k"] exI [of _ A]) (simp add: handed_def)
next
  case (Cons p ps)
  have dp: "distinct ps" "p \<notin> set ps" using Cons.prems(2) by simp_all
  show ?case
  proof (cases "parent (procs k p) = cp")
    case False
    from Cons.IH [OF Cons.prems(1) dp(1)] obtain P d A' where
      r: "reparent cp ps k = Inr (k\<lparr>procs := P, ds := d\<rparr>)" "sect c (k\<lparr>procs := P, ds := d\<rparr>) A'"
      and h: "handed cp (initproc k) ps (procs k) A P A'" by blast
    from False r handed_skip [OF False h] show ?thesis
      by (intro exI [of _ P] exI [of _ d] exI [of _ A']) simp
  next
    case True
    from sect_reparent1 [OF Cons.prems(1) True] obtain P d A' where
      b: "(let k1 = set_proc p (\<lambda>x. x\<lparr>parent := initproc k\<rparr>) k
     in if state (procs k1 p) = ZOMBIE then wakeup1 (proc_chan (initproc k1)) k1 else Inr k1) = Inr (k\<lparr>procs := P, ds := d\<rparr>)"
      and s: "sect c (k\<lparr>procs := P, ds := d\<rparr>) A'" and h: "handed cp (initproc k) [p] (procs k) A P A'" by blast
    from Cons.IH [OF s dp(1)] obtain P' d' A'' where
      r: "reparent cp ps (k\<lparr>procs := P, ds := d\<rparr>) = Inr (k\<lparr>procs := P', ds := d'\<rparr>)"
      "sect c (k\<lparr>procs := P', ds := d'\<rparr>) A''" and h': "handed cp (initproc k) ps P A' P' A''" by auto
    have "reparent cp (p # ps) k = Inr (k\<lparr>procs := P', ds := d'\<rparr>)"
      using True b r(1) by (simp add: Let_def)
    with r(2) handed_step [OF h h' dp(2)] show ?thesis
      by (intro exI [of _ P'] exI [of _ d'] exI [of _ A'']) simp
  qed
qed

end
