(* ===== verification/ProcSched.thy ===== *)
theory ProcSched
  imports ProcSleep
begin

text \<open>
  The rest of the sections of \<^verbatim>\<open>proc.c\<close>: \<^verbatim>\<open>exit\<close>, the scheduler up to \<^verbatim>\<open>swtch\<close>
  and what it resumes, \<^verbatim>\<open>wait\<close>, and the creation of processes.
\<close>

section \<open>\<^verbatim>\<open>exit\<close>\<close>

text \<open>
  The tables in the locked section: \<open>P1\<close> after the parent has been woken, \<open>P2\<close> after the
  children have been handed over.
\<close>

lemma exit_tail_tables:
  assumes inv: "kinv k A" and c: "c < ncpu k" "cproc (cpus k c) = cp" "cp \<noteq> 0" and n: "ncli (cpus k c) = 0"
  shows "\<exists>k' A' P1 A1 P2 A2 i. exit_tail c cp k = Inr k' \<and> kinv k' A' \<and> cproc (cpus k' c) = 0 \<and>
    woken (proc_chan (parent (procs k cp))) slots (procs k) A P1 A1 \<and> handed cp (initproc k) slots P1 A1 P2 A2 \<and>
    procs k' = P2(cp := (P2 cp)\<lparr>state := ZOMBIE, pcontext := InSched RExit i\<rparr>)"
proof -
  note t = sect_acquire [OF inv c(1)]
  let ?k1 = "taken c ptable_lock k" and ?ch = "proc_chan (parent (procs k cp))"
  from sect_wakeup1 [OF t(2), of ?ch] obtain P d A1 where
    w: "wakeup1 ?ch ?k1 = Inr (?k1\<lparr>procs := P, ds := d\<rparr>)" "sect c (?k1\<lparr>procs := P, ds := d\<rparr>) A1"
    "woken ?ch slots (procs k) A P A1" by auto
  let ?k2 = "?k1\<lparr>procs := P, ds := d\<rparr>"
  from sect_reparent [OF w(2) distinct_slots, of cp] obtain P' d' A2 where
    r: "reparent cp slots ?k2 = Inr (?k2\<lparr>procs := P', ds := d'\<rparr>)" "sect c (?k2\<lparr>procs := P', ds := d'\<rparr>) A2"
    "handed cp (initproc k) slots P A1 P' A2" by auto
  let ?k3 = "?k2\<lparr>procs := P', ds := d'\<rparr>"
  let ?k4 = "set_proc cp (\<lambda>x. x\<lparr>state := ZOMBIE\<rparr>) ?k3"
  note D = sectD [OF r(2)]
  have c3: "cproc (cpus ?k3 c) = cp" "ncli (cpus ?k3 c) = 1" using c n by simp_all
  note sl = sect_slot [OF r(2) c3(1) c(3)]
  have "\<exists>k'. sched c RExit ?k4 = Inr k' \<and> kinv k' (a_back ?k4 cp A2) \<and>
    (\<forall>l. l \<noteq> ptable_lock \<longrightarrow> locks k' l = locks ?k4 l) \<and> cproc (cpus k' c) = 0 \<and>
    procs k' = (procs (bump_acc cp ?k4))(cp := (procs (bump_acc cp ?k4) cp)\<lparr>pcontext := InSched RExit (intena (cpus ?k4 c))\<rparr>)"
  proof (rule sched_sect [OF r(2) c3(2,1) c(3)])
    show "proc_ok (procs ?k4 q)" if "q \<in> set slots" "q \<noteq> cp" for q using D(2) [OF that(1)] that(2) by simp
    show "proc_ok ((procs ?k4 cp)\<lparr>pcontext := InSched RExit i\<rparr>)" for i by (simp add: proc_ok_def)
  qed (use D in simp_all)
  then obtain k' where k': "sched c RExit ?k4 = Inr k'" "kinv k' (a_back ?k4 cp A2)" "cproc (cpus k' c) = 0"
    "procs k' = (procs (bump_acc cp ?k4))(cp := (procs (bump_acc cp ?k4) cp)\<lparr>pcontext := InSched RExit (intena (cpus ?k4 c))\<rparr>)"
    by blast
  then have "procs k' = P'(cp := (P' cp)\<lparr>state := ZOMBIE, pcontext := InSched RExit (intena (cpus ?k4 c))\<rparr>)"
    by (simp add: bump_acc_def)
  moreover have "exit_tail c cp k = Inr k'" using t(1) w(1) r(1) k'(1) by (simp add: exit_tail_def)
  ultimately show ?thesis using k'(2,3) w(3) r(3) by blast
qed

lemma exit_tail_ok:
  assumes inv: "kinv k A" and c: "c < ncpu k" "cproc (cpus k c) = cp" "cp \<noteq> 0" and n: "ncli (cpus k c) = 0"
  shows "\<exists>k' A'. exit_tail c cp k = Inr k' \<and> kinv k' A' \<and> cproc (cpus k' c) = 0 \<and> state (procs k' cp) = ZOMBIE \<and>
    status (procs k' cp) = status (procs k cp) \<and> ofile (procs k' cp) = ofile (procs k cp) \<and> cwd (procs k' cp) = cwd (procs k cp) \<and>
    (\<forall>q. parent (procs k' q) = (if q \<in> set slots \<and> parent (procs k q) = cp then initproc k else parent (procs k q))) \<and>
    (\<forall>q \<in> set slots. sleeper (proc_chan (parent (procs k cp))) (procs k q) \<longrightarrow> state (procs k' q) = RUNNABLE) \<and>
    (\<forall>x \<in> set slots. parent (procs k x) = cp \<longrightarrow> state (procs k x) = ZOMBIE \<longrightarrow>
      (\<forall>q \<in> set slots. sleeper (proc_chan (initproc k)) (procs k q) \<longrightarrow> state (procs k' q) = RUNNABLE))"
proof -
  let ?ch = "proc_chan (parent (procs k cp))"
  from exit_tail_tables [OF assms] obtain k' A' P A1 P' A2 i where
    k': "exit_tail c cp k = Inr k'" "kinv k' A'" "cproc (cpus k' c) = 0"
    and w: "woken ?ch slots (procs k) A P A1" and r: "handed cp (initproc k) slots P A1 P' A2"
    and P: "procs k' = P'(cp := (P' cp)\<lparr>state := ZOMBIE, pcontext := InSched RExit i\<rparr>)" by blast
  have "parent (procs k' q) = (if q \<in> set slots \<and> parent (procs k q) = cp then initproc k else parent (procs k q))" for q
    using handedD(4) [OF r, of q] woken_moved(2) [OF w, of q] by (cases "q = cp") (auto simp: P)
  moreover have keep: "state (procs k' q) = RUNNABLE" if "state (P q) = RUNNABLE" "sleeper ch (procs k q)" for q ch
    using that kinv_slot(2) [OF inv c] moved_runnable [OF handedD(3) [OF r, of q]] by (auto simp: P sleeper_def)
  have "state (procs k' q) = RUNNABLE" if q: "q \<in> set slots" "sleeper ?ch (procs k q)" for q
    using keep [OF _ q(2)] woken_runnable [OF w] q by simp
  moreover have "state (procs k' q) = RUNNABLE" if x: "x \<in> set slots" "parent (procs k x) = cp" "state (procs k x) = ZOMBIE"
    and q: "q \<in> set slots" "sleeper (proc_chan (initproc k)) (procs k q)" for x q
  proof -
    have "state (P x) = ZOMBIE" "parent (P x) = cp" using woken_moved [OF w, of x] x by (auto simp: moved_def sleeper_def)
    then have "sleeper (proc_chan (initproc k)) (P q) \<Longrightarrow> state (P' q) = RUNNABLE" using handedD(5) [OF r x(1)] q(1) by simp
    moreover have "sleeper (proc_chan (initproc k)) (P q) \<or> state (P q) = RUNNABLE" by (rule moved_sleeper [OF woken_moved(1) [OF w] q(2)])
    moreover have "q \<noteq> cp" using q(2) kinv_slot(2) [OF inv c] by (auto simp: sleeper_def)
    ultimately show ?thesis using keep [OF _ q(2)] by (auto simp: P)
  qed
  moreover have "status (P' cp) = status (procs k cp)" "ofile (P' cp) = ofile (procs k cp)" "cwd (P' cp) = cwd (procs k cp)"
    using moved_fields [OF handedD(3) [OF r, of cp]] moved_fields [OF woken_moved(1) [OF w, of cp]] by simp_all
  ultimately show ?thesis using k' P by (intro exI [of _ k'] exI [of _ A']) auto
qed

section \<open>Taking a process from the queue\<close>

lemma kinv_enter:
  fixes k k' :: "'f kst"
  assumes inv: "kinv k A" and c: "c < ncpu k" "cproc (cpus k c) = 0" and p: "p \<in> set slots" "state (procs k p) \<noteq> RUNNING"
    and l: "lock_free k'" "ncpu k' = ncpu k"
    and cp: "\<And>i. cproc (cpus k' i) = (if i = c then p else cproc (cpus k i))"
    and nc: "\<And>i. i \<noteq> c \<Longrightarrow> ncli (cpus k' i) = ncli (cpus k i)"
    and st: "state (procs k' p) = RUNNING"
      "\<And>q. q \<in> set slots \<Longrightarrow> q \<noteq> p \<Longrightarrow> state (procs k' q) = RUNNING \<longleftrightarrow> state (procs k q) = RUNNING"
    and ok: "\<And>q. q \<in> set slots \<Longrightarrow> proc_ok (procs k' q)"
    and A: "ds_rep (ds k') A'" "snd ` set (a_pq A') \<subseteq> set slots" "a_rp A' = a_rp A @ [p]"
  shows "kinv k' A'"
proof -
  note ci = kinvD(2) [OF inv] and rp = kinvD(6,7) [OF inv]
  note sl = cpu_inv_slot [OF ci] and uniq = cpu_inv_uniq [OF ci] and run = cpu_inv_running [OF ci]
    and idle = cpu_inv_idle [OF ci] and p0 = slots_nonnull [OF p(1)]
  have off: "\<not> on_cpu k p" using run [OF p(1)] p(2) by simp
  then have off': "cproc (cpus k a) \<noteq> p" if "a < ncpu k" for a using that by (auto simp: on_cpu_def)
  have oc: "on_cpu k' q \<longleftrightarrow> on_cpu k q \<or> q = p" if q: "q \<noteq> 0" for q
  proof
    assume "on_cpu k' q"
    then show "on_cpu k q \<or> q = p" by (auto simp: on_cpu_def l cp split: if_splits)
  next
    assume "on_cpu k q \<or> q = p"
    then show "on_cpu k' q"
    proof
      assume "on_cpu k q"
      then obtain a where "a < ncpu k" "cproc (cpus k a) = q" by (auto simp: on_cpu_def)
      moreover from this have "a \<noteq> c" using c q by auto
      ultimately show ?thesis by (auto simp: on_cpu_def l cp)
    next
      assume "q = p"
      then show ?thesis using c by (auto simp: on_cpu_def l cp)
    qed
  qed
  note nz = slots_nonnull
  have "cpu_inv k'" unfolding cpu_inv_def
  proof (intro conjI ballI allI impI)
    show "state (procs k' q) = RUNNING \<longleftrightarrow> on_cpu k' q" if q: "q \<in> set slots" for q
      using st run [OF q] oc [OF nz [OF q]] q by (cases "q = p") auto
    show "a = b" if "a < ncpu k'" "b < ncpu k'" "cproc (cpus k' a) = cproc (cpus k' b)" "cproc (cpus k' a) \<noteq> 0" for a b
      using uniq [of a b] off' [of a] off' [of b] that by (auto simp: l cp split: if_splits)
    show "cproc (cpus k' a) \<in> set slots" if "a < ncpu k'" "cproc (cpus k' a) \<noteq> 0" for a
      using sl [of a] that p(1) by (simp add: l cp split: if_splits)
    show "ncli (cpus k' a) = 0" if "a < ncpu k'" "cproc (cpus k' a) = 0" for a
      using idle [of a] that p0 nc by (simp add: l cp split: if_splits)
  qed
  moreover have "p \<notin> set (a_rp A)" using rp(2) off by auto
  then have "distinct (a_rp A')" using rp A(3) by simp
  moreover have "set (a_rp A') = {q \<in> set slots. on_cpu k' q}"
    using rp A(3) oc nz p(1) by auto
  ultimately show ?thesis using l ok A by (simp add: kinv_def)
qed

text \<open>The state in which the resumed process runs on, holding the lock.\<close>

lemma sect_enter:
  fixes k k' :: "'f kst"
  assumes inv: "kinv k A" and c: "c < ncpu k" "cproc (cpus k c) = 0" and p: "p \<in> set slots" "state (procs k p) \<noteq> RUNNING"
    and h: "held c k'" and l: "ncpu k' = ncpu k"
    and cp: "\<And>i. cproc (cpus k' i) = (if i = c then p else cproc (cpus k i))"
    and nc: "\<And>i. i \<noteq> c \<Longrightarrow> ncli (cpus k' i) = ncli (cpus k i)"
    and P: "procs k' = (procs k)(p := x)" "state x = RUNNING" "proc_ok x"
    and A: "ds_rep (ds k') A'" "snd ` set (a_pq A') \<subseteq> set slots" "a_rp A' = a_rp A @ [p]"
  shows "sect c k' A'"
  unfolding sect_def
proof
  show "kinv (freed c ptable_lock k') A'"
    by (rule kinv_enter [OF inv c p release_held(2) [OF h]]) (use l cp nc P A kinvD(3) [OF inv] in auto)
qed (rule h)

section \<open>\<^verbatim>\<open>wait\<close>\<close>

lemma wait_scan_find:
  "snd (wait_scan cp P ps h) = find (\<lambda>q. parent (P q) = cp \<and> state (P q) = ZOMBIE) ps"
  by (induction ps arbitrary: h) auto

lemma wait_scan_None:
  "wait_scan cp P ps h = (b, None) \<Longrightarrow> b \<longleftrightarrow> h \<or> (\<exists>p \<in> set ps. parent (P p) = cp)"
  by (induction ps arbitrary: h) (auto split: if_splits)

text \<open>The table entry of a reaped child.\<close>

definition reaped :: "proc \<Rightarrow> proc" where
  "reaped x = x\<lparr>kstack := 0, pid := 0, parent := 0, pname := [], killed := False, state := UNUSED\<rparr>"

lemma proc_ok_reaped [simp]: "proc_ok (reaped x)"
  by (simp add: proc_ok_def reaped_def)

text \<open>
  The outcome of the loop of \<^verbatim>\<open>wait\<close> for process \<open>cp\<close> on the table \<open>P\<close> and the memory
  \<open>m\<close>. The first dead child in the order of the table is collected: its kernel stack and its
  address space are freed, its slot is cleared, and its pid (and status) returned; an error of
  freeing is the error of the call. With no child, or when killed, the result is -1. Else the
  process sleeps on its own entry.
\<close>

definition wait_outcome ::
  "addr \<Rightarrow> bool \<Rightarrow> nat \<Rightarrow> procp \<Rightarrow> (procp \<Rightarrow> proc) \<Rightarrow> kmem \<Rightarrow> abs_ds \<Rightarrow> ((int \<times> int option) option \<times> 'f kst) kres \<Rightarrow> bool" where
  "wait_outcome kend want c cp P m A res \<longleftrightarrow>
     (case find (\<lambda>q. parent (P q) = cp \<and> state (P q) = ZOMBIE) slots of
        Some q \<Rightarrow>
          (case kbind (kfree kend (kstack (P q)) m) (freevm kend (pgdir (P q))) of
             Inl e \<Rightarrow> res = Inl e
           | Inr m' \<Rightarrow> \<exists>k'. res = Inr (Some (pid (P q), if want then Some (status (P q)) else None), k') \<and> kinv k' A \<and>
               cproc (cpus k' c) = cp \<and> km k' = m' \<and> procs k' = P(q := reaped (P q)))
      | None \<Rightarrow>
          if (\<forall>q \<in> set slots. parent (P q) \<noteq> cp) \<or> killed (P cp)
          then \<exists>k'. res = Inr (Some (- 1, None), k') \<and> kinv k' A \<and> cproc (cpus k' c) = cp \<and> km k' = m \<and> procs k' = P
          else \<exists>k' i. res = Inr (None, k') \<and> kinv k' (a_remove cp A) \<and> cproc (cpus k' c) = 0 \<and> km k' = m \<and>
            procs k' = P(cp := (P cp)\<lparr>pchan := proc_chan cp, state := SLEEPING, pcontext := InSched (RWait want) i\<rparr>))"

lemma wait_outcome_kinv: "wait_outcome kend want c cp P m A (Inr (r, k')) \<Longrightarrow> \<exists>A'. kinv k' A'"
  by (auto simp: wait_outcome_def split: option.splits sum.splits if_splits)

lemma sect_wait_reap:
  assumes s: "sect c k A" and p: "cproc (cpus k c) = cp"
    and q: "find (\<lambda>q. parent (procs k q) = cp \<and> state (procs k q) = ZOMBIE) slots = Some q"
    and m: "kfree kend (kstack (procs k q)) (km k) = Inr m1" "freevm kend (pgdir (procs k q)) m1 = Inr m2"
  shows "\<exists>k2 k'. reap kend q k = Inr k2 \<and> status (procs k2 q) = status (procs k q) \<and> release c ptable_lock k2 = Inr k' \<and>
    kinv k' A \<and> cproc (cpus k' c) = cp \<and> km k' = m2 \<and> procs k' = (procs k)(q := reaped (procs k q))"
proof -
  note D = sectD [OF s]
  have qs: "q \<in> set slots" "state (procs k q) = ZOMBIE" using q by (auto simp: find_Some_iff)
  let ?k2 = "set_proc q reaped (k\<lparr>km := m2\<rparr>)"
  have k2: "reap kend q k = Inr ?k2" using m by (simp add: reap_def reaped_def [abs_def])
  have ok: "proc_ok (procs ?k2 x)" if "x \<in> set slots" for x using D(2) [OF that] by (cases "x = q") simp_all
  have st: "state (reaped x) = UNUSED" "status (reaped x) = status x" for x by (simp_all add: reaped_def)
  then have "sect c ?k2 A" by (intro sect_update [OF s]) (use ok qs D in auto)
  from sect_release [OF this] show ?thesis using k2 st p kept_mach(2) [of c ptable_lock ?k2 "freed c ptable_lock ?k2"]
    by (intro exI [of _ ?k2] exI [of _ "freed c ptable_lock ?k2"]) (simp add: kept_def)
qed

lemma sect_wait_sleep:
  assumes s: "sect c k A" and n: "ncli (cpus k c) = 1" and p: "cproc (cpus k c) = cp" "cp \<noteq> 0"
  shows "\<exists>k' i. sleep c (proc_chan cp) ptable_lock (RWait want) k = Inr k' \<and> kinv k' (a_remove cp A) \<and> cproc (cpus k' c) = 0 \<and>
    km k' = km k \<and> procs k' = (procs k)(cp := (procs k cp)\<lparr>pchan := proc_chan cp, state := SLEEPING, pcontext := InSched (RWait want) i\<rparr>)"
proof -
  have my: "myproc c k = Inr (cp, k)" using held_myproc [OF sectD(1) [OF s]] p by simp
  have e: "sleep c (proc_chan cp) ptable_lock (RWait want) k = go_to_sleep c cp (proc_chan cp) (RWait want) k"
    using my p by (simp add: sleep_eq go_to_sleep_def)
  from sleep_tail [OF s n p, of "RWait want" "proc_chan cp"] obtain k' where
    k': "go_to_sleep c cp (proc_chan cp) (RWait want) k = Inr k'" "kinv k' (a_remove cp A)" "cproc (cpus k' c) = 0"
      "procs k' = (procs k)(cp := (procs k cp)\<lparr>pchan := proc_chan cp, state := SLEEPING, pcontext := InSched (RWait want) (intena (cpus k c))\<rparr>)"
    by (auto simp: go_to_sleep_def)
  from kept_go_to_sleep [OF k'(1)] k' e show ?thesis
    by (intro exI [of _ k'] exI [of _ "intena (cpus k c)"]) (simp add: kept_def)
qed

lemma sect_wait_body:
  assumes s: "sect c k A" and n: "ncli (cpus k c) = 1" and p: "cproc (cpus k c) = cp" "cp \<noteq> 0"
  shows "wait_outcome kend want c cp (procs k) (km k) A (wait_body kend want c cp k)"
proof -
  obtain b ch where sc: "wait_scan cp (procs k) slots False = (b, ch)" by (cases "wait_scan cp (procs k) slots False")
  then have f: "find (\<lambda>q. parent (procs k q) = cp \<and> state (procs k q) = ZOMBIE) slots = ch"
    using wait_scan_find [of cp "procs k" slots False] by simp
  show ?thesis
  proof (cases ch)
    case (Some q)
    show ?thesis
    proof (cases "kbind (kfree kend (kstack (procs k q)) (km k)) (freevm kend (pgdir (procs k q)))")
      case (Inl e)
      then have "reap kend q k = Inl e" by (auto simp: reap_def kbind_def split: sum.splits)
      then have "wait_body kend want c cp k = Inl e" using sc Some by (simp add: wait_body_def)
      then show ?thesis using f Some Inl by (simp add: wait_outcome_def)
    next
      case (Inr m2)
      then obtain m1 where m: "kfree kend (kstack (procs k q)) (km k) = Inr m1" "freevm kend (pgdir (procs k q)) m1 = Inr m2"
        by (auto simp: kbind_Inr_iff)
      from sect_wait_reap [OF s p(1) f [unfolded Some] m] obtain k2 k' where
        k': "reap kend q k = Inr k2" "status (procs k2 q) = status (procs k q)" "release c ptable_lock k2 = Inr k'"
          "kinv k' A" "cproc (cpus k' c) = cp" "km k' = m2" "procs k' = (procs k)(q := reaped (procs k q))" by blast
      then have "wait_body kend want c cp k = Inr (Some (pid (procs k q), if want then Some (status (procs k q)) else None), k')"
        using sc Some by (simp add: wait_body_def)
      then show ?thesis using f Some Inr k'(4-7) by (simp add: wait_outcome_def)
    qed
  next
    case None
    have b: "b \<longleftrightarrow> (\<exists>p \<in> set slots. parent (procs k p) = cp)" using wait_scan_None [OF sc [unfolded None]] by simp
    show ?thesis
    proof (cases "\<not> b \<or> killed (procs k cp)")
      case True
      then have "wait_body kend want c cp k = Inr (Some (- 1, None), freed c ptable_lock k)"
        using sc None sect_release(1) [OF s] by (auto simp: wait_body_def)
      moreover have "(\<forall>q \<in> set slots. parent (procs k q) \<noteq> cp) \<or> killed (procs k cp)" using True b by blast
      ultimately show ?thesis using f None sect_release(2) [OF s] kept_mach(2) [OF sect_release(1) [OF s]] p
        by (simp add: wait_outcome_def kept_def)
    next
      case False
      then have nk: "\<not> ((\<forall>q \<in> set slots. parent (procs k q) \<noteq> cp) \<or> killed (procs k cp))" using b by blast
      from sect_wait_sleep [OF s n p, of want] obtain k' i where
        k': "sleep c (proc_chan cp) ptable_lock (RWait want) k = Inr k'" "kinv k' (a_remove cp A)" "cproc (cpus k' c) = 0" "km k' = km k"
          "procs k' = (procs k)(cp := (procs k cp)\<lparr>pchan := proc_chan cp, state := SLEEPING, pcontext := InSched (RWait want) i\<rparr>)" by blast
      then have "wait_body kend want c cp k = Inr (None, k')" using sc None False by (simp add: wait_body_def)
      then show ?thesis unfolding wait_outcome_def f None option.case if_not_P [OF nk] using k'(2-5) by blast
    qed
  qed
qed

lemma wait_ok:
  assumes inv: "kinv k A" and c: "c < ncpu k" "cproc (cpus k c) = cp" "cp \<noteq> 0" and n: "ncli (cpus k c) = 0"
  shows "wait_outcome kend want c cp (procs k) (km k) A (wait kend want c k)"
proof -
  have wf: "wf_mach k" using kinvD(1) [OF inv] by (simp add: lock_free_def)
  let ?k = "noted c k"
  have inv0: "kinv ?k A"
    by (rule kinv_stay [OF inv]) (use kinvD [OF inv] wf_noted [OF wf c(1)] in \<open>simp_all add: lock_free_def\<close>)
  note t = sect_acquire [OF inv0, of c]
  have my: "myproc c k = Inr (cp, ?k)" using myproc_eq [OF wf c(1)] c by simp
  have "wait kend want c k = wait_body kend want c cp (taken c ptable_lock ?k)" using my c t(1) by (simp add: wait_def)
  moreover have "km (taken c ptable_lock ?k) = km k"
    using kept_mach(3) [OF my] kept_mach(1) [OF t(1)] c by (simp add: kept_def)
  ultimately show ?thesis using sect_wait_body [OF t(2), of cp kend want] c n by simp
qed

section \<open>The scheduler\<close>

lemma kinv_sti: "kinv k A \<Longrightarrow> c < ncpu k \<Longrightarrow> cproc (cpus k c) = 0 \<Longrightarrow> kinv (sti c k) A"
proof -
  assume inv: "kinv k A" and c: "c < ncpu k" "cproc (cpus k c) = 0"
  note D = kinvD [OF inv]
  have "wf_mach (sti c k)" unfolding sti_def
    using D(1) cpu_inv_idle [OF D(2) c] c by (intro wf_set_cpu) (auto simp: lock_free_def)
  then show ?thesis by (intro kinv_stay [OF inv]) (use D in \<open>simp_all add: lock_free_def\<close>)
qed

text \<open>The state in which \<^verbatim>\<open>swtch\<close> goes to process \<open>p\<close>.\<close>

definition dispatched :: "nat \<Rightarrow> procp \<Rightarrow> sched_ds \<Rightarrow> 'f kst \<Rightarrow> 'f kst" where
  "dispatched c p d k =
     (set_proc p (\<lambda>x. x\<lparr>state := RUNNING\<rparr>) (set_cpu c (\<lambda>x. x\<lparr>cproc := p\<rparr>) (taken c ptable_lock k)))\<lparr>ds := d\<rparr>"

lemma Priority_Scheduler_idle:
  assumes inv: "kinv k A" and c: "c < ncpu k" and e: "a_pq A = []"
  shows "\<exists>k'. Priority_Scheduler kend c k = Inr (None, k') \<and> kinv k' A \<and> procs k' = procs k \<and>
    (\<forall>i. cproc (cpus k' i) = cproc (cpus k i))"
proof -
  note t = sect_acquire [OF inv c]
  have "isEmptyPriorityQueue (ds (taken c ptable_lock k))" using isEmptyPriorityQueue_ref [OF kinvD(4) [OF inv]] e by simp
  then show ?thesis using t(1) sect_release [OF t(2)]
    by (intro exI [of _ "freed c ptable_lock (taken c ptable_lock k)"]) (simp add: Priority_Scheduler_def)
qed

lemma Priority_Scheduler_extract:
  assumes inv: "kinv k A" and c: "c < ncpu k" and e: "a_pq A = (key, p) # xs"
  shows "\<exists>d. \<not> isEmptyPriorityQueue (ds k) \<and> extractMinPriorityQueue (ds k) = Some (p, d) \<and>
    ds_rep d (A\<lparr>a_pq := xs, a_free := Suc (a_free A)\<rparr>) \<and> p \<in> set slots \<and> snd ` set xs \<subseteq> set slots"
  using extractMinPriorityQueue_ref [OF kinvD(4) [OF inv] e] isEmptyPriorityQueue_ref [OF kinvD(4) [OF inv]]
    kinvD(5) [OF inv] e by auto

lemma Priority_Scheduler_stale:
  assumes inv: "kinv k A" and c: "c < ncpu k" and e: "a_pq A = (key, p) # xs" and st: "state (procs k p) \<noteq> RUNNABLE"
  shows "\<exists>k'. Priority_Scheduler kend c k = Inr (None, k') \<and> kinv k' (A\<lparr>a_pq := xs, a_free := Suc (a_free A)\<rparr>) \<and>
    procs k' = procs k \<and> (\<forall>i. cproc (cpus k' i) = cproc (cpus k i))"
proof -
  note t = sect_acquire [OF inv c]
  from Priority_Scheduler_extract [OF inv c e] obtain d where
    x: "\<not> isEmptyPriorityQueue (ds k)" "extractMinPriorityQueue (ds k) = Some (p, d)"
    "ds_rep d (A\<lparr>a_pq := xs, a_free := Suc (a_free A)\<rparr>)" "p \<in> set slots" "snd ` set xs \<subseteq> set slots" by blast
  let ?k = "(taken c ptable_lock k)\<lparr>ds := d\<rparr>"
  have "sect c ?k (A\<lparr>a_pq := xs, a_free := Suc (a_free A)\<rparr>)"
    by (rule sect_update [OF t(2)]) (use x sectD [OF t(2)] in simp_all)
  from sect_release [OF this] show ?thesis using t(1) x st slots_nonnull [OF x(4)]
    by (intro exI [of _ "freed c ptable_lock ?k"]) (simp add: Priority_Scheduler_def returns_def)
qed

lemma Priority_Scheduler_pick:
  assumes inv: "kinv k A" and c: "c < ncpu k" and e: "a_pq A = (key, p) # xs" and st: "state (procs k p) = RUNNABLE"
  shows "\<exists>d. Priority_Scheduler kend c k = resume_proc kend c p (dispatched c p d k) \<and> p \<in> set slots \<and>
    ds_rep d (A\<lparr>a_pq := xs, a_rp := a_rp A @ [p]\<rparr>) \<and> snd ` set xs \<subseteq> set slots"
proof -
  note t = kinv_taken [OF inv c]
  from Priority_Scheduler_extract [OF inv c e] obtain d where
    x: "\<not> isEmptyPriorityQueue (ds k)" "extractMinPriorityQueue (ds k) = Some (p, d)"
    "ds_rep d (A\<lparr>a_pq := xs, a_free := Suc (a_free A)\<rparr>)" "p \<in> set slots" "snd ` set xs \<subseteq> set slots" by blast
  let ?k1 = "set_cpu c (\<lambda>x. x\<lparr>cproc := p\<rparr>) ((taken c ptable_lock k)\<lparr>ds := d\<rparr>)"
  let ?k2 = "set_proc p (\<lambda>x. x\<lparr>state := RUNNING\<rparr>) ?k1"
  have ok: "kstack (procs k p) \<noteq> 0" "pgdir (procs k p) \<noteq> 0"
    using kinvD(3) [OF inv x(4)] st by (simp_all add: proc_ok_def)
  have sw: "switchuvm c p ?k1 = Inr ?k1"
    by (rule held_switchuvm) (use t(2) ok slots_nonnull [OF x(4)] in simp_all)
  have "ds_rep (ds ?k2) (A\<lparr>a_pq := xs, a_free := Suc (a_free A)\<rparr>)" using x(3) by simp
  from rpholder_add_eq [OF this, of p] obtain d' where
    a: "rpholder_add p ?k2 = Inr (?k2\<lparr>ds := d'\<rparr>)" "ds_rep d' (A\<lparr>a_pq := xs, a_free := a_free A, a_rp := a_rp A @ [p]\<rparr>)"
    by auto
  have "A\<lparr>a_pq := xs, a_free := a_free A, a_rp := a_rp A @ [p]\<rparr> = A\<lparr>a_pq := xs, a_rp := a_rp A @ [p]\<rparr>" by (cases A) simp
  moreover have "?k2\<lparr>ds := d'\<rparr> = dispatched c p d' k" by (simp add: dispatched_def set_proc_def set_cpu_def)
  moreover have "Priority_Scheduler kend c k = resume_proc kend c p (?k2\<lparr>ds := d'\<rparr>)"
    using t(1) x(1,2) st slots_nonnull [OF x(4)] sw a(1) by (simp add: Priority_Scheduler_def returns_def)
  ultimately show ?thesis using a(2) x(4,5) by (intro exI [of _ d']) simp
qed

section \<open>What the scheduler resumes\<close>

lemma held_dispatched [simp]: "held c (dispatched c p d k) = held c (taken c ptable_lock k)"
  by (simp add: dispatched_def)

lemma dispatched_simps [simp]:
  "procs (dispatched c p d k) = (procs k)(p := (procs k p)\<lparr>state := RUNNING\<rparr>)" "ds (dispatched c p d k) = d"
  "ncpu (dispatched c p d k) = ncpu k" "cproc (cpus (dispatched c p d k) i) = (if i = c then p else cproc (cpus k i))"
  "ncli (cpus (dispatched c p d k) i) = ncli (cpus k i) + (if i = c then 1 else 0)"
  by (simp_all add: dispatched_def)

lemma sect_dispatched:
  assumes inv: "kinv k A" and c: "c < ncpu k" "cproc (cpus k c) = 0"
    and p: "p \<in> set slots" "state (procs k p) = RUNNABLE"
    and A: "ds_rep d (A\<lparr>a_pq := xs, a_rp := a_rp A @ [p]\<rparr>)" "snd ` set xs \<subseteq> set slots"
    and g: "state (g ((procs k p)\<lparr>state := RUNNING\<rparr>)) = RUNNING" "proc_ok (g ((procs k p)\<lparr>state := RUNNING\<rparr>))"
  shows "sect c (set_proc p g (dispatched c p d k)) (A\<lparr>a_pq := xs, a_rp := a_rp A @ [p]\<rparr>)"
    "sect c (set_cpu c (\<lambda>x. x\<lparr>intena := i\<rparr>) (set_proc p g (dispatched c p d k))) (A\<lparr>a_pq := xs, a_rp := a_rp A @ [p]\<rparr>)"
proof -
  have st: "state (procs k p) \<noteq> RUNNING" using p(2) by simp
  note t = kinv_taken(2) [OF inv c(1)]
  show "sect c (set_proc p g (dispatched c p d k)) (A\<lparr>a_pq := xs, a_rp := a_rp A @ [p]\<rparr>)"
    by (rule sect_enter [OF inv c p(1) st, of _ "g ((procs k p)\<lparr>state := RUNNING\<rparr>)"]) (use t g A in simp_all)
  show "sect c (set_cpu c (\<lambda>x. x\<lparr>intena := i\<rparr>) (set_proc p g (dispatched c p d k))) (A\<lparr>a_pq := xs, a_rp := a_rp A @ [p]\<rparr>)"
    by (rule sect_enter [OF inv c p(1) st, of _ "g ((procs k p)\<lparr>state := RUNNING\<rparr>)"]) (use t g A in simp_all)
qed

lemma resume_ok:
  assumes inv: "kinv k A" and c: "c < ncpu k" "cproc (cpus k c) = 0"
    and p: "p \<in> set slots" "state (procs k p) = RUNNABLE"
    and A: "ds_rep d (A\<lparr>a_pq := xs, a_rp := a_rp A @ [p]\<rparr>)" (is "ds_rep d ?A") "snd ` set xs \<subseteq> set slots"
    and nw: "\<And>b i. pcontext (procs k p) \<noteq> InSched (RWait b) i"
  shows "\<exists>k'. resume_proc kend c p (dispatched c p d k) = Inr (None, k') \<and> kinv k' ?A \<and> cproc (cpus k' c) = p \<and>
    state (procs k' p) = RUNNING \<and> (\<forall>q. q \<noteq> p \<longrightarrow> procs k' q = procs k q)"
proof -
  note sd = sect_dispatched [OF inv c p A]
  have ok: "proc_ok (procs k p)" by (rule kinvD(3) [OF inv p(1)])
  have on: "proc_ok ((procs k p)\<lparr>state := RUNNING, pcontext := OnCpu\<rparr>)"
    "proc_ok ((procs k p)\<lparr>state := RUNNING, pchan := NoChan, pcontext := Reacquire l\<rparr>)" for l
    using ok p(2) by (simp_all add: proc_ok_def)
  consider (f) "pcontext (procs k p) = Forkret" | (y) i where "pcontext (procs k p) = InSched RYield i"
    | (s) l i where "pcontext (procs k p) = InSched (RSleep l) i"
    using ok p(2) nw by (auto simp: proc_ok_def ctx_ok_def split: kcont.splits) (metis resume.exhaust)
  then show ?thesis
  proof cases
    case f
    have s: "sect c (set_proc p (\<lambda>x. x\<lparr>pcontext := OnCpu\<rparr>) (dispatched c p d k)) ?A" by (rule sd(1)) (use on in simp_all)
    from sect_release [OF s] f show ?thesis
      by (intro exI [of _ "freed c ptable_lock (set_proc p (\<lambda>x. x\<lparr>pcontext := OnCpu\<rparr>) (dispatched c p d k))"])
        (simp add: resume_proc_def)
  next
    case (y i)
    let ?k = "set_cpu c (\<lambda>x. x\<lparr>intena := i\<rparr>) (set_proc p (\<lambda>x. x\<lparr>pcontext := OnCpu\<rparr>) (dispatched c p d k))"
    have s: "sect c ?k ?A" by (rule sd(2)) (use on in simp_all)
    from sect_release [OF s] y show ?thesis
      by (intro exI [of _ "freed c ptable_lock ?k"]) (simp add: resume_proc_def)
  next
    case (s l i)
    let ?g = "\<lambda>x. x\<lparr>pchan := NoChan, pcontext := Reacquire l\<rparr>"
    let ?k = "set_cpu c (\<lambda>x. x\<lparr>intena := i\<rparr>) (set_proc p ?g (dispatched c p d k))"
    have sc: "sect c ?k ?A" by (rule sd(2)) (use on in simp_all)
    have e: "set_proc p ?g (set_cpu c (\<lambda>x. x\<lparr>intena := i\<rparr>) (set_proc p (\<lambda>x. x\<lparr>pcontext := OnCpu\<rparr>) (dispatched c p d k))) = ?k"
      by (simp add: set_proc_def set_cpu_def)
    have r: "resume_proc kend c p (dispatched c p d k) = kbind (release c ptable_lock
      (set_proc p ?g (set_cpu c (\<lambda>x. x\<lparr>intena := i\<rparr>) (set_proc p (\<lambda>x. x\<lparr>pcontext := OnCpu\<rparr>) (dispatched c p d k)))))
      (\<lambda>k. Inr (None, k))" using s by (simp add: resume_proc_def)
    show ?thesis unfolding r e using sect_release [OF sc] by (intro exI [of _ "freed c ptable_lock ?k"]) simp
  qed
qed

lemma resume_wait:
  assumes inv: "kinv k A" and c: "c < ncpu k" "cproc (cpus k c) = 0"
    and p: "p \<in> set slots" "state (procs k p) = RUNNABLE"
    and A: "ds_rep d (A\<lparr>a_pq := xs, a_rp := a_rp A @ [p]\<rparr>)" (is "ds_rep d ?A") "snd ` set xs \<subseteq> set slots"
    and w: "pcontext (procs k p) = InSched (RWait want) i"
  shows "wait_outcome kend want c p ((procs k)(p := (procs k p)\<lparr>state := RUNNING, pcontext := OnCpu, pchan := NoChan\<rparr>)) (km k) ?A
    (resume_proc kend c p (dispatched c p d k))"
proof -
  have ok: "proc_ok (procs k p)" by (rule kinvD(3) [OF inv p(1)])
  let ?g = "\<lambda>x. x\<lparr>pcontext := OnCpu, pchan := NoChan\<rparr>"
  let ?k = "set_cpu c (\<lambda>x. x\<lparr>intena := i\<rparr>) (set_proc p ?g (dispatched c p d k))"
  have s: "sect c ?k ?A" by (rule sect_dispatched(2) [OF inv c p A]) (use ok p in \<open>simp_all add: proc_ok_def\<close>)
  have e: "set_proc p (\<lambda>x. x\<lparr>pchan := NoChan\<rparr>) (set_cpu c (\<lambda>x. x\<lparr>intena := i\<rparr>) (set_proc p (\<lambda>x. x\<lparr>pcontext := OnCpu\<rparr>) (dispatched c p d k))) = ?k"
    by (simp add: set_proc_def set_cpu_def)
  have r: "resume_proc kend c p (dispatched c p d k) = wait_body kend want c p
    (set_proc p (\<lambda>x. x\<lparr>pchan := NoChan\<rparr>) (set_cpu c (\<lambda>x. x\<lparr>intena := i\<rparr>) (set_proc p (\<lambda>x. x\<lparr>pcontext := OnCpu\<rparr>) (dispatched c p d k))))"
    using w by (simp add: resume_proc_def)
  have n: "ncli (cpus ?k c) = 1" "cproc (cpus ?k c) = p" using cpu_inv_idle [OF kinvD(2) [OF inv] c] by simp_all
  have "km ?k = km k" using kept_mach(1) [OF sect_acquire(1) [OF inv c(1)]] by (simp add: dispatched_def kept_def)
  then show ?thesis using sect_wait_body [OF s n slots_nonnull [OF p(1)], of kend want] unfolding r e by simp
qed

lemma Priority_Scheduler_kinv:
  assumes inv: "kinv k A" and c: "c < ncpu k" "cproc (cpus k c) = 0" and r: "Priority_Scheduler kend c k = Inr (r, k')"
  shows "\<exists>A'. kinv k' A'"
proof (cases "a_pq A")
  case Nil
  then show ?thesis using Priority_Scheduler_idle [OF inv c(1) Nil, of kend] r by auto
next
  case (Cons e xs)
  obtain key p where e: "a_pq A = (key, p) # xs" using Cons by (cases e) simp
  show ?thesis
  proof (cases "state (procs k p) = RUNNABLE")
    case False
    then show ?thesis using Priority_Scheduler_stale [OF inv c(1) e False, of kend] r by auto
  next
    case True
    from Priority_Scheduler_pick [OF inv c(1) e True, of kend] obtain d where
      d: "Priority_Scheduler kend c k = resume_proc kend c p (dispatched c p d k)" "p \<in> set slots"
      "ds_rep d (A\<lparr>a_pq := xs, a_rp := a_rp A @ [p]\<rparr>)" "snd ` set xs \<subseteq> set slots" by blast
    show ?thesis
    proof (cases "\<exists>b i. pcontext (procs k p) = InSched (RWait b) i")
      case True
      then obtain b i where w: "pcontext (procs k p) = InSched (RWait b) i" by blast
      from resume_wait [OF inv c d(2) \<open>state (procs k p) = RUNNABLE\<close> d(3,4) w, of kend] show ?thesis
        unfolding d(1) [symmetric] r by (rule wait_outcome_kinv)
    next
      case False
      then show ?thesis using resume_ok [OF inv c d(2) True d(3,4), of kend] d(1) r by auto
    qed
  qed
qed

section \<open>Creating a process\<close>

lemma kinv_local:
  assumes inv: "kinv k A" and p: "state (procs k p) \<noteq> RUNNING" "state (f (procs k p)) \<noteq> RUNNING"
    and ok: "proc_ok (f (procs k p))"
  shows "kinv (set_proc p f k) A"
proof (rule kinv_stay [OF inv])
  show "proc_ok (procs (set_proc p f k) q)" if "q \<in> set slots" for q
    using kinvD(3) [OF inv that] ok by (cases "q = p") simp_all
qed (use kinvD [OF inv] p in \<open>auto simp: lock_free_def\<close>)

lemma kinv_km: "kinv k A \<Longrightarrow> kinv (k\<lparr>km := m\<rparr>) A" "kinv k A \<Longrightarrow> kinv (k\<lparr>fsst := fs\<rparr>) A"
  by (rule kinv_stay; use kinvD [of k A] in \<open>simp add: lock_free_def\<close>)+

lemma allocproc_ok:
  assumes inv: "kinv k A" and c: "c < ncpu k"
  shows "\<exists>r k'. allocproc c k = Inr (r, k') \<and> kinv k' A \<and> (\<forall>q. q \<in> set slots \<longrightarrow> state (procs k q) \<noteq> UNUSED \<longrightarrow> procs k' q = procs k q) \<and>
    (r \<noteq> 0 \<longrightarrow> r \<in> set slots \<and> state (procs k r) = UNUSED \<and> nextpid k' = s32 (nextpid k + 1) \<and>
      (\<exists>ks. ks \<noteq> 0 \<and> procs k' = (procs k)(r := (procs k r)\<lparr>state := EMBRYO, pid := nextpid k, kstack := ks, pcontext := Forkret\<rparr>)))"
proof -
  note t = sect_acquire [OF inv c] and ft = sect_release [OF sect_acquire(2) [OF inv c]]
  let ?k1 = "taken c ptable_lock k"
  show ?thesis
  proof (cases "find (\<lambda>p. state (procs k p) = UNUSED) slots")
    case None
    then show ?thesis using t(1) ft
      by (intro exI [of _ 0] exI [of _ "freed c ptable_lock ?k1"]) (simp add: allocproc_def)
  next
    case (Some p)
    note sl = find_slot [OF Some]
    let ?k2 = "(set_proc p (\<lambda>x. x\<lparr>state := EMBRYO, pid := nextpid k\<rparr>) ?k1)\<lparr>nextpid := s32 (nextpid k + 1)\<rparr>"
    have ok2: "proc_ok (procs ?k2 q)" if "q \<in> set slots" for q
      using kinvD(3) [OF inv that] by (cases "q = p") (simp_all add: proc_ok_def)
    have "sect c ?k2 A" by (rule sect_update [OF t(2)]) (use ok2 sectD [OF t(2)] sl in simp_all)
    note r2 = sect_release [OF this]
    let ?k3 = "freed c ptable_lock ?k2"
    obtain ks m where ka: "kalloc (km ?k3) = (ks, m)" by (cases "kalloc (km ?k3)") simp
    note inv3 = kinv_km(1) [OF r2(2), of m]
    let ?k4 = "set_proc p (\<lambda>x. x\<lparr>kstack := ks\<rparr>) (?k3\<lparr>km := m\<rparr>)"
    have inv4: "kinv ?k4 A" by (rule kinv_local [OF inv3]) (simp_all add: proc_ok_def)
    show ?thesis
    proof (cases "ks = 0")
      case True
      let ?k5 = "set_proc p (\<lambda>x. x\<lparr>state := UNUSED\<rparr>) ?k4"
      have "kinv ?k5 A" by (rule kinv_local [OF inv4]) (simp_all add: proc_ok_def)
      moreover have "allocproc c k = Inr (0, ?k5)" using t(1) Some r2(1) ka True by (simp add: allocproc_def Let_def)
      ultimately show ?thesis using sl by (intro exI [of _ 0] exI [of _ ?k5]) auto
    next
      case False
      let ?k5 = "set_proc p (\<lambda>x. x\<lparr>pcontext := Forkret\<rparr>) ?k4"
      have "kinv ?k5 A" by (rule kinv_local [OF inv4]) (simp_all add: proc_ok_def)
      moreover have "allocproc c k = Inr (p, ?k5)" using t(1) Some r2(1) ka False by (simp add: allocproc_def Let_def)
      ultimately show ?thesis using sl False by (intro exI [of _ p] exI [of _ ?k5]) auto
    qed
  qed
qed

lemma publish_ok:
  assumes inv: "kinv k A" and c: "c < ncpu k" and p: "p \<in> set slots" "state (procs k p) = EMBRYO"
    and x: "pcontext (procs k p) = Forkret" "kstack (procs k p) \<noteq> 0" "pgdir (procs k p) \<noteq> 0"
  shows "\<exists>k'. publish c p k = Inr k' \<and> kinv k' (a_put (\<lambda>_. a_min (getAccumulator k) A) p A) \<and>
    procs k' = (procs k)(p := (procs k p)\<lparr>state := RUNNABLE, priority := 5, accumulator := a_min (getAccumulator k) A\<rparr>)"
proof -
  note t = sect_acquire [OF inv c] and D = kinvD [OF inv]
  let ?k1 = "set_proc p (\<lambda>x. x\<lparr>state := RUNNABLE, priority := 5\<rparr>) (taken c ptable_lock k)"
  let ?a = "a_min (getAccumulator k) A"
  let ?k2 = "set_proc p (\<lambda>x. x\<lparr>accumulator := ?a\<rparr>) ?k1"
  have "getAccumulator ?k1 = getAccumulator k" by (auto simp: getAccumulator_def)
  then have g: "get_min ?k1 = Inr ?a" using get_min_eq [of ?k1 A] D(4) by simp
  have "ds_rep (ds ?k2) A" using D(4) by simp
  from pq_put_eq [OF this, of p] obtain d where
    d: "pq_put p ?k2 = Inr (?k2\<lparr>ds := d\<rparr>)" "ds_rep d (a_put (getAccumulator ?k2) p A)" by blast
  have e: "a_put (getAccumulator ?k2) p A = a_put (\<lambda>_. ?a) p A" by (simp add: a_put_def getAccumulator_def)
  have ok: "proc_ok (procs (?k2\<lparr>ds := d\<rparr>) q)" if "q \<in> set slots" for q
    using D(3) [OF that] x by (cases "q = p") (simp_all add: proc_ok_def)
  have "sect c (?k2\<lparr>ds := d\<rparr>) (a_put (\<lambda>_. ?a) p A)"
    by (rule sect_update [OF t(2)]) (use ok d(2) [unfolded e] a_put_within [OF D(5) p(1)] p in simp_all)
  from sect_release [OF this] show ?thesis using t(1) g d(1)
    by (intro exI [of _ "freed c ptable_lock (?k2\<lparr>ds := d\<rparr>)"]) (simp add: publish_def Let_def)
qed

end
