(* ===== verification/ProcSteps.thy ===== *)
theory ProcSteps
  imports ProcSched
begin

text \<open>
  The kernel as a transition system. A step is a section of \<^verbatim>\<open>proc.c\<close> run by one CPU
  from taking \<^verbatim>\<open>ptable.lock\<close> to releasing it (for the scheduler and the functions
  that call \<^verbatim>\<open>sched\<close>, to the release on the other side of \<^verbatim>\<open>swtch\<close>), an
  operation on another lock, or work outside the locks on fields that no other CPU
  uses. The sections of different CPUs exclude each other through the lock, so the
  steps interleave in any order.
\<close>

text \<open>Changes of a table entry by its owner outside the lock.\<close>

definition private_change :: "proc \<Rightarrow> proc \<Rightarrow> bool" where
  "private_change x y \<longleftrightarrow> state y = state x \<and> pcontext y = pcontext x \<and> pid y = pid x \<and>
     (kstack x \<noteq> 0 \<longrightarrow> kstack y \<noteq> 0) \<and> (pgdir x \<noteq> 0 \<longrightarrow> pgdir y \<noteq> 0)"

inductive kstep :: "addr \<Rightarrow> 'f kst \<Rightarrow> 'f kst \<Rightarrow> bool" for kend :: addr where
  step_scheduler: "c < ncpu k \<Longrightarrow> cproc (cpus k c) = 0 \<Longrightarrow> scheduler kend c k = Inr (r, k') \<Longrightarrow> kstep kend k k'"
| step_yield: "c < ncpu k \<Longrightarrow> cproc (cpus k c) = p \<Longrightarrow> p \<noteq> 0 \<Longrightarrow> ncli (cpus k c) = 0 \<Longrightarrow>
    yield c k = Inr k' \<Longrightarrow> kstep kend k k'"
| step_sleep: "c < ncpu k \<Longrightarrow> cproc (cpus k c) = p \<Longrightarrow> p \<noteq> 0 \<Longrightarrow> ncli (cpus k c) = 1 \<Longrightarrow> lk \<noteq> 0 \<Longrightarrow> lk \<noteq> ptable_lock \<Longrightarrow>
    locked (locks k lk) \<Longrightarrow> lcpu (locks k lk) = Suc c \<Longrightarrow> sleep c ch lk (RSleep lk) k = Inr k' \<Longrightarrow> kstep kend k k'"
| step_reacquire: "c < ncpu k \<Longrightarrow> cproc (cpus k c) = p \<Longrightarrow> p \<noteq> 0 \<Longrightarrow> pcontext (procs k p) = Reacquire lk \<Longrightarrow>
    lk \<noteq> ptable_lock \<Longrightarrow> reacquire c p lk k = Inr k' \<Longrightarrow> kstep kend k k'"
| step_exit: "c < ncpu k \<Longrightarrow> cproc (cpus k c) = p \<Longrightarrow> p \<noteq> 0 \<Longrightarrow> ncli (cpus k c) = 0 \<Longrightarrow>
    exit_tail c p k = Inr k' \<Longrightarrow> kstep kend k k'"
| step_wait: "c < ncpu k \<Longrightarrow> cproc (cpus k c) = p \<Longrightarrow> p \<noteq> 0 \<Longrightarrow> ncli (cpus k c) = 0 \<Longrightarrow>
    wait kend want c k = Inr (r, k') \<Longrightarrow> kstep kend k k'"
| step_wakeup: "c < ncpu k \<Longrightarrow> wakeup ch c k = Inr k' \<Longrightarrow> kstep kend k k'"
| step_kill: "c < ncpu k \<Longrightarrow> kill n c k = Inr (i, k') \<Longrightarrow> kstep kend k k'"
| step_detach: "c < ncpu k \<Longrightarrow> detach n c k = Inr (i, k') \<Longrightarrow> kstep kend k k'"
| step_priority: "c < ncpu k \<Longrightarrow> cproc (cpus k c) \<noteq> 0 \<Longrightarrow> set_priority prio c k = Inr k' \<Longrightarrow> kstep kend k k'"
| step_allocproc: "c < ncpu k \<Longrightarrow> allocproc c k = Inr (p, k') \<Longrightarrow> kstep kend k k'"
| step_publish: "c < ncpu k \<Longrightarrow> p \<in> set slots \<Longrightarrow> state (procs k p) = EMBRYO \<Longrightarrow> pcontext (procs k p) = Forkret \<Longrightarrow>
    kstack (procs k p) \<noteq> 0 \<Longrightarrow> pgdir (procs k p) \<noteq> 0 \<Longrightarrow> publish c p k = Inr k' \<Longrightarrow> kstep kend k k'"
| step_fork_fails: "state (procs k p) = EMBRYO \<Longrightarrow>
    kstep kend k (set_proc p (\<lambda>x. x\<lparr>kstack := 0, state := UNUSED\<rparr>) (k\<lparr>km := m\<rparr>))"
| step_lock: "c < ncpu k \<Longrightarrow> cproc (cpus k c) \<noteq> 0 \<Longrightarrow> l \<noteq> ptable_lock \<Longrightarrow> acquire c l k = Inr k' \<Longrightarrow> kstep kend k k'"
| step_unlock: "c < ncpu k \<Longrightarrow> cproc (cpus k c) \<noteq> 0 \<Longrightarrow> l \<noteq> ptable_lock \<Longrightarrow> 0 < ncli (cpus k c) \<Longrightarrow>
    release c l k = Inr k' \<Longrightarrow> kstep kend k k'"
| step_private: "private_change (procs k p) (f (procs k p)) \<Longrightarrow>
    kstep kend k (set_proc p f (k\<lparr>km := m, fsst := fs\<rparr>))"

section \<open>Every step keeps the invariant\<close>

lemma kinv_private:
  assumes inv: "kinv k A" and f: "private_change (procs k p) (f (procs k p))"
  shows "kinv (set_proc p f (k\<lparr>km := m, fsst := fs\<rparr>)) A"
proof (rule kinv_stay [OF inv])
  have "proc_ok (f (procs k p))" if "p \<in> set slots"
    using kinvD(3) [OF inv that] f by (simp add: proc_ok_def private_change_def)
  then show "proc_ok (procs (set_proc p f (k\<lparr>km := m, fsst := fs\<rparr>)) q)" if "q \<in> set slots" for q
    using kinvD(3) [OF inv that] that by (cases "q = p") simp_all
qed (use kinvD [OF inv] f in \<open>auto simp: lock_free_def private_change_def\<close>)

lemma kinv_lock:
  assumes inv: "kinv k A" and c: "c < ncpu k" "cproc (cpus k c) \<noteq> 0" and l: "l \<noteq> ptable_lock"
  shows "kinv (taken c l k) A" "0 < ncli (cpus k c) \<Longrightarrow> kinv (freed c l k) A"
proof -
  note D = kinvD [OF inv]
  have wf: "wf_mach k" "\<not> locked (locks k ptable_lock)" using D(1) by (simp_all add: lock_free_def)
  show "kinv (taken c l k) A"
    by (rule kinv_stay [OF inv]) (use D wf wf_taken [OF wf(1) c(1), of l] l c in \<open>auto simp: lock_free_def\<close>)
  show "kinv (freed c l k) A" if "0 < ncli (cpus k c)"
    by (rule kinv_stay [OF inv]) (use D wf wf_freed [OF wf(1) c(1) that, of l] l c in \<open>auto simp: lock_free_def\<close>)
qed

lemma kinv_reacquire:
  assumes inv: "kinv k A" and c: "c < ncpu k" "cproc (cpus k c) = p" "p \<noteq> 0" and l: "l \<noteq> ptable_lock"
    and r: "reacquire c p l k = Inr k'"
  shows "kinv k' A"
proof -
  let ?k = "set_proc p (\<lambda>x. x\<lparr>pcontext := OnCpu\<rparr>) k"
  note sl = kinv_slot [OF inv c] and D = kinvD [OF inv]
  have inv1: "kinv ?k A"
  proof (rule kinv_stay [OF inv])
    show "proc_ok (procs ?k q)" if "q \<in> set slots" for q
      using D(3) [OF that] sl by (cases "q = p") (simp_all add: proc_ok_def)
  qed (use D sl in \<open>auto simp: lock_free_def\<close>)
  have "k' = taken c l ?k"
    using r acquire_cases [of ?k c l] D(1) c by (auto simp: reacquire_def lock_free_def split: if_splits)
  then show ?thesis using kinv_lock(1) [OF inv1 _ _ l] c by simp
qed

lemma kstep_kinv:
  assumes "kstep kend k k'" and inv: "kinv k A"
  shows "\<exists>A'. kinv k' A'"
  using assms(1)
proof cases
  case (step_scheduler c r)
  then show ?thesis using Priority_Scheduler_kinv [OF kinv_sti [OF inv], of c c kend r k'] by (simp add: scheduler_def)
next
  case (step_yield c p)
  then show ?thesis using yield_ok [OF inv, of c p] by auto
next
  case (step_sleep c p lk ch)
  then show ?thesis using sleep_ok [OF inv, of c p lk ch] by auto
next
  case (step_reacquire c p lk)
  then show ?thesis using kinv_reacquire [OF inv, of c p lk k'] by auto
next
  case (step_exit c p)
  then show ?thesis using exit_tail_ok [OF inv, of c p] by auto
next
  case (step_wait c p want r)
  then show ?thesis using wait_ok [OF inv, of c p kend want] wait_outcome_kinv [of kend want c p] by metis
next
  case (step_wakeup c ch)
  then show ?thesis using wakeup_ok [OF inv, of c ch] by auto
next
  case (step_kill c n i)
  then show ?thesis using kill_absent [OF inv, of c n] kill_present [OF inv, of c n]
    by (cases "find (\<lambda>p. pid (procs k p) = n) slots") (auto simp: find_None_iff)
next
  case (step_detach c n i)
  then show ?thesis using detach_ok [OF inv, of c "cproc (cpus k c)" n] by (auto split: option.splits)
next
  case (step_priority c prio)
  then show ?thesis using set_priority_ok [OF inv, of c "cproc (cpus k c)" prio] by auto
next
  case (step_allocproc c p)
  then show ?thesis using allocproc_ok [OF inv, of c] by auto
next
  case (step_publish c p)
  then show ?thesis using publish_ok [OF inv, of c p] by auto
next
  case (step_fork_fails p m)
  then show ?thesis using kinv_local [OF kinv_km(1) [OF inv, of m], of p "\<lambda>x. x\<lparr>kstack := 0, state := UNUSED\<rparr>"]
    by (auto simp: proc_ok_def)
next
  case (step_lock c l)
  then show ?thesis using kinv_lock(1) [OF inv, of c l] acquire_cases [of k c l] kinvD(1) [OF inv]
    by (auto simp: lock_free_def split: if_splits)
next
  case (step_unlock c l)
  then show ?thesis using kinv_lock(2) [OF inv, of c l] release_cases [of k c l] kinvD(1) [OF inv]
    by (auto simp: lock_free_def split: if_splits)
next
  case (step_private p f m fs)
  then show ?thesis using kinv_private [OF inv, of p f m fs] by auto
qed

lemma reachable_kinv: "(kstep kend)\<^sup>*\<^sup>* k k' \<Longrightarrow> kinv k A \<Longrightarrow> \<exists>A'. kinv k' A'"
proof (induction rule: rtranclp_induct)
  case base
  then show ?case by blast
next
  case (step y z)
  then show ?case using kstep_kinv by blast
qed

end
