(* ===== verification/ProcEx.thy ===== *)
theory ProcEx
  imports ProcSteps SchedEx
begin

text \<open>
  A concrete kernel state with two CPUs: CPU 0 runs process 2 and CPU 1 is idle; process
  3 is queued, process 4 sleeps on a channel, process 5 is a zombie child and process 6
  an unfinished child of process 2, and process 1 is \<^verbatim>\<open>init\<close>, asleep in
  \<^verbatim>\<open>wait\<close>. The scheduler's structures and the state of the file system are parameters.
\<close>

definition ex_proc :: "procstate \<Rightarrow> kcont \<Rightarrow> int \<Rightarrow> procp \<Rightarrow> chan \<Rightarrow> proc" where
  "ex_proc st ctx n par ch =
     \<lparr>sz = 0x3000, pgdir = (if st = UNUSED then 0 else 0x80500000), kstack = (if st = UNUSED then 0 else 0x80600000),
      state = st, pid = n, parent = par, tf = initial_tf, pcontext = ctx, pchan = ch, killed = False,
      ofile = (\<lambda>_. 0), cwd = 0, pname = ''p'', status = 42, priority = 5, accumulator = 5, counter = 0\<rparr>"

definition ex_procs :: "procp \<Rightarrow> proc" where
  "ex_procs = (\<lambda>_. ex_proc UNUSED Forkret 0 0 NoChan)
     (1 := ex_proc SLEEPING (InSched (RWait True) False) 1 0 (ProcChan 1), 2 := ex_proc RUNNING OnCpu 2 1 NoChan,
      3 := ex_proc RUNNABLE Forkret 3 2 NoChan, 4 := ex_proc SLEEPING (InSched (RSleep 2) True) 4 2 (ObjChan 7),
      5 := ex_proc ZOMBIE (InSched RExit True) 5 2 NoChan, 6 := ex_proc EMBRYO Forkret 6 2 NoChan)"

definition ex_cpu :: "nat \<Rightarrow> cpu" where
  "ex_cpu i = \<lparr>apicid = of_nat i, ncli = 0, intena = True, cproc = (if i = 0 then 2 else 0), eflags_IF = True,
     lapicid = of_nat i\<rparr>"

definition ex_kfs :: "'f \<Rightarrow> sched_ds \<Rightarrow> 'f kst" where
  "ex_kfs fs d = \<lparr>cpus = ex_cpu, ncpu = 2, locks = (\<lambda>_. \<lparr>locked = False, lname = ''l'', lcpu = 0\<rparr>),
     procs = ex_procs, nextpid = 7, initproc = 1, ds = d, km = two_pages, fsst = fs\<rparr>"

abbreviation ex_kst :: "sched_ds \<Rightarrow> unit kst" where
  "ex_kst \<equiv> ex_kfs ()"

lemma ex_kst_simps [simp]:
  "ncpu (ex_kfs fs d) = 2" "procs (ex_kfs fs d) = ex_procs" "ds (ex_kfs fs d) = d" "initproc (ex_kfs fs d) = 1"
  "cproc (cpus (ex_kfs fs d) i) = (if i = 0 then 2 else 0)" "ncli (cpus (ex_kfs fs d) i) = 0" "nextpid (ex_kfs fs d) = 7"
  "\<not> locked (locks (ex_kfs fs d) l)" "fsst (ex_kfs fs d) = fs"
  by (simp_all add: ex_kfs_def ex_cpu_def)

lemma ex_state [simp]:
  "state (ex_procs p) = (if p = 1 \<or> p = 4 then SLEEPING else if p = 2 then RUNNING else if p = 3 then RUNNABLE
     else if p = 5 then ZOMBIE else if p = 6 then EMBRYO else UNUSED)"
  by (simp add: ex_procs_def ex_proc_def)

lemma ex_fields [simp]:
  "pid (ex_procs p) = (if 1 \<le> p \<and> p \<le> 6 then int p else 0)"
  "parent (ex_procs p) = (if p = 2 then 1 else if 3 \<le> p \<and> p \<le> 6 then 2 else 0)"
  "accumulator (ex_procs p) = 5" "priority (ex_procs p) = 5" "status (ex_procs p) = 42" "\<not> killed (ex_procs p)"
  "pcontext (ex_procs 3) = Forkret" "pcontext (ex_procs 6) = Forkret" "pcontext (ex_procs 2) = OnCpu"
  "pchan (ex_procs p) = (if p = 1 then ProcChan 1 else if p = 4 then ObjChan 7 else NoChan)"
  "kstack (ex_procs 6) \<noteq> 0" "pgdir (ex_procs 6) \<noteq> 0"
  by (auto simp: ex_procs_def ex_proc_def)

lemma ex_proc_ok: "proc_ok (ex_procs p)"
  by (auto simp: ex_procs_def ex_proc_def proc_ok_def)

lemma ex_wf: "wf_mach (ex_kfs fs d)"
  by (auto simp: wf_mach_def ex_kfs_def ex_cpu_def less_2_cases_iff)

lemma ex_on_cpu: "on_cpu (ex_kfs fs d) p \<longleftrightarrow> p = 2 \<or> p = 0"
  by (auto simp: on_cpu_def less_2_cases_iff)

lemma ex_kinv:
  assumes "ds_rep d A" and "snd ` set (a_pq A) \<subseteq> set slots" and "a_rp A = [2]"
  shows "kinv (ex_kfs fs d) A"
proof -
  have "cpu_inv (ex_kfs fs d)" by (auto simp: cpu_inv_def ex_on_cpu set_slots less_2_cases_iff)
  moreover have "lock_free (ex_kfs fs d)" using ex_wf by (simp add: lock_free_def)
  moreover have "set (a_rp A) = {p \<in> set slots. on_cpu (ex_kfs fs d) p}" using assms(3) by (auto simp: ex_on_cpu set_slots)
  ultimately show ?thesis using assms ex_proc_ok by (simp add: kinv_def)
qed

text \<open>With one free link, with none, and with three.\<close>

lemma busy_kinv: "kinv (ex_kst busy_ds) \<lparr>a_pq = [(5, 3)], a_rr = [1], a_rp = [2], a_free = 1\<rparr>"
  by (rule ex_kinv [OF busy_ds_rep]) (simp_all add: set_slots)

lemma pq_kinv: "kinv (ex_kst pq_ds) \<lparr>a_pq = [(5, 3)], a_rr = [], a_rp = [2], a_free = 2\<rparr>"
  by (rule ex_kinv [OF pq_ds_rep]) (simp_all add: set_slots)

definition full_ds :: sched_ds where
  "full_ds = busy_ds\<lparr>freeLinks := 0\<rparr>"

lemma full_ds_rep: "ds_rep full_ds \<lparr>a_pq = [(5, 3)], a_rr = [1], a_rp = [2], a_free = 0\<rparr>"
proof -
  have "ds_inv full_ds [] [128, 192, 256] [24] [40] (priorityQ full_ds) (Nd Lf 64 5 [16] Lf) 0 Lf"
    by (simp add: ds_inv_def full_ds_def busy_ds_def free_links_def free_nodes_def clear_node_def new_node_def new_link_def
        ll_rep_def empty_list_def)
  then have "ds_rep full_ds (absd (lp full_ds) [] [24] [40] (Nd Lf 64 5 [16] Lf))" unfolding ds_rep_def by blast
  moreover have "absd (lp full_ds) [] [24] [40] (Nd Lf 64 5 [16] Lf) = \<lparr>a_pq = [(5, 3)], a_rr = [1], a_rp = [2], a_free = 0\<rparr>"
    by (simp add: absd_def lp_def full_ds_def busy_ds_def)
  ultimately show ?thesis by simp
qed

lemma full_kinv: "kinv (ex_kst full_ds) \<lparr>a_pq = [(5, 3)], a_rr = [1], a_rp = [2], a_free = 0\<rparr>"
  by (rule ex_kinv [OF full_ds_rep]) (simp_all add: set_slots)

lemma rr_kinv: "kinv (ex_kst rr_ds) \<lparr>a_pq = [], a_rr = [1], a_rp = [2], a_free = 2\<rparr>"
  by (rule ex_kinv [OF rr_ds_rep]) (simp_all add: set_slots)

text \<open>CPU 0 holds another lock.\<close>

lemma locked_kinv: "kinv (taken 0 2 (ex_kst pq_ds)) \<lparr>a_pq = [(5, 3)], a_rr = [], a_rp = [2], a_free = 2\<rparr>"
  by (rule kinv_lock(1) [OF pq_kinv]) simp_all

end
