(* ===== verification/ProcRace.thy ===== *)
theory ProcRace
  imports ProcSched
begin

text \<open>
  \<^verbatim>\<open>sleep\<close> and \<^verbatim>\<open>wakeup\<close> interleaved action by action. A process on CPU \<open>c\<close> has
  tested a condition protected by \<open>lk\<close>, found it false and calls \<^verbatim>\<open>sleep(ch, lk)\<close>. Any
  number of other CPUs run the code of the wakers (\<^verbatim>\<open>pipeclose\<close>, \<^verbatim>\<open>releasesleep\<close>,
  \<^verbatim>\<open>end_op\<close>): acquire \<open>lk\<close>, make the condition true, \<^verbatim>\<open>wakeup(ch)\<close>, release
  \<open>lk\<close>. Between two actions anything else may happen in the kernel that does not put the
  process to sleep on the channel, does not make the condition true, and leaves the two locks as
  it finds them.
\<close>

section \<open>The configurations\<close>

type_synonym 'f act = "bool \<times> 'f kst \<Rightarrow> (bool \<times> 'f kst) kres"

definition on_kst :: "('f kst \<Rightarrow> 'f kst kres) \<Rightarrow> 'f act" where
  "on_kst a = (\<lambda>(b, k). kbind (a k) (\<lambda>k. Inr (b, k)))"

definition set_cond :: "'f act" where
  "set_cond = (\<lambda>(b, k). Inr (True, k))"

definition waker_prog :: "chan \<Rightarrow> lockp \<Rightarrow> nat \<Rightarrow> 'f act list" where
  "waker_prog ch lk d = [on_kst (acquire d lk), set_cond] @ map on_kst (wakeup_prog ch d) @ [on_kst (release d lk)]"

definition sleeper_prog :: "nat \<Rightarrow> procp \<Rightarrow> chan \<Rightarrow> lockp \<Rightarrow> 'f act list" where
  "sleeper_prog c p ch lk = map on_kst (sleep_prog c p ch lk (RSleep lk))"

text \<open>The condition, the kernel state, and what each CPU has still to do.\<close>

type_synonym 'f config = "(bool \<times> 'f kst) \<times> (nat \<Rightarrow> 'f act list)"

inductive race :: "procp \<Rightarrow> chan \<Rightarrow> lockp \<Rightarrow> 'f config \<Rightarrow> 'f config \<Rightarrow> bool" for p ch lk where
  race_act: "prog d = a # as \<Longrightarrow> a s = Inr s' \<Longrightarrow> race p ch lk (s, prog) (s', prog(d := as))"
| race_env: "(b' \<longrightarrow> b) \<Longrightarrow> locked (locks k' lk) = locked (locks k lk) \<Longrightarrow>
    locked (locks k' ptable_lock) = locked (locks k ptable_lock) \<Longrightarrow>
    (sleeper ch (procs k' p) \<longrightarrow> sleeper ch (procs k p)) \<Longrightarrow> race p ch lk ((b, k), prog) ((b', k'), prog)"

section \<open>What the actions do\<close>

lemma wake_effect:
  assumes "wake p k = Inr k'"
  shows "locks k' = locks k \<and> (\<exists>a. procs k' = (procs k)(p := (procs k p)\<lparr>state := RUNNABLE, accumulator := a\<rparr>))"
  using assms by (auto simp: wake_def Let_def kbind_Inr_iff pq_put_def)

lemma wakeup1_effect:
  assumes "wakeup1 ch k = Inr k'"
  shows "locks k' = locks k \<and> (\<forall>q. sleeper ch (procs k' q) \<longrightarrow> sleeper ch (procs k q) \<and> q \<notin> set slots)"
proof -
  have "wakeup1_loop ch ps k = Inr k' \<Longrightarrow>
    locks k' = locks k \<and> (\<forall>q. sleeper ch (procs k' q) \<longrightarrow> sleeper ch (procs k q) \<and> q \<notin> set ps)" for ps
  proof (induction ps arbitrary: k)
    case (Cons p ps)
    show ?case
    proof (cases "state (procs k p) = SLEEPING \<and> pchan (procs k p) = ch")
      case True
      with Cons.prems obtain k1 where k1: "wake p k = Inr k1" "wakeup1_loop ch ps k1 = Inr k'" by (auto simp: kbind_Inr_iff)
      from wake_effect [OF k1(1)] obtain a where
        e: "locks k1 = locks k" "procs k1 = (procs k)(p := (procs k p)\<lparr>state := RUNNABLE, accumulator := a\<rparr>)" by blast
      have "\<not> sleeper ch (procs k1 p)" using e by (simp add: sleeper_def)
      then show ?thesis using Cons.IH [OF k1(2)] e by (auto split: if_splits)
    next
      case False
      then have "wakeup1_loop ch ps k = Inr k'" using Cons.prems by auto
      from Cons.IH [OF this] False show ?thesis by (auto simp: sleeper_def)
    qed
  qed simp
  with assms show ?thesis by (simp add: wakeup1_def)
qed

lemma sched_locks:
  assumes "sched c r k = Inr k'"
  shows "\<not> locked (locks k' ptable_lock) \<and> (\<forall>l. l \<noteq> ptable_lock \<longrightarrow> locks k' l = locks k l)"
proof -
  from assms obtain p k1 k2 i where k: "myproc c k = Inr (p, k1)" "holding c ptable_lock k1 = Inr (True, k2)"
    "Priority_Scheduler_back c p (set_proc p (\<lambda>x. x\<lparr>pcontext := InSched r (intena (cpus k2 i))\<rparr>) k2) = Inr k'"
    by (auto simp: sched_def kbind_Inr_iff split: if_splits)
  from k(3) obtain k3 k4 where "rpholder_remove p (set_cpu c (\<lambda>x. x\<lparr>cproc := 0\<rparr>)
      (set_proc p (\<lambda>x. x\<lparr>pcontext := InSched r (intena (cpus k2 i))\<rparr>) k2)) = Inr k3" "release c ptable_lock k4 = Inr k'"
    "(if state (procs k3 p) = RUNNABLE then pq_put p (set_proc p (\<lambda>x. x\<lparr>accumulator := s64 (accumulator x + priority x)\<rparr>) k3) else Inr k3) = Inr k4"
    unfolding Priority_Scheduler_back_def kbind_Inr_iff by blast
  then have "locks k3 = locks k2" "locks k4 = locks k3" "release c ptable_lock k4 = Inr k'"
    by (auto simp: rpholder_remove_def pq_put_def kbind_Inr_iff split: if_splits)
  then show ?thesis using myproc_more [OF k(1)] holding_more [OF k(2)] release_more [of c ptable_lock k4 k'] by simp
qed

lemma go_to_sleep_locks:
  assumes "go_to_sleep c p ch r k = Inr k'"
  shows "\<not> locked (locks k' ptable_lock) \<and> (\<forall>l. l \<noteq> ptable_lock \<longrightarrow> locks k' l = locks k l)"
proof -
  from assms obtain k1 where k1: "rpholder_remove p (set_proc p (\<lambda>x. x\<lparr>pchan := ch, state := SLEEPING\<rparr>) k) = Inr k1" "sched c r k1 = Inr k'"
    unfolding go_to_sleep_def kbind_Inr_iff by blast
  then have "locks k1 = locks k" by (auto simp: rpholder_remove_def kbind_Inr_iff)
  then show ?thesis using sched_locks [OF k1(2)] by simp
qed

section \<open>The positions of the programs\<close>

text \<open>
  The invariant over the number of actions each CPU has left: at most one CPU is in the section of
  each lock, and the lock is then locked; the condition stays false while the caller of
  \<^verbatim>\<open>sleep\<close> holds \<open>lk\<close>; afterwards, if the condition is true, the process is not asleep on
  the channel or a waker has its \<^verbatim>\<open>wakeup1\<close> ahead.
\<close>

definition excl :: "(nat \<Rightarrow> bool) \<Rightarrow> bool \<Rightarrow> bool" where
  "excl S l \<longleftrightarrow> (\<forall>d. S d \<longrightarrow> l \<and> (\<forall>e. S e \<longrightarrow> e = d))"

definition in_lk :: "nat \<Rightarrow> (nat \<Rightarrow> nat) \<Rightarrow> nat \<Rightarrow> bool" where
  "in_lk c n d \<longleftrightarrow> (if d = c then 2 \<le> n d else 1 \<le> n d \<and> n d \<le> 5)"

definition in_pt :: "nat \<Rightarrow> (nat \<Rightarrow> nat) \<Rightarrow> nat \<Rightarrow> bool" where
  "in_pt c n d \<longleftrightarrow> (if d = c then n d = 1 \<or> n d = 2 else n d = 2 \<or> n d = 3)"

definition pos_inv :: "nat \<Rightarrow> (nat \<Rightarrow> nat) \<Rightarrow> bool \<Rightarrow> bool \<Rightarrow> bool \<Rightarrow> bool \<Rightarrow> bool" where
  "pos_inv c n b l t z \<longleftrightarrow> excl (in_lk c n) l \<and> excl (in_pt c n) t \<and> (2 \<le> n c \<longrightarrow> \<not> b) \<and>
     (n c \<le> 1 \<longrightarrow> b \<longrightarrow> n c = 0 \<and> \<not> z \<or> (\<exists>d. d \<noteq> c \<and> (n d = 3 \<or> n d = 4)))"

lemma excl_enter: "excl S False \<Longrightarrow> (\<And>e. e \<noteq> d \<Longrightarrow> S' e = S e) \<Longrightarrow> excl S' True"
  unfolding excl_def by metis

lemma excl_leave: "excl S l \<Longrightarrow> S d \<Longrightarrow> \<not> S' d \<Longrightarrow> (\<And>e. e \<noteq> d \<Longrightarrow> S' e = S e) \<Longrightarrow> excl S' l'"
  unfolding excl_def by metis

lemma excl_same: "excl S l \<Longrightarrow> (\<And>e. S' e = S e) \<Longrightarrow> excl S' l"
  unfolding excl_def by metis

lemma in_upd: "e \<noteq> d \<Longrightarrow> in_lk c (n(d := m)) e = in_lk c n e" "e \<noteq> d \<Longrightarrow> in_pt c (n(d := m)) e = in_pt c n e"
  by (simp_all add: in_lk_def in_pt_def)

lemma pos_invI:
  "excl (in_lk c n) l \<Longrightarrow> excl (in_pt c n) t \<Longrightarrow> (2 \<le> n c \<Longrightarrow> \<not> b) \<Longrightarrow>
   (n c \<le> 1 \<Longrightarrow> b \<Longrightarrow> n c = 0 \<and> \<not> z \<or> (\<exists>d. d \<noteq> c \<and> (n d = 3 \<or> n d = 4))) \<Longrightarrow> pos_inv c n b l t z"
  by (simp add: pos_inv_def)

lemma pos_invD:
  assumes "pos_inv c n b l t z"
  shows "excl (in_lk c n) l" "excl (in_pt c n) t" "2 \<le> n c \<Longrightarrow> \<not> b"
    "n c \<le> 1 \<Longrightarrow> b \<Longrightarrow> n c = 0 \<and> \<not> z \<or> (\<exists>d. d \<noteq> c \<and> (n d = 3 \<or> n d = 4))"
  using assms by (simp_all add: pos_inv_def)

text \<open>A waker in the section of \<open>lk\<close> excludes the caller of \<^verbatim>\<open>sleep\<close> from it; likewise for \<^verbatim>\<open>ptable.lock\<close>.\<close>

lemma waker_excludes:
  assumes "pos_inv c n b l t z" and "d \<noteq> c"
  shows "1 \<le> n d \<Longrightarrow> n d \<le> 5 \<Longrightarrow> n c \<le> 1" "n d = 3 \<Longrightarrow> n c = 0"
proof -
  show low: "n c \<le> 1" if "1 \<le> n d" "n d \<le> 5"
  proof -
    have "in_lk c n d" using that assms(2) by (simp add: in_lk_def)
    then have "\<not> in_lk c n c" using pos_invD(1) [OF assms(1)] assms(2) unfolding excl_def by blast
    then show ?thesis by (simp add: in_lk_def)
  qed
  show "n c = 0" if "n d = 3"
  proof -
    have "in_pt c n d" using that assms(2) by (simp add: in_pt_def)
    then have "\<not> in_pt c n c" using pos_invD(2) [OF assms(1)] assms(2) unfolding excl_def by blast
    then show ?thesis using low that by (auto simp: in_pt_def)
  qed
qed

lemma ahead_upd:
  assumes "d \<noteq> c" and "\<exists>e. e \<noteq> c \<and> (n e = 3 \<or> n e = 4)" and "m = 3 \<or> m = 4 \<or> n d \<noteq> 3 \<and> n d \<noteq> 4"
  shows "\<exists>e. e \<noteq> c \<and> ((n(d := m)) e = 3 \<or> (n(d := m)) e = (4 :: nat))"
proof (cases "m = 3 \<or> m = 4")
  case True
  then show ?thesis using assms(1) by (intro exI [of _ d]) simp
next
  case False
  with assms obtain e where "e \<noteq> c" "n e = 3 \<or> n e = 4" "e \<noteq> d" by auto
  then show ?thesis by (intro exI [of _ e]) simp
qed

text \<open>One action of a waker, by the number of actions left.\<close>

lemma pos_inv_waker:
  assumes i: "pos_inv c n b l t z" and d: "d \<noteq> c"
    and lk: "excl (in_lk c (n(d := m))) l'" and pt: "excl (in_pt c (n(d := m))) t'"
    and b: "b' = b \<or> n d = 5" and z: "z' = z \<or> \<not> z' \<and> n d = 3" and m: "m = 4 \<or> m = 3 \<or> n d \<noteq> 3 \<and> n d \<noteq> 4 \<or> \<not> z' \<and> n d = 3"
    and b4: "n d = 5 \<Longrightarrow> m = 4"
  shows "pos_inv c (n(d := m)) b' l' t' z'"
proof (rule pos_invI [OF lk pt])
  have c: "(n(d := m)) c = n c" using d by simp
  show "\<not> b'" if "2 \<le> (n(d := m)) c" using that waker_excludes(1) [OF i d] pos_invD(3) [OF i] b unfolding c by auto
  show "(n(d := m)) c = 0 \<and> \<not> z' \<or> (\<exists>e. e \<noteq> c \<and> ((n(d := m)) e = 3 \<or> (n(d := m)) e = 4))" if h: "(n(d := m)) c \<le> 1" b'
  proof (cases "n d = 5 \<or> m = 3 \<or> m = 4")
    case True
    then show ?thesis using b4 d by (intro disjI2 exI [of _ d]) auto
  next
    case False
    then have "b" using b h by blast
    show ?thesis
    proof (cases "n d = 3 \<and> \<not> z'")
      case True
      then show ?thesis using waker_excludes(2) [OF i d] c by simp
    next
      case no: False
      then have "z' = z" "n d \<noteq> 3 \<and> n d \<noteq> 4" using z m False by blast+
      then show ?thesis using pos_invD(4) [OF i h(1) [unfolded c] \<open>b\<close>] ahead_upd [OF d, of n m] c by auto
    qed
  qed
qed

lemma excl_lk_stay: "excl (in_lk c n) l \<Longrightarrow> in_lk c (n(d := m)) d = in_lk c n d \<Longrightarrow> excl (in_lk c (n(d := m))) l"
  by (erule excl_same) (metis in_upd(1))

lemma excl_pt_stay: "excl (in_pt c n) t \<Longrightarrow> in_pt c (n(d := m)) d = in_pt c n d \<Longrightarrow> excl (in_pt c (n(d := m))) t"
  by (erule excl_same) (metis in_upd(2))

lemma excl_lk_enter: "excl (in_lk c n) False \<Longrightarrow> excl (in_lk c (n(d := m))) True"
  by (erule excl_enter [where d = d]) (rule in_upd)

lemma excl_pt_enter: "excl (in_pt c n) False \<Longrightarrow> excl (in_pt c (n(d := m))) True"
  by (erule excl_enter [where d = d]) (rule in_upd)

lemma excl_lk_leave: "excl (in_lk c n) l \<Longrightarrow> in_lk c n d \<Longrightarrow> \<not> in_lk c (n(d := m)) d \<Longrightarrow> excl (in_lk c (n(d := m))) l'"
  by (erule (2) excl_leave) (rule in_upd)

lemma excl_pt_leave: "excl (in_pt c n) t \<Longrightarrow> in_pt c n d \<Longrightarrow> \<not> in_pt c (n(d := m)) d \<Longrightarrow> excl (in_pt c (n(d := m))) t'"
  by (erule (2) excl_leave) (rule in_upd)

section \<open>The actions keep the invariant\<close>

lemma on_kst_Inr: "on_kst a (b, k) = Inr (b', k') \<longleftrightarrow> b' = b \<and> a k = Inr k'"
  by (auto simp: on_kst_def kbind_Inr_iff)

lemma kst_lock_steps:
  fixes k k' :: "'f kst"
  shows "acquire d l k = Inr k' \<Longrightarrow> procs k' = procs k \<and> \<not> locked (locks k l) \<and> locked (locks k' l) \<and> (\<forall>l'. l' \<noteq> l \<longrightarrow> locks k' l' = locks k l')"
  "release d l k = Inr k' \<Longrightarrow> procs k' = procs k \<and> \<not> locked (locks k' l) \<and> (\<forall>l'. l' \<noteq> l \<longrightarrow> locks k' l' = locks k l')"
  using acquire_more [of d l k k'] release_more [of d l k k'] mach_more_kst(1) [of k' k] by blast+

text \<open>The part of a configuration that the invariant sees.\<close>

definition state_inv :: "nat \<Rightarrow> procp \<Rightarrow> chan \<Rightarrow> lockp \<Rightarrow> (nat \<Rightarrow> nat) \<Rightarrow> bool \<times> 'f kst \<Rightarrow> bool" where
  "state_inv c p ch lk n s \<longleftrightarrow>
     pos_inv c n (fst s) (locked (locks (snd s) lk)) (locked (locks (snd s) ptable_lock)) (sleeper ch (procs (snd s) p))"

lemma waker_prog_eq:
  "waker_prog ch lk d = [on_kst (acquire d lk), set_cond, on_kst (acquire d ptable_lock), on_kst (wakeup1 ch),
     on_kst (release d ptable_lock), on_kst (release d lk)]"
  by (simp add: waker_prog_def wakeup_prog_def)

lemma sleeper_prog_eq:
  "lk \<noteq> ptable_lock \<Longrightarrow> sleeper_prog c p ch lk =
     [on_kst (acquire c ptable_lock), on_kst (release c lk), on_kst (go_to_sleep c p ch (RSleep lk))]"
  by (simp add: sleeper_prog_def sleep_prog_def)

lemma waker_act:
  assumes i: "state_inv c p ch lk n (b, k)" and d: "d \<noteq> c" and n: "n d = Suc m" "m \<le> 5"
    and a: "(waker_prog ch lk d ! (5 - m)) (b, k) = Inr (b', k')" and lk: "lk \<noteq> ptable_lock" and p: "p \<in> set slots"
  shows "state_inv c p ch lk (n(d := m)) (b', k')"
proof -
  note i = i [unfolded state_inv_def fst_conv snd_conv]
  note D = pos_invD(1,2) [OF i]
  note stay = excl_lk_stay [OF D(1), of d] excl_pt_stay [OF D(2), of d]
  note leave = excl_lk_leave [OF D(1), of d] excl_pt_leave [OF D(2), of d]
  have "m = 5 \<or> m = 4 \<or> m = 3 \<or> m = 2 \<or> m = 1 \<or> m = 0" using n(2) by arith
  then show ?thesis unfolding state_inv_def fst_conv snd_conv
  proof (elim disjE)
    assume m: "m = 5"
    with a have e: "b' = b" "acquire d lk k = Inr k'" by (simp_all add: waker_prog_eq on_kst_Inr)
    note q = kst_lock_steps(1) [OF e(2)]
    show "pos_inv c (n(d := m)) b' (locked (locks k' lk)) (locked (locks k' ptable_lock)) (sleeper ch (procs k' p))"
      by (rule pos_inv_waker [OF i d]) (use q e D lk d n m excl_lk_enter [of c n d m] stay(2) [of m] in \<open>simp_all add: in_pt_def\<close>)
  next
    assume m: "m = 4"
    with a have e: "b'" "k' = k" by (simp_all add: waker_prog_eq set_cond_def)
    show "pos_inv c (n(d := m)) b' (locked (locks k' lk)) (locked (locks k' ptable_lock)) (sleeper ch (procs k' p))"
      by (rule pos_inv_waker [OF i d]) (use e d n m stay [of m] in \<open>simp_all add: in_pt_def in_lk_def\<close>)
  next
    assume m: "m = 3"
    with a have e: "b' = b" "acquire d ptable_lock k = Inr k'" by (simp_all add: waker_prog_eq on_kst_Inr)
    note q = kst_lock_steps(1) [OF e(2)]
    show "pos_inv c (n(d := m)) b' (locked (locks k' lk)) (locked (locks k' ptable_lock)) (sleeper ch (procs k' p))"
      by (rule pos_inv_waker [OF i d]) (use q e D lk d n m excl_pt_enter [of c n d m] stay(1) [of m] in \<open>simp_all add: in_lk_def\<close>)
  next
    assume m: "m = 2"
    with a have e: "b' = b" "wakeup1 ch k = Inr k'" by (simp_all add: waker_prog_eq on_kst_Inr)
    note q = wakeup1_effect [OF e(2)]
    have z: "\<not> sleeper ch (procs k' p)" using q p by blast
    show "pos_inv c (n(d := m)) b' (locked (locks k' lk)) (locked (locks k' ptable_lock)) (sleeper ch (procs k' p))"
      by (rule pos_inv_waker [OF i d]) (use q z e d n m stay [of m] in \<open>simp_all add: in_pt_def in_lk_def\<close>)
  next
    assume m: "m = 1"
    with a have e: "b' = b" "release d ptable_lock k = Inr k'" by (simp_all add: waker_prog_eq on_kst_Inr)
    note q = kst_lock_steps(2) [OF e(2)]
    show "pos_inv c (n(d := m)) b' (locked (locks k' lk)) (locked (locks k' ptable_lock)) (sleeper ch (procs k' p))"
      by (rule pos_inv_waker [OF i d]) (use q e lk d n m stay(1) [of m] leave(2) [of m] in \<open>simp_all add: in_pt_def in_lk_def\<close>)
  next
    assume m: "m = 0"
    with a have e: "b' = b" "release d lk k = Inr k'" by (simp_all add: waker_prog_eq on_kst_Inr)
    note q = kst_lock_steps(2) [OF e(2)]
    show "pos_inv c (n(d := m)) b' (locked (locks k' lk)) (locked (locks k' ptable_lock)) (sleeper ch (procs k' p))"
      by (rule pos_inv_waker [OF i d]) (use q e lk d n m stay(2) [of m] leave(1) [of m] in \<open>simp_all add: in_pt_def in_lk_def\<close>)
  qed
qed

lemma sleeper_act:
  assumes i: "state_inv c p ch lk n (b, k)" and n: "n c = Suc m" "m \<le> 2"
    and a: "(sleeper_prog c p ch lk ! (2 - m)) (b, k) = Inr (b', k')" and lk: "lk \<noteq> ptable_lock"
  shows "state_inv c p ch lk (n(c := m)) (b', k')"
proof -
  note i = i [unfolded state_inv_def fst_conv snd_conv]
  note D = pos_invD [OF i]
  note stay = excl_lk_stay [OF D(1), of c] excl_pt_stay [OF D(2), of c]
  note leave = excl_lk_leave [OF D(1), of c] excl_pt_leave [OF D(2), of c]
  have "m = 2 \<or> m = 1 \<or> m = 0" using n(2) by arith
  then show ?thesis unfolding state_inv_def fst_conv snd_conv
  proof (elim disjE)
    assume m: "m = 2"
    with a have e: "b' = b" "acquire c ptable_lock k = Inr k'" by (simp_all add: sleeper_prog_eq [OF lk] on_kst_Inr)
    note q = kst_lock_steps(1) [OF e(2)]
    show "pos_inv c (n(c := m)) b' (locked (locks k' lk)) (locked (locks k' ptable_lock)) (sleeper ch (procs k' p))"
      by (rule pos_invI) (use q e D lk n m excl_pt_enter [of c n c m] stay(1) [of m] in \<open>simp_all add: in_lk_def\<close>)
  next
    assume m: "m = 1"
    with a have e: "b' = b" "release c lk k = Inr k'" by (simp_all add: sleeper_prog_eq [OF lk] on_kst_Inr)
    note q = kst_lock_steps(2) [OF e(2)]
    show "pos_inv c (n(c := m)) b' (locked (locks k' lk)) (locked (locks k' ptable_lock)) (sleeper ch (procs k' p))"
      by (rule pos_invI) (use q e D(3) lk n m stay(2) [of m] leave(1) [of m] in \<open>simp_all add: in_lk_def in_pt_def\<close>)
  next
    assume m: "m = 0"
    with a have e: "b' = b" "go_to_sleep c p ch (RSleep lk) k = Inr k'" by (simp_all add: sleeper_prog_eq [OF lk] on_kst_Inr)
    note q = go_to_sleep_locks [OF e(2)]
    have w: "\<exists>d. d \<noteq> c \<and> (n d = 3 \<or> n d = 4)" if b using D(4) that n m by simp
    show "pos_inv c (n(c := m)) b' (locked (locks k' lk)) (locked (locks k' ptable_lock)) (sleeper ch (procs k' p))"
    proof (rule pos_invI)
      show "(n(c := m)) c = 0 \<and> \<not> sleeper ch (procs k' p) \<or> (\<exists>d. d \<noteq> c \<and> ((n(c := m)) d = 3 \<or> (n(c := m)) d = 4))" if b'
        using w that e(1) by auto
    qed (use q lk n m stay(1) [of m] leave(2) [of m] in \<open>simp_all add: in_lk_def in_pt_def\<close>)
  qed
qed

text \<open>Every CPU is somewhere in its program.\<close>

definition progs :: "nat \<Rightarrow> procp \<Rightarrow> chan \<Rightarrow> lockp \<Rightarrow> nat \<Rightarrow> 'f act list" where
  "progs c p ch lk d = (if d = c then sleeper_prog c p ch lk else waker_prog ch lk d)"

definition race_inv :: "nat \<Rightarrow> procp \<Rightarrow> chan \<Rightarrow> lockp \<Rightarrow> 'f config \<Rightarrow> bool" where
  "race_inv c p ch lk g \<longleftrightarrow> state_inv c p ch lk (\<lambda>d. length (snd g d)) (fst g) \<and>
     (\<forall>d. length (snd g d) \<le> length (progs c p ch lk d :: 'f act list) \<and>
        snd g d = drop (length (progs c p ch lk d :: 'f act list) - length (snd g d)) (progs c p ch lk d))"

lemma drop_step:
  assumes "x # xs = drop (length w - length (x # xs)) w" and "length (x # xs) \<le> length w"
  shows "x = w ! (length w - Suc (length xs))" "xs = drop (length w - length xs) w"
proof -
  let ?i = "length w - Suc (length xs)"
  have "?i < length w" using assms(2) by auto
  then have "x # xs = w ! ?i # drop (Suc ?i) w" using assms(1) Cons_nth_drop_Suc [of ?i w] by simp
  moreover have "Suc ?i = length w - length xs" using assms(2) by simp
  ultimately show "x = w ! ?i" "xs = drop (length w - length xs) w" by simp_all
qed

lemma race_step:
  fixes g g' :: "'f config"
  assumes "race p ch lk g g'" and "race_inv c p ch lk g" and lk: "lk \<noteq> ptable_lock" and p: "p \<in> set slots"
  shows "race_inv c p ch lk g'"
  using assms(1,2)
proof cases
  case (race_act prog d a as s s')
  let ?w = "progs c p ch lk d :: 'f act list"
  obtain b k b' k' where s: "s = (b, k)" "s' = (b', k')" by (cases s; cases s')
  let ?n = "\<lambda>d. length (prog d)"
  have i: "state_inv c p ch lk ?n (b, k)" using assms(2) race_act s by (simp add: race_inv_def)
  have w: "a # as = drop (length ?w - length (a # as)) ?w" "length (a # as) \<le> length ?w"
    using assms(2) race_act(1,3) unfolding race_inv_def by (metis snd_conv)+
  note st = drop_step [OF w]
  have nd: "?n d = Suc (length as)" using race_act(3) by simp
  have n': "(\<lambda>e. length ((prog(d := as)) e)) = ?n(d := length as)" by auto
  have "state_inv c p ch lk (?n(d := length as)) (b', k')"
  proof (cases "d = c")
    case True
    then have e: "?w = sleeper_prog c p ch lk" "length ?w = 3" by (simp_all add: progs_def sleeper_prog_eq [OF lk])
    have "(sleeper_prog c p ch lk ! (2 - length as)) (b, k) = Inr (b', k')" using race_act(4) st(1) e s by simp
    with sleeper_act [OF i, of "length as"] show ?thesis using nd w(2) e(2) lk True by simp
  next
    case False
    then have e: "?w = waker_prog ch lk d" "length ?w = 6" by (simp_all add: progs_def waker_prog_eq)
    have "(waker_prog ch lk d ! (5 - length as)) (b, k) = Inr (b', k')" using race_act(4) st(1) e s by simp
    with waker_act [OF i False nd] show ?thesis using w(2) e(2) lk p by simp
  qed
  moreover have "\<forall>e. ?n e \<le> length (progs c p ch lk e :: 'f act list) \<and>
      prog e = drop (length (progs c p ch lk e :: 'f act list) - ?n e) (progs c p ch lk e)"
    using assms(2) race_act(1) by (simp add: race_inv_def)
  ultimately show ?thesis unfolding race_act(2) race_inv_def fst_conv snd_conv n' s using w(2) st(2) by simp
next
  case (race_env b' b k' k prog)
  have "pos_inv c n b' l t z'" if "pos_inv c n b l t z" "z' \<longrightarrow> z" for n l t z z'
    using that race_env(3) unfolding pos_inv_def by blast
  from this [OF _ race_env(6)] show ?thesis using race_env(1,2,4,5) assms(2) by (simp add: race_inv_def state_inv_def)
qed

lemma race_reach: "(race p ch lk)\<^sup>*\<^sup>* g g' \<Longrightarrow> race_inv c p ch lk g \<Longrightarrow> lk \<noteq> ptable_lock \<Longrightarrow> p \<in> set slots \<Longrightarrow> race_inv c p ch lk g'"
  by (induction rule: rtranclp_induct) (auto intro: race_step)

lemma race_start:
  fixes k :: "'f kst"
  assumes "lk \<noteq> ptable_lock" and "locked (locks k lk)"
  shows "race_inv c p ch lk
    ((False, k), \<lambda>d. if d = c then sleeper_prog c p ch lk else if d \<in> W then waker_prog ch lk d else [])"
proof -
  have "pos_inv c (\<lambda>d. if d = c then 3 else if d \<in> W then 6 else 0) False (locked (locks k lk))
    (locked (locks k ptable_lock)) (sleeper ch (procs k p))"
    by (rule pos_invI) (use assms in \<open>auto simp: excl_def in_lk_def in_pt_def split: if_splits\<close>)
  moreover have "(\<lambda>d. length (if d = c then sleeper_prog c p ch lk :: 'f act list else if d \<in> W then waker_prog ch lk d else [])) =
    (\<lambda>d. if d = c then 3 else if d \<in> W then 6 else 0)"
    by (rule ext) (simp add: sleeper_prog_eq [OF assms(1)] waker_prog_eq)
  ultimately show ?thesis unfolding race_inv_def state_inv_def fst_conv snd_conv by (simp add: progs_def)
qed

lemma race_ahead:
  fixes k :: "'f kst"
  assumes "race_inv c p ch lk ((b, k), prog)" and "prog c = []" and "b" and "sleeper ch (procs k p)"
  shows "\<exists>d. d \<noteq> c \<and> on_kst (wakeup1 ch) \<in> set (prog d)"
proof -
  have i: "pos_inv c (\<lambda>d. length (prog d)) b (locked (locks k lk)) (locked (locks k ptable_lock)) (sleeper ch (procs k p))"
    using assms(1) by (simp add: race_inv_def state_inv_def)
  from pos_invD(4) [OF i] obtain d where d: "d \<noteq> c" "length (prog d) = 3 \<or> length (prog d) = 4" using assms(2-4) by auto
  have "length (progs c p ch lk d :: 'f act list) = 6" "progs c p ch lk d = (waker_prog ch lk d :: 'f act list)"
    using d(1) by (simp_all add: progs_def waker_prog_eq)
  moreover have "prog d = drop (length (progs c p ch lk d :: 'f act list) - length (prog d)) (progs c p ch lk d)"
    using assms(1) by (simp add: race_inv_def)
  ultimately have e: "prog d = drop (6 - length (prog d)) (waker_prog ch lk d)" by simp
  from d(2) have "on_kst (wakeup1 ch) \<in> set (drop (6 - length (prog d)) (waker_prog ch lk d))"
    by (elim disjE) (simp_all add: waker_prog_eq)
  then show ?thesis using d(1) e by metis
qed

section \<open>Programs that run undisturbed\<close>

lemma race_run:
  "run_prog as s = Inr s' \<Longrightarrow> prog d = as \<Longrightarrow> (race p ch lk)\<^sup>*\<^sup>* (s, prog) (s', prog(d := []))"
proof (induction as arbitrary: s prog)
  case Nil
  then show ?case by (simp add: fun_upd_idem)
next
  case (Cons a as)
  then obtain s1 where s1: "a s = Inr s1" "run_prog as s1 = Inr s'" by (auto simp: kbind_Inr_iff)
  have "race p ch lk (s, prog) (s1, prog(d := as))" using race_act [of prog d a as s s1] Cons.prems(2) s1(1) by blast
  moreover have "(race p ch lk)\<^sup>*\<^sup>* (s1, prog(d := as)) (s', (prog(d := as))(d := []))"
    by (rule Cons.IH [OF s1(2)]) simp
  ultimately show ?case unfolding fun_upd_upd by (rule converse_rtranclp_into_rtranclp)
qed

lemma run_on_kst: "run_prog as k = Inr k' \<Longrightarrow> run_prog (map on_kst as) (b, k) = Inr (b, k')"
  by (induction as arbitrary: k) (auto simp: kbind_Inr_iff on_kst_def)

lemma sleep_run:
  assumes "wf_mach k" and "c < ncpu k" and "cproc (cpus k c) = p" and "0 < ncli (cpus k c)" and "sleep c ch lk r k = Inr k'"
  shows "run_prog (sleep_prog c p ch lk r) k = Inr k'"
  using assms(3-5) myproc_eq [OF assms(1,2)] by (simp add: sleep_def split: if_splits)

lemma kept_run_sleep: "run_prog (sleep_prog c p ch lk r) k = Inr k' \<Longrightarrow> kept k k'"
  by (auto simp: sleep_prog_def kbind_Inr_iff split: if_splits dest!: kept_mach(1,2) kept_go_to_sleep intro: kept_trans)

lemma waker_runs:
  assumes inv: "kinv k A" and d: "d < ncpu k" and lk: "\<not> locked (locks k lk)" "lk \<noteq> ptable_lock"
  shows "\<exists>k'. run_prog (waker_prog ch lk d) (b, k) = Inr (True, k')"
proof -
  note D = kinvD [OF inv]
  have wf: "wf_mach k" "\<not> locked (locks k ptable_lock)" using D(1) by (simp_all add: lock_free_def)
  have n: "0 \<le> ncli (cpus k d)" by (rule ncli_nonneg [OF wf(1) d])
  let ?k1 = "taken d lk k" and ?k2 = "taken d ptable_lock (taken d lk k)"
  have wf1: "wf_mach ?k1" "d < ncpu ?k1" and wf2: "wf_mach ?k2" "d < ncpu ?k2"
    using wf d by (simp_all add: wf_taken)
  have a: "acquire d lk k = Inr ?k1" "acquire d ptable_lock ?k1 = Inr ?k2"
    using acquire_cases [OF wf(1) d, of lk] acquire_cases [OF wf1, of ptable_lock] wf(2) lk by simp_all
  have "ds_rep (ds ?k2) A" using D(4) by simp
  from wakeup1_eq [OF this, of ch] obtain P e where w: "wakeup1 ch ?k2 = Inr (?k2\<lparr>procs := P, ds := e\<rparr>)" by blast
  let ?k3 = "?k2\<lparr>procs := P, ds := e\<rparr>"
  have wf3: "wf_mach ?k3" "d < ncpu ?k3" "0 < ncli (cpus ?k3 d)" using wf2 n by (simp_all add: wf_mach_def)
  let ?k4 = "freed d ptable_lock ?k3"
  have wf4: "wf_mach ?k4" "d < ncpu ?k4" "0 < ncli (cpus ?k4 d)" using wf_freed [OF wf3, of ptable_lock] wf3(2) n by simp_all
  have r: "release d ptable_lock ?k3 = Inr ?k4" "release d lk ?k4 = Inr (freed d lk ?k4)"
    using release_cases [OF wf3, of ptable_lock] release_cases [OF wf4, of lk] lk by simp_all
  have "run_prog (waker_prog ch lk d) (b, k) = Inr (True, freed d lk ?k4)"
    unfolding waker_prog_eq by (simp add: on_kst_def set_cond_def a w r)
  then show ?thesis by blast
qed

end
