(* ===== verification/ProcExit.thy ===== *)
theory ProcExit
  imports ProcSteps
begin

text \<open>
  \<^verbatim>\<open>exit\<close> as a whole call. \<open>runs_on\<close> is a process executing kernel code with no lock held;
  \<open>file_call\<close> is what \<^verbatim>\<open>exit\<close> relies on in an operation of the file system: it may fail, it
  may sleep, wake processes and return on another CPU, but when it returns the process runs again
  in a consistent kernel with the same files, status and children, and the file system has changed
  as the operation says.
\<close>

definition runs_on :: "procp \<Rightarrow> nat \<Rightarrow> 'f kst \<Rightarrow> abs_ds \<Rightarrow> bool" where
  "runs_on p c k A \<longleftrightarrow> kinv k A \<and> c < ncpu k \<and> cproc (cpus k c) = p \<and> ncli (cpus k c) = 0"

definition same_files :: "procp \<Rightarrow> 'f kst \<Rightarrow> 'f kst \<Rightarrow> bool" where
  "same_files p k k' \<longleftrightarrow> initproc k' = initproc k \<and> cwd (procs k' p) = cwd (procs k p) \<and> status (procs k' p) = status (procs k p) \<and>
     (\<forall>q \<in> set slots. parent (procs k' q) = p \<longleftrightarrow> parent (procs k q) = p)"

definition file_call :: "procp \<Rightarrow> 'f file_op \<Rightarrow> (nat \<Rightarrow> 'f \<Rightarrow> 'f \<Rightarrow> bool) \<Rightarrow> bool" where
  "file_call p f R \<longleftrightarrow> (\<forall>x c k A c' k'. runs_on p c k A \<longrightarrow> f x c k = Inr (c', k') \<longrightarrow>
     (\<exists>A'. runs_on p c' k' A') \<and> same_files p k k' \<and> ofile (procs k' p) = ofile (procs k p) \<and> R x (fsst k) (fsst k'))"

text \<open>A sequence of calls, as seen by the file system.\<close>

fun calls :: "(nat \<Rightarrow> 'f \<Rightarrow> 'f \<Rightarrow> bool) \<Rightarrow> nat list \<Rightarrow> 'f \<Rightarrow> 'f \<Rightarrow> bool" where
  "calls R [] s t \<longleftrightarrow> t = s"
| "calls R (x # xs) s t \<longleftrightarrow> (\<exists>u. R x s u \<and> calls R xs u t)"

definition open_files :: "proc \<Rightarrow> nat list \<Rightarrow> nat list" where
  "open_files x is = filter (\<lambda>f. f \<noteq> 0) (map (ofile x) is)"

lemma runs_on_private:
  assumes "runs_on p c k A" and "\<And>x. private_change x (f x)"
  shows "runs_on p c (set_proc p f k) A"
proof -
  have e: "k\<lparr>km := km k, fsst := fsst k\<rparr> = k" by simp
  have "kinv (set_proc p f (k\<lparr>km := km k, fsst := fsst k\<rparr>)) A"
    by (rule kinv_private) (use assms in \<open>simp_all add: runs_on_def\<close>)
  then show ?thesis using assms(1) unfolding e by (simp add: runs_on_def)
qed

lemma file_callD:
  assumes "file_call p f R" and "runs_on p c k A" and "f x c k = Inr (c', k')"
  shows "\<exists>A'. runs_on p c' k' A'" "same_files p k k'" "ofile (procs k' p) = ofile (procs k p)" "R x (fsst k) (fsst k')"
  using assms unfolding file_call_def by blast+

lemma same_files_trans [trans]: "same_files p k k1 \<Longrightarrow> same_files p k1 k2 \<Longrightarrow> same_files p k k2"
  by (simp add: same_files_def)

lemma same_files_clear: "same_files p k (set_proc p (\<lambda>x. x\<lparr>ofile := g x\<rparr>) k)"
  by (simp add: same_files_def)

lemma open_files_skip: "i \<notin> set is \<Longrightarrow> open_files (x\<lparr>ofile := (ofile x)(i := 0)\<rparr>) is = open_files x is"
  by (induction "is") (auto simp: open_files_def)

lemma open_files_cong: "ofile x = ofile y \<Longrightarrow> open_files x is = open_files y is"
  by (simp add: open_files_def)

text \<open>Closing the files: the calls are made for exactly the open files in the order of the table.\<close>

definition closed :: "'f file_op \<Rightarrow> (nat \<Rightarrow> 'f \<Rightarrow> 'f \<Rightarrow> bool) \<Rightarrow> procp \<Rightarrow> nat list \<Rightarrow> 'f kst \<Rightarrow> (nat \<times> 'f kst) kres \<Rightarrow> bool" where
  "closed fileclose R p is k res \<longleftrightarrow>
     (case res of
        Inl e \<Rightarrow> \<exists>x \<in> set (open_files (procs k p) is). \<exists>c' k' A'. runs_on p c' k' A' \<and> fileclose x c' k' = Inl e
      | Inr (c', k') \<Rightarrow> (\<exists>A'. runs_on p c' k' A') \<and> same_files p k k' \<and> calls R (open_files (procs k p) is) (fsst k) (fsst k') \<and>
          (\<forall>i. ofile (procs k' p) i = (if i \<in> set is then 0 else ofile (procs k p) i)))"

lemma closed_step:
  assumes fc: "file_call p fileclose R" and r: "runs_on p c k A" and i: "ofile (procs k p) i \<noteq> 0" "i \<notin> set is"
    and fcl: "fileclose (ofile (procs k p) i) c k = Inr (c1, k1)"
    and cl: "closed fileclose R p is (set_proc p (\<lambda>x. x\<lparr>ofile := (ofile x)(i := 0)\<rparr>) k1) res"
  shows "closed fileclose R p (i # is) k res"
proof -
  note f = file_callD [OF fc r fcl]
  let ?k1 = "set_proc p (\<lambda>x. x\<lparr>ofile := (ofile x)(i := 0)\<rparr>) k1"
  have of: "open_files (procs ?k1 p) is = open_files (procs k p) is"
    using open_files_skip [OF i(2), of "procs k1 p"] open_files_cong [OF f(3)] by simp
  have op: "open_files (procs k p) (i # is) = ofile (procs k p) i # open_files (procs k p) is" using i(1) by (simp add: open_files_def)
  show ?thesis
  proof (cases res)
    case (Inl e)
    then show ?thesis using cl op of by (simp add: closed_def)
  next
    case (Inr a)
    obtain c' k' where a: "a = (c', k')" by (cases a)
    have "same_files p ?k1 k'" using cl Inr a by (simp add: closed_def)
    then have "same_files p k k'" by (rule same_files_trans [OF f(2) same_files_trans [OF same_files_clear]])
    moreover have "calls R (open_files (procs k p) (i # is)) (fsst k) (fsst k')"
      using cl f(4) op of Inr a by (auto simp: closed_def)
    moreover have "ofile (procs k' p) j = (if j \<in> set (i # is) then 0 else ofile (procs k p) j)" for j
      using cl f(3) Inr a by (simp add: closed_def)
    ultimately show ?thesis using cl Inr a by (simp add: closed_def)
  qed
qed

lemma close_files_closed:
  assumes fc: "file_call p fileclose R" and "runs_on p c k A" and "distinct is"
  shows "closed fileclose R p is k (close_files fileclose c p is k)"
  using assms(2,3)
proof (induction "is" arbitrary: c k A)
  case Nil
  then show ?case by (auto simp: closed_def open_files_def same_files_def)
next
  case (Cons i js)
  have d: "distinct js" "i \<notin> set js" using Cons.prems(2) by simp_all
  show ?case
  proof (cases "ofile (procs k p) i = 0")
    case True
    then have "open_files (procs k p) (i # js) = open_files (procs k p) js" by (simp add: open_files_def)
    then show ?thesis using Cons.IH [OF Cons.prems(1) d(1)] True
      by (auto simp: closed_def split: sum.splits)
  next
    case False
    show ?thesis
    proof (cases "fileclose (ofile (procs k p) i) c k")
      case (Inl e)
      then show ?thesis using False Cons.prems(1) by (auto simp: closed_def open_files_def)
    next
      case (Inr a)
      obtain c1 k1 where a: "a = (c1, k1)" by (cases a)
      note f = file_callD [OF fc Cons.prems(1) Inr [unfolded a]]
      from f(1) obtain A1 where "runs_on p c1 k1 A1" by blast
      then have "runs_on p c1 (set_proc p (\<lambda>x. x\<lparr>ofile := (ofile x)(i := 0)\<rparr>) k1) A1"
        by (rule runs_on_private) (simp add: private_change_def)
      from closed_step [OF fc Cons.prems(1) False d(2) Inr [unfolded a] Cons.IH [OF this d(1)]] show ?thesis
        using False Inr a by simp
    qed
  qed
qed

text \<open>
  The outcome of the call. It fails only with the error of a file-system call. Otherwise the calls
  were \<^verbatim>\<open>fileclose\<close> for the open files in order and \<^verbatim>\<open>iput\<close> of the directory, which
  returned in \<open>k3\<close>; then the process is a zombie on no CPU, its children belong to the first
  process, a parent asleep in \<^verbatim>\<open>wait\<close> is RUNNABLE, and so is the first process if it sleeps
  in \<^verbatim>\<open>wait\<close> and one of the children is dead.
\<close>

definition exit_outcome ::
  "'f file_op \<Rightarrow> 'f file_op \<Rightarrow> (nat \<Rightarrow> 'f \<Rightarrow> 'f \<Rightarrow> bool) \<Rightarrow> (nat \<Rightarrow> 'f \<Rightarrow> 'f \<Rightarrow> bool) \<Rightarrow> int \<Rightarrow> procp \<Rightarrow> 'f kst \<Rightarrow> 'f kst kres \<Rightarrow> bool" where
  "exit_outcome fileclose iput closes puts st cp k res \<longleftrightarrow>
     (case res of
        Inl e \<Rightarrow> \<exists>x c' k' A'. runs_on cp c' k' A' \<and>
          (x \<in> set (open_files (procs k cp) [0..<NOFILE]) \<and> fileclose x c' k' = Inl e \<or> x = cwd (procs k cp) \<and> iput x c' k' = Inl e)
      | Inr k' \<Rightarrow> \<exists>c2 k2 c3 k3 A'.
          calls closes (open_files (procs k cp) [0..<NOFILE]) (fsst k) (fsst k2) \<and>
          iput (cwd (procs k cp)) c2 k2 = Inr (c3, k3) \<and> puts (cwd (procs k cp)) (fsst k2) (fsst k3) \<and> fsst k' = fsst k3 \<and>
          kinv k' A' \<and> \<not> on_cpu k' cp \<and> state (procs k' cp) = ZOMBIE \<and> status (procs k' cp) = st \<and>
          (\<forall>i < NOFILE. ofile (procs k' cp) i = 0) \<and> cwd (procs k' cp) = 0 \<and>
          (\<forall>q \<in> set slots. parent (procs k' q) = (if parent (procs k q) = cp then initproc k else parent (procs k3 q))) \<and>
          (\<forall>q \<in> set slots. sleeper (proc_chan (parent (procs k3 cp))) (procs k3 q) \<longrightarrow> state (procs k' q) = RUNNABLE) \<and>
          (\<forall>x \<in> set slots. parent (procs k3 x) = cp \<longrightarrow> state (procs k3 x) = ZOMBIE \<longrightarrow>
            (\<forall>q \<in> set slots. sleeper (proc_chan (initproc k)) (procs k3 q) \<longrightarrow> state (procs k' q) = RUNNABLE)))"

lemma exit_end:
  assumes r: "runs_on cp c3 k3 A3" "cp \<noteq> 0" and s: "same_files cp k k3"
    and x: "status (procs k cp) = st" "\<forall>i < NOFILE. ofile (procs k3 cp) i = 0"
  shows "\<exists>k' A'. exit_tail c3 cp (set_proc cp (\<lambda>x. x\<lparr>cwd := 0\<rparr>) k3) = Inr k' \<and> fsst k' = fsst k3 \<and>
    kinv k' A' \<and> \<not> on_cpu k' cp \<and> state (procs k' cp) = ZOMBIE \<and> status (procs k' cp) = st \<and>
    (\<forall>i < NOFILE. ofile (procs k' cp) i = 0) \<and> cwd (procs k' cp) = 0 \<and>
    (\<forall>q \<in> set slots. parent (procs k' q) = (if parent (procs k q) = cp then initproc k else parent (procs k3 q))) \<and>
    (\<forall>q \<in> set slots. sleeper (proc_chan (parent (procs k3 cp))) (procs k3 q) \<longrightarrow> state (procs k' q) = RUNNABLE) \<and>
    (\<forall>x \<in> set slots. parent (procs k3 x) = cp \<longrightarrow> state (procs k3 x) = ZOMBIE \<longrightarrow>
      (\<forall>q \<in> set slots. sleeper (proc_chan (initproc k)) (procs k3 q) \<longrightarrow> state (procs k' q) = RUNNABLE))"
proof -
  let ?k4 = "set_proc cp (\<lambda>x. x\<lparr>cwd := 0\<rparr>) k3"
  have r4: "runs_on cp c3 ?k4 A3" by (rule runs_on_private [OF r(1)]) (simp add: private_change_def)
  have f: "parent (procs ?k4 q) = parent (procs k3 q)" "state (procs ?k4 q) = state (procs k3 q)" "pchan (procs ?k4 q) = pchan (procs k3 q)"
    "ofile (procs ?k4 q) = ofile (procs k3 q)" "status (procs ?k4 q) = status (procs k3 q)" for q by simp_all
  have s4: "sleeper ch (procs ?k4 q) = sleeper ch (procs k3 q)" for ch q by (simp add: sleeper_def)
  have i4: "initproc ?k4 = initproc k" "fsst ?k4 = fsst k3" "cwd (procs ?k4 cp) = 0" using s by (simp_all add: same_files_def)
  from exit_tail_ok [of ?k4 A3 c3 cp] r4 r(2) obtain k' A' where
    e: "exit_tail c3 cp ?k4 = Inr k'" "kinv k' A'" "state (procs k' cp) = ZOMBIE" "status (procs k' cp) = status (procs ?k4 cp)"
      "ofile (procs k' cp) = ofile (procs ?k4 cp)" "cwd (procs k' cp) = cwd (procs ?k4 cp)"
      "\<forall>q. parent (procs k' q) = (if q \<in> set slots \<and> parent (procs ?k4 q) = cp then initproc ?k4 else parent (procs ?k4 q))"
    and w: "\<forall>q \<in> set slots. sleeper (proc_chan (parent (procs ?k4 cp))) (procs ?k4 q) \<longrightarrow> state (procs k' q) = RUNNABLE"
      "\<forall>x \<in> set slots. parent (procs ?k4 x) = cp \<longrightarrow> state (procs ?k4 x) = ZOMBIE \<longrightarrow>
        (\<forall>q \<in> set slots. sleeper (proc_chan (initproc ?k4)) (procs ?k4 q) \<longrightarrow> state (procs k' q) = RUNNABLE)"
    unfolding runs_on_def by blast
  note e = e [unfolded f s4 i4] and w = w [unfolded f s4 i4]
  have cp: "cp \<in> set slots" using kinv_slot(1) [of k3 A3 c3 cp] r by (simp add: runs_on_def)
  have "\<not> on_cpu k' cp" using cpu_inv_running [OF kinvD(2) [OF e(2)] cp] e(3) by simp
  moreover have "fsst k' = fsst k3" using kept_exit_tail [OF e(1)] by (simp add: kept_def)
  moreover have "status (procs k' cp) = st" using e(4) s x(1) by (simp add: same_files_def)
  moreover have "parent (procs k' q) = (if parent (procs k q) = cp then initproc k else parent (procs k3 q))" if "q \<in> set slots" for q
    using e(7) s that by (simp add: same_files_def)
  ultimately show ?thesis using e(1-3,5,6) w x(2) by (intro exI [of _ k'] exI [of _ A']) simp
qed

lemma runs_on_noted:
  assumes "runs_on p c k A"
  shows "myproc c k = Inr (p, noted c k)" "runs_on p c (noted c k) A"
proof -
  have inv: "kinv k A" and c: "c < ncpu k" using assms by (simp_all add: runs_on_def)
  have wf: "wf_mach k" using kinvD(1) [OF inv] by (simp add: lock_free_def)
  have "kinv (noted c k) A"
    by (rule kinv_stay [OF inv]) (use kinvD [OF inv] wf_noted [OF wf c] in \<open>simp_all add: lock_free_def\<close>)
  then show "runs_on p c (noted c k) A" using assms by (simp add: runs_on_def)
  show "myproc c k = Inr (p, noted c k)" using myproc_eq [OF wf c] assms by (simp add: runs_on_def)
qed

lemma exit_ok:
  assumes r: "runs_on cp c k A" and cp: "cp \<noteq> 0" "cp \<noteq> initproc k"
    and fc: "file_call cp fileclose closes" and ip: "file_call cp iput puts"
  shows "exit_outcome fileclose iput closes puts st cp k (exit fileclose iput st c k)"
proof -
  note n = runs_on_noted [OF r]
  let ?k1 = "set_proc cp (\<lambda>x. x\<lparr>status := st\<rparr>) (noted c k)"
  have r1: "runs_on cp c ?k1 A" by (rule runs_on_private [OF n(2)]) (simp add: private_change_def)
  have s1: "status (procs ?k1 cp) = st" "cwd (procs ?k1 cp) = cwd (procs k cp)" "initproc ?k1 = initproc k"
    "parent (procs ?k1 q) = parent (procs k q)" for q by simp_all
  have op: "open_files (procs ?k1 cp) [0..<NOFILE] = open_files (procs k cp) [0..<NOFILE]" by (rule open_files_cong) simp
  have fs: "fsst ?k1 = fsst k" using kept_mach(3) [OF n(1)] by (simp add: kept_def)
  have ex: "exit fileclose iput st c k = kbind (close_files fileclose c cp [0..<NOFILE] ?k1) (\<lambda>(c, k).
      kbind (iput (cwd (procs k cp)) c k) (\<lambda>(c, k). exit_tail c cp (set_proc cp (\<lambda>x. x\<lparr>cwd := 0\<rparr>) k)))"
    using n(1) cp(2) by (simp add: exit_def Let_def)
  have cl: "closed fileclose closes cp [0..<NOFILE] ?k1 (close_files fileclose c cp [0..<NOFILE] ?k1)"
    by (rule close_files_closed [OF fc r1]) simp
  show ?thesis
  proof (cases "close_files fileclose c cp [0..<NOFILE] ?k1")
    case (Inl e)
    then show ?thesis using cl ex op by (auto simp: closed_def exit_outcome_def)
  next
    case (Inr a)
    obtain c2 k2 where a: "a = (c2, k2)" by (cases a)
    from cl Inr a obtain A2 where r2: "runs_on cp c2 k2 A2" and s2: "same_files cp ?k1 k2"
      and f2: "calls closes (open_files (procs k cp) [0..<NOFILE]) (fsst k) (fsst k2)" "\<forall>i < NOFILE. ofile (procs k2 cp) i = 0"
      unfolding closed_def op fs by auto
    have cw: "cwd (procs k2 cp) = cwd (procs k cp)" using s2 s1(2) by (simp add: same_files_def)
    show ?thesis
    proof (cases "iput (cwd (procs k cp)) c2 k2")
      case e: (Inl e)
      then show ?thesis using ex Inr a cw r2 by (auto simp: exit_outcome_def)
    next
      case b: (Inr b)
      obtain c3 k3 where k3: "iput (cwd (procs k cp)) c2 k2 = Inr (c3, k3)" using b by (cases b) simp
      note f = file_callD [OF ip r2 k3]
      from f(1) obtain A3 where r3: "runs_on cp c3 k3 A3" by blast
      have s3: "same_files cp ?k1 k3" by (rule same_files_trans [OF s2 f(2)])
      have o3: "\<forall>i < NOFILE. ofile (procs k3 cp) i = 0" using f(3) f2(2) by simp
      from exit_end [OF r3 cp(1) s3 s1(1) o3] obtain k' where
        e: "exit_tail c3 cp (set_proc cp (\<lambda>x. x\<lparr>cwd := 0\<rparr>) k3) = Inr k'" by blast
      then have "exit fileclose iput st c k = Inr k'" using ex Inr a cw k3 by simp
      then show ?thesis using exit_end [OF r3 cp(1) s3 s1(1) o3, unfolded s1] e f2(1) f(4) k3 unfolding exit_outcome_def by auto
    qed
  qed
qed

text \<open>A call of \<^verbatim>\<open>wakeup\<close> is such an operation.\<close>

lemma wakeup_runs_on:
  assumes r: "runs_on p c k A" and p: "p \<noteq> 0"
  shows "\<exists>k' A'. wakeup ch c k = Inr k' \<and> runs_on p c k' A' \<and> same_files p k k' \<and> ofile (procs k' p) = ofile (procs k p) \<and> fsst k' = fsst k"
proof -
  have inv: "kinv k A" and c: "c < ncpu k" "cproc (cpus k c) = p" "ncli (cpus k c) = 0" using r by (simp_all add: runs_on_def)
  note t = sect_acquire [OF inv c(1)]
  from sect_wakeup1 [OF t(2), of ch] obtain P d A' where
    w: "wakeup1 ch (taken c ptable_lock k) = Inr ((taken c ptable_lock k)\<lparr>procs := P, ds := d\<rparr>)"
      "sect c ((taken c ptable_lock k)\<lparr>procs := P, ds := d\<rparr>) A'" "woken ch slots (procs k) A P A'" by auto
  let ?k = "(taken c ptable_lock k)\<lparr>procs := P, ds := d\<rparr>"
  let ?k' = "freed c ptable_lock ?k"
  have e: "wakeup ch c k = Inr ?k'" using t(1) w(1) sect_release(1) [OF w(2)] by (simp add: wakeup_eq)
  have "runs_on p c ?k' A'" using sect_release(2) [OF w(2)] c by (simp add: runs_on_def)
  moreover have "kept k ?k'"
    using kept_mach(1) [OF t(1)] kept_wakeup1 [OF w(1)] kept_mach(2) [OF sect_release(1) [OF w(2)]] kept_trans by blast
  moreover have "parent (P q) = parent (procs k q)" for q by (rule woken_moved(2) [OF w(3)])
  moreover note moved_fields [OF woken_moved(1) [OF w(3), of p]]
  ultimately show ?thesis using e by (intro exI [of _ ?k'] exI [of _ A']) (simp add: same_files_def kept_def)
qed

end
