(* ===== verification/VMProps.thy ===== *)
theory VMProps
  imports VM SchedEx
begin

text \<open>
  The page tables: indices, what a walk finds after a page has been mapped, and the
  release of an address space.
\<close>

unbundle bit_operations_syntax

section \<open>Indices\<close>

lemma ten_bits: "w AND 0x3FF = take_bit 10 w" for w :: "32 word"
  by (simp add: take_bit_eq_mask mask_eq_exp_minus_1)

lemma unat_PDX: "unat (PDX va) = unat va div 4194304"
proof -
  have "unat va div 4194304 < 1024" using unsigned_less [of va, where ?'a = nat] by simp
  then show ?thesis
    by (simp add: PDX_def ten_bits unsigned_take_bit_eq unsigned_drop_bit_eq take_bit_nat_eq_self drop_bit_nat_def take_bit_nat_def)
qed

lemma unat_PTX: "unat (PTX va) = unat va div 4096 mod 1024"
proof -
  have "unat va mod 4294967296 = unat va" using unsigned_less [of va, where ?'a = nat] by simp
  then show ?thesis
    by (simp add: PTX_def ten_bits unsigned_take_bit_eq unsigned_drop_bit_eq drop_bit_nat_def take_bit_nat_def)
qed

lemma PTE_ADDR_page:
  assumes "p mod PGSIZE = 0"
  shows "PTE_ADDR (p OR (f AND 0xFFF)) = p" "PTE_FLAGS (p OR (f AND 0xFFF)) = f AND 0xFFF"
proof -
  have m: "(0xFFF :: 32 word) = mask 12" by (simp add: mask_eq_exp_minus_1)
  have "p AND mask 12 = 0" using assms by (simp add: take_bit_eq_mod flip: take_bit_eq_mask)
  then have b: "\<not> bit (p AND mask 12) n" for n by simp
  have z: "\<not> bit p n" if "n < 12" for n using that b [of n] by (simp add: bit_and_iff bit_mask_iff)
  show "PTE_ADDR (p OR (f AND 0xFFF)) = p" unfolding PTE_ADDR_def m
    by (rule bit_word_eqI) (use z in \<open>auto simp: bit_simps\<close>)
  show "PTE_FLAGS (p OR (f AND 0xFFF)) = f AND 0xFFF" unfolding PTE_FLAGS_def m
    by (rule bit_word_eqI) (use z in \<open>auto simp: bit_simps\<close>)
qed

section \<open>Mapping a page\<close>

text \<open>A page that \<^verbatim>\<open>kalloc\<close> can return, as an entry of a directory.\<close>

lemma V2P_P2V [simp]: "P2V (V2P a) = a" "V2P (P2V a) = a"
  by (simp_all add: V2P_def P2V_def)

lemma V2P_aligned: "v mod PGSIZE = 0 \<Longrightarrow> V2P v mod PGSIZE = 0"
proof -
  assume "v mod PGSIZE = 0"
  then have "unat v mod 4096 = 0" by (simp add: word_arith_nat_mod unat_of_nat flip: unat_eq_zero)
  then obtain a where a: "unat v = 4096 * a" by (auto simp: mod_eq_0_iff_dvd elim!: dvdE)
  have "unat (V2P v) = 4096 * (if 524288 \<le> a then a - 524288 else a + 524288)"
    using unat_sub_if' [of v KERNBASE] a by (auto simp: V2P_def diff_mult_distrib2)
  then have "unat (V2P v) mod 4096 = 0" by simp
  then show ?thesis by (simp add: word_arith_nat_mod unat_of_nat flip: unat_eq_zero)
qed

lemma in_page:
  assumes "v mod PGSIZE = 0" and "i < 1024"
  shows "v + 4 * of_nat i - v < PGSIZE"
  using assms(2) by (simp add: word_less_nat_alt unat_word_ariths unat_of_nat)

lemma PDX_small: "\<exists>i < 1024. PDX va = of_nat i" "\<exists>i < 1024. PTX va = of_nat i"
proof -
  have "unat (PDX va) < 1024" "unat (PTX va) < 1024"
    using unat_PDX [of va] unat_PTX [of va] unsigned_less [of va, where ?'a = nat] by simp_all
  then show "\<exists>i < 1024. PDX va = of_nat i" "\<exists>i < 1024. PTX va = of_nat i"
    by (intro exI [of _ "unat (PDX va)"] exI [of _ "unat (PTX va)"]; simp)+
qed

lemma unat_aligned: "v mod PGSIZE = 0 \<Longrightarrow> \<exists>a. unat v = 4096 * a"
proof -
  assume "v mod PGSIZE = 0"
  then have "unat v mod 4096 = 0" by (simp add: word_arith_nat_mod unat_of_nat flip: unat_eq_zero)
  then show ?thesis by (auto simp: mod_eq_0_iff_dvd elim!: dvdE)
qed

lemma unat_slot:
  assumes "v mod PGSIZE = 0" and "i < 1024"
  shows "unat (v + 4 * of_nat i) = unat v + 4 * i"
proof -
  obtain a where a: "unat v = 4096 * a" using unat_aligned [OF assms(1)] by blast
  have "unat v < 4294967296" using unsigned_less [of v, where ?'a = nat] by simp
  then have "a < 1048576" using a by simp
  moreover have "unat (4 * of_nat i :: addr) = 4 * i" using assms(2) by (simp add: unat_word_ariths unat_of_nat)
  ultimately show ?thesis using assms(2) a by (simp add: unat_word_ariths)
qed

text \<open>Words of different pages, and different words of one page, are different.\<close>

lemma slot_inj:
  assumes "u mod PGSIZE = 0" "v mod PGSIZE = 0" "i < 1024" "j < 1024" and "u + 4 * of_nat i = v + 4 * of_nat j"
  shows "u = v" "i = j"
proof -
  obtain a b where ab: "unat u = 4096 * a" "unat v = 4096 * b"
    using unat_aligned [OF assms(1)] unat_aligned [OF assms(2)] by blast
  have "4096 * a + 4 * i = 4096 * b + 4 * j"
    using unat_slot [OF assms(1,3)] unat_slot [OF assms(2,4)] assms(5) ab by simp
  moreover from this have "a = b" using assms(3,4) by simp
  ultimately show "u = v" "i = j" using ab by (simp_all add: word_unat_eq_iff)
qed

text \<open>The directory's entries, and the table an entry points to.\<close>

definition pde_of :: "addr \<Rightarrow> nat \<Rightarrow> kmem \<Rightarrow> u32" where
  "pde_of pgdir i s = mem s (pgdir + 4 * of_nat i)"

definition table_of :: "addr \<Rightarrow> nat \<Rightarrow> kmem \<Rightarrow> addr" where
  "table_of pgdir i s = P2V (PTE_ADDR (pde_of pgdir i s))"

text \<open>
  An address space in memory beside the free pages \<open>fl\<close>: the tables are distinct pages
  of their own.
\<close>

definition vm_ok :: "addr \<Rightarrow> addr \<Rightarrow> kmem \<Rightarrow> addr list \<Rightarrow> bool" where
  "vm_ok kend pgdir s fl \<longleftrightarrow> free_pages kend s fl \<and> pgdir mod PGSIZE = 0 \<and> pgdir \<notin> set fl \<and>
     (\<forall>i < 1024. present (pde_of pgdir i s) \<longrightarrow> table_of pgdir i s mod PGSIZE = 0 \<and> table_of pgdir i s \<noteq> 0 \<and>
        table_of pgdir i s \<noteq> pgdir \<and> table_of pgdir i s \<notin> set fl) \<and>
     (\<forall>i < 1024. \<forall>j < 1024. present (pde_of pgdir i s) \<longrightarrow> present (pde_of pgdir j s) \<longrightarrow>
        table_of pgdir i s = table_of pgdir j s \<longrightarrow> i = j)"

text \<open>The translation the hardware finds for a virtual address: its page-table entry, if present.\<close>

definition translate :: "addr \<Rightarrow> addr \<Rightarrow> kmem \<Rightarrow> u32 option" where
  "translate pgdir va s =
     (let i = unat (PDX va); e = mem s (table_of pgdir i s + 4 * PTX va)
      in if present (pde_of pgdir i s) \<and> present e then Some e else None)"

lemma vm_okD:
  assumes "vm_ok kend pgdir s fl"
  shows "free_pages kend s fl" "pgdir mod PGSIZE = 0" "pgdir \<notin> set fl"
    "\<And>i. i < 1024 \<Longrightarrow> present (pde_of pgdir i s) \<Longrightarrow> table_of pgdir i s mod PGSIZE = 0 \<and> table_of pgdir i s \<noteq> 0 \<and>
        table_of pgdir i s \<noteq> pgdir \<and> table_of pgdir i s \<notin> set fl"
    "\<And>i j. i < 1024 \<Longrightarrow> j < 1024 \<Longrightarrow> present (pde_of pgdir i s) \<Longrightarrow> present (pde_of pgdir j s) \<Longrightarrow>
        table_of pgdir i s = table_of pgdir j s \<Longrightarrow> i = j"
  using assms unfolding vm_ok_def by blast+

lemma index_bounds: "unat (PDX va) < 1024" "unat (PTX va) < 1024"
  using unat_PDX [of va] unat_PTX [of va] unsigned_less [of va, where ?'a = nat] by simp_all

lemma same_page: "unat (PDX va) = unat (PDX vb) \<and> unat (PTX va) = unat (PTX vb) \<longleftrightarrow> unat va div 4096 = unat vb div 4096"
proof
  assume "unat (PDX va) = unat (PDX vb) \<and> unat (PTX va) = unat (PTX vb)"
  then have "unat va div 4096 div 1024 = unat vb div 4096 div 1024" "unat va div 4096 mod 1024 = unat vb div 4096 mod 1024"
    by (simp_all add: unat_PDX unat_PTX flip: div_mult2_eq)
  then show "unat va div 4096 = unat vb div 4096" by (metis div_mod_decomp)
next
  assume e: "unat va div 4096 = unat vb div 4096"
  have "x div 4194304 = x div 4096 div 1024" for x :: nat by (simp flip: div_mult2_eq)
  with e show "unat (PDX va) = unat (PDX vb) \<and> unat (PTX va) = unat (PTX vb)" by (simp add: unat_PDX unat_PTX)
qed

text \<open>Writing an entry of a table of the address space.\<close>

lemma set_entry:
  assumes ok: "vm_ok kend pgdir s fl" and p: "present (pde_of pgdir (unat (PDX va)) s)" and e: "present e"
    and s': "s' = set_mem (table_of pgdir (unat (PDX va)) s + 4 * PTX va) e s"
  shows "vm_ok kend pgdir s' fl" "translate pgdir vb s' = (if unat vb div 4096 = unat va div 4096 then Some e else translate pgdir vb s)"
proof -
  let ?T = "table_of pgdir (unat (PDX va)) s"
  note D = vm_okD [OF ok]
  note T = D(4) [OF index_bounds(1) p]
  have px: "PTX x = of_nat (unat (PTX x))" for x by simp
  have ne: "?T + 4 * PTX va \<noteq> pgdir + 4 * of_nat i" if "i < 1024" for i
    using slot_inj(1) [of ?T pgdir "unat (PTX va)" i] T D(2) that index_bounds(2) [of va] by auto
  have pde: "pde_of pgdir i s' = pde_of pgdir i s" if "i < 1024" for i
    using ne [OF that, symmetric] by (simp add: pde_of_def set_mem_def s')
  then have tab: "table_of pgdir i s' = table_of pgdir i s" if "i < 1024" for i using that by (simp add: table_of_def)
  have "?T + 4 * PTX va \<notin> set fl"
  proof
    assume m: "?T + 4 * PTX va \<in> set fl"
    then have "(?T + 4 * PTX va) mod PGSIZE = 0" using D(1) by (auto simp: free_pages_def page_ok_def)
    then have "?T + 4 * PTX va = ?T"
      using slot_inj(1) [of "?T + 4 * PTX va" ?T 0 "unat (PTX va)"] T index_bounds(2) [of va] by simp
    then show False using m T by simp
  qed
  then have "free_pages kend s' fl" using D(1) by (simp add: free_pages_def set_mem_def s')
  then show "vm_ok kend pgdir s' fl" using D pde tab unfolding vm_ok_def by simp
  show "translate pgdir vb s' = (if unat vb div 4096 = unat va div 4096 then Some e else translate pgdir vb s)"
  proof (cases "present (pde_of pgdir (unat (PDX vb)) s)")
    case True
    let ?U = "table_of pgdir (unat (PDX vb)) s"
    have "?T + 4 * PTX va = ?U + 4 * PTX vb \<longleftrightarrow> unat (PDX va) = unat (PDX vb) \<and> unat (PTX va) = unat (PTX vb)"
      using slot_inj [of ?T ?U "unat (PTX va)" "unat (PTX vb)"] T D(4) [OF index_bounds(1) True]
        D(5) [OF index_bounds(1,1) p True] index_bounds word_unat_eq_iff [of "PTX va" "PTX vb"] by auto
    then have "?T + 4 * PTX va = ?U + 4 * PTX vb \<longleftrightarrow> unat vb div 4096 = unat va div 4096" using same_page [of va vb] by auto
    then show ?thesis using True e
      by (simp add: translate_def Let_def pde tab index_bounds) (auto simp: set_mem_def s')
  next
    case False
    then have "unat vb div 4096 \<noteq> unat va div 4096" using same_page [of va vb] p by auto
    with False show ?thesis by (simp add: translate_def Let_def pde index_bounds)
  qed
qed

text \<open>A new, empty table for a directory entry.\<close>

lemma table_entry:
  assumes "x mod PGSIZE = 0"
  shows "present (V2P x OR PTE_P OR PTE_W OR PTE_U)" "P2V (PTE_ADDR (V2P x OR PTE_P OR PTE_W OR PTE_U)) = x"
proof -
  have "V2P x OR PTE_P OR PTE_W OR PTE_U = V2P x OR (7 AND 0xFFF)" by simp
  then show "P2V (PTE_ADDR (V2P x OR PTE_P OR PTE_W OR PTE_U)) = x"
    using PTE_ADDR_page(1) [OF V2P_aligned [OF assms], of 7] by simp
  have b: "bit ((V2P x OR PTE_P OR PTE_W OR PTE_U) AND PTE_P) 0" by (simp add: bit_and_iff bit_or_iff)
  show "present (V2P x OR PTE_P OR PTE_W OR PTE_U)" unfolding present_def
  proof
    assume z: "(V2P x OR PTE_P OR PTE_W OR PTE_U) AND PTE_P = 0"
    show False using b unfolding z by simp
  qed
qed

lemma outside_page:
  fixes a x :: addr
  assumes "a mod PGSIZE = 0" "x mod PGSIZE = 0" "j < 1024" "a \<noteq> x"
  shows "\<not> a + 4 * of_nat j - x < PGSIZE"
proof
  assume less: "a + 4 * of_nat j - x < PGSIZE"
  obtain b where b: "unat a = 4096 * b" using unat_aligned [OF assms(1)] by blast
  obtain y where y: "unat x = 4096 * y" using unat_aligned [OF assms(2)] by blast
  have u: "unat (a + 4 * of_nat j) = 4096 * b + 4 * j" using unat_slot [OF assms(1,3)] b by simp
  have "unat (a + 4 * of_nat j - x) < 4096" using less by (simp add: word_less_nat_alt)
  moreover have "4096 * y < 4294967296" using unsigned_less [of x, where ?'a = nat] y by simp
  ultimately have "b = y" using unat_sub_if' [of "a + 4 * of_nat j" x] u y assms(3) by (simp split: if_splits)
  then show False using b y assms(4) by (simp add: word_unat_eq_iff)
qed

lemma new_table:
  assumes ok: "vm_ok kend pgdir s (x # fl)" and p: "\<not> present (pde_of pgdir (unat (PDX va)) s)"
    and s': "s' = set_mem (pgdir + 4 * PDX va) (V2P x OR PTE_P OR PTE_W OR PTE_U) (zero_page x (snd (kalloc s)))"
  shows "vm_ok kend pgdir s' fl" "present (pde_of pgdir (unat (PDX va)) s')" "table_of pgdir (unat (PDX va)) s' = x"
    "translate pgdir vb s' = translate pgdir vb s"
proof -
  note D = vm_okD [OF ok]
  note ka = kalloc_spec [OF D(1)]
  have x: "x mod PGSIZE = 0" "x \<noteq> pgdir" using ka(3) D(3) by (auto simp: page_ok_def)
  let ?i = "unat (PDX va)" and ?e = "V2P x OR PTE_P OR PTE_W OR PTE_U"
  have pd: "pgdir + 4 * PDX va = pgdir + 4 * of_nat ?i" by simp
  note off = outside_page [OF _ x(1)]
  have mem_off: "mem s' (a + 4 * of_nat j) = mem s (a + 4 * of_nat j)"
    if "a mod PGSIZE = 0" "a \<noteq> x" "j < 1024" "a \<noteq> pgdir \<or> j \<noteq> ?i" for a j
    using off [OF that(1,3,2)] slot_inj [of a pgdir j ?i] that D(2) index_bounds(1) [of va] ka(6)
    by (auto simp: s' set_mem_def zero_page_def memset_words_def)
  have new: "pde_of pgdir ?i s' = ?e" by (simp add: pde_of_def s' set_mem_def)
  have old: "pde_of pgdir j s' = pde_of pgdir j s" if "j < 1024" "j \<noteq> ?i" for j
    using mem_off [of pgdir j] that x D(2) by (simp add: pde_of_def)
  show pr: "present (pde_of pgdir ?i s')" and tb: "table_of pgdir ?i s' = x"
    using table_entry [OF x(1)] new by (simp_all add: table_of_def)
  have tab: "table_of pgdir j s' = table_of pgdir j s" if "j < 1024" "j \<noteq> ?i" for j using old [OF that] by (simp add: table_of_def)
  have fl: "a mod PGSIZE = 0" "a \<noteq> pgdir" "a \<noteq> x" if "a \<in> set fl" for a
    using that D(1,3) ka(4) by (auto simp: free_pages_def page_ok_def)
  have "mem s' a = mem s a" if "a \<in> set fl" for a using mem_off [of a 0] fl [OF that] by simp
  then have "chain (mem s') (freelist s') fl \<longleftrightarrow> chain (mem s) (freelist s') fl" by (rule chain_cong)
  moreover have "freelist s' = freelist (snd (kalloc s))" by (simp add: s' set_mem_def zero_page_def)
  ultimately have "free_pages kend s' fl" using ka(5,6) by (simp add: free_pages_def)
  then show "vm_ok kend pgdir s' fl" unfolding vm_ok_def
  proof (intro conjI allI impI)
    show "table_of pgdir j s' mod PGSIZE = 0" "table_of pgdir j s' \<noteq> 0" "table_of pgdir j s' \<noteq> pgdir" "table_of pgdir j s' \<notin> set fl"
      if "j < 1024" "present (pde_of pgdir j s')" for j
      using that x ka(2,4) tb tab [of j] old [of j] D(4) [of j] by (cases "j = ?i"; simp)+
    show "a = b" if "a < 1024" "b < 1024" "present (pde_of pgdir a s')" "present (pde_of pgdir b s')"
      "table_of pgdir a s' = table_of pgdir b s'" for a b
      using that tb tab [of a] tab [of b] old [of a] old [of b] D(4) [of a] D(4) [of b] D(5) [of a b]
      by (cases "a = ?i"; cases "b = ?i") auto
  qed (use D in auto)
  show "translate pgdir vb s' = translate pgdir vb s"
  proof (cases "unat (PDX vb) = ?i")
    case True
    have "mem s' (x + 4 * PTX vb) = 0"
      using in_page [OF x(1) index_bounds(2) [of vb]] slot_inj(1) [of x pgdir "unat (PTX vb)" ?i] x D(2) index_bounds
      by (auto simp: s' set_mem_def zero_page_def memset_words_def)
    then show ?thesis using True tb p by (simp add: translate_def Let_def present_def)
  next
    case False
    let ?j = "unat (PDX vb)"
    show ?thesis
    proof (cases "present (pde_of pgdir ?j s)")
      case True
      have "mem s' (table_of pgdir ?j s + 4 * PTX vb) = mem s (table_of pgdir ?j s + 4 * PTX vb)"
        using mem_off [of "table_of pgdir ?j s" "unat (PTX vb)"] D(4) [OF index_bounds(1) True] index_bounds by simp
      then show ?thesis using old [OF index_bounds(1) False] tab [OF index_bounds(1) False] by (simp add: translate_def)
    next
      case F: False
      then show ?thesis using old [OF index_bounds(1) False] by (simp add: translate_def)
    qed
  qed
qed

lemma aligned_bits: "p mod PGSIZE = 0 \<Longrightarrow> n < 12 \<Longrightarrow> \<not> bit p n" for p :: addr
proof -
  assume p: "p mod PGSIZE = 0" and n: "n < 12"
  have "p AND mask 12 = 0" using p by (simp add: take_bit_eq_mod flip: take_bit_eq_mask)
  then have "\<not> bit (p AND mask 12) n" by simp
  then show ?thesis using n by (simp add: bit_and_iff bit_mask_iff)
qed

lemma PGROUNDDOWN_aligned:
  assumes "va mod PGSIZE = 0"
  shows "PGROUNDDOWN va = va" "PGROUNDDOWN (va + PGSIZE - 1) = va"
proof -
  have m: "(PGSIZE - 1 :: addr) = mask 12" by (simp add: mask_eq_exp_minus_1)
  show "PGROUNDDOWN va = va" unfolding PGROUNDDOWN_def m
    by (rule bit_word_eqI) (use aligned_bits [OF assms] in \<open>auto simp: bit_simps\<close>)
  have "va AND mask 12 = 0" using assms by (simp add: take_bit_eq_mod flip: take_bit_eq_mask)
  then have "va + mask 12 = va OR mask 12" by (rule disjunctive_add_eq_or)
  then have "va + PGSIZE - 1 = va OR mask 12" by (simp add: m [symmetric] add.commute)
  then show "PGROUNDDOWN (va + PGSIZE - 1) = va" unfolding PGROUNDDOWN_def m
    by (simp only:) (rule bit_word_eqI, use aligned_bits [OF assms] in \<open>auto simp: bit_simps\<close>)
qed

lemma present_or: "present (a OR b OR PTE_P)"
  unfolding present_def
proof
  have b: "bit ((a OR b OR PTE_P) AND PTE_P) 0" by (simp add: bit_and_iff bit_or_iff)
  assume z: "(a OR b OR PTE_P) AND PTE_P = 0"
  show False using b unfolding z by simp
qed

lemma mappages_one:
  assumes "va mod PGSIZE = 0"
  shows "mappages pgdir va PGSIZE pa perm s =
    (let (pte, s1) = walkpgdir pgdir va True s
     in if pte = 0 then Inr (False, s1)
        else if present (mem s1 pte) then Inl (Panic ''remap'')
        else Inr (True, set_mem pte (pa OR perm OR PTE_P) s1))"
  unfolding mappages_def Let_def PGROUNDDOWN_aligned [OF assms]
  by (simp add: mappages_loop.simps Let_def split: prod.splits)

lemma slot_nonnull: "v mod PGSIZE = 0 \<Longrightarrow> v \<noteq> 0 \<Longrightarrow> v + 4 * PTX va \<noteq> 0"
  using slot_inj(1) [of v 0 "unat (PTX va)" 0] index_bounds(2) [of va] by auto

lemma walk_present:
  assumes "present (pde_of pgdir (unat (PDX va)) s)"
  shows "walkpgdir pgdir va al s = (table_of pgdir (unat (PDX va)) s + 4 * PTX va, s)"
  using assms by (simp add: walkpgdir_def pde_of_def table_of_def Let_def)

lemma walk_absent:
  assumes "\<not> present (pde_of pgdir (unat (PDX va)) s)"
  shows "walkpgdir pgdir va True s =
    (let (pgtab, s1) = kalloc s
     in if pgtab = 0 then (0, s1)
        else (pgtab + 4 * PTX va, set_mem (pgdir + 4 * PDX va) (V2P pgtab OR PTE_P OR PTE_W OR PTE_U) (zero_page pgtab s1)))"
  using assms by (simp add: walkpgdir_def pde_of_def Let_def)

text \<open>C24. \<^verbatim>\<open>mappages\<close> on one page: it panics when the page is mapped already, returns -1 when
  a table is needed and no page is free, and otherwise maps exactly this page to the
  given frame and permissions, leaving every other translation of the address space as
  it was.\<close>

theorem mappages_page:
  assumes ok: "vm_ok kend pgdir s fl" and va: "va mod PGSIZE = 0"
  shows "if translate pgdir va s \<noteq> None then mappages pgdir va PGSIZE pa perm s = Inl (Panic ''remap'')
    else if \<not> present (pde_of pgdir (unat (PDX va)) s) \<and> fl = [] then mappages pgdir va PGSIZE pa perm s = Inr (False, s)
    else \<exists>s' fl'. mappages pgdir va PGSIZE pa perm s = Inr (True, s') \<and> vm_ok kend pgdir s' fl' \<and> set fl' \<subseteq> set fl \<and>
      (\<forall>vb. translate pgdir vb s' =
        (if unat vb div 4096 = unat va div 4096 then Some (pa OR perm OR PTE_P) else translate pgdir vb s))"
proof (cases "present (pde_of pgdir (unat (PDX va)) s)")
  case True
  let ?T = "table_of pgdir (unat (PDX va)) s" and ?e = "pa OR perm OR PTE_P"
  have nz: "?T + 4 * PTX va \<noteq> 0" using vm_okD(4) [OF ok index_bounds(1) True] by (intro slot_nonnull) auto
  have m: "mappages pgdir va PGSIZE pa perm s =
    (if present (mem s (?T + 4 * PTX va)) then Inl (Panic ''remap'') else Inr (True, set_mem (?T + 4 * PTX va) ?e s))"
    using nz by (simp add: mappages_one [OF va] walk_present [OF True])
  have t: "translate pgdir va s \<noteq> None \<longleftrightarrow> present (mem s (?T + 4 * PTX va))" using True by (simp add: translate_def Let_def)
  note se = set_entry [OF ok True present_or [of pa perm] refl]
  show ?thesis
  proof (cases "present (mem s (?T + 4 * PTX va))")
    case False
    then show ?thesis using m t True se by (intro if_not_P [THEN iffD2]) auto
  qed (use m t in simp)
next
  case False
  have t: "translate pgdir va s = None" using False by (simp add: translate_def Let_def)
  show ?thesis
  proof (cases fl)
    case Nil
    then have "kalloc s = (0, s)" using kalloc_empty vm_okD(1) [OF ok] by simp
    then show ?thesis using t False Nil by (simp add: mappages_one [OF va] walk_absent [OF False])
  next
    case (Cons x xs)
    note ka = kalloc_spec [OF vm_okD(1) [OF ok [unfolded Cons]]]
    let ?s1 = "set_mem (pgdir + 4 * PDX va) (V2P x OR PTE_P OR PTE_W OR PTE_U) (zero_page x (snd (kalloc s)))"
    note nt = new_table [OF ok [unfolded Cons] False refl]
    let ?s2 = "set_mem (x + 4 * PTX va) (pa OR perm OR PTE_P) ?s1"
    have w: "walkpgdir pgdir va True s = (x + 4 * PTX va, ?s1)"
      using ka(1,2) by (simp add: walk_absent [OF False] split_def)
    have "mem ?s1 (x + 4 * PTX va) = mem ?s1 (table_of pgdir (unat (PDX va)) ?s1 + 4 * PTX va)" unfolding nt(3) ..
    then have "\<not> present (mem ?s1 (x + 4 * PTX va))" using nt(4) [of va] t nt(2) by (auto simp: translate_def Let_def split: if_splits)
    moreover have "x + 4 * PTX va \<noteq> 0" using ka(2,3) by (intro slot_nonnull) (auto simp: page_ok_def)
    ultimately have m: "mappages pgdir va PGSIZE pa perm s = Inr (True, ?s2)" by (simp only: mappages_one [OF va] w Let_def split if_False)
    note se = set_entry [OF nt(1,2) present_or [of pa perm], of ?s2, unfolded nt(3), OF refl]
    have "\<exists>s' fl'. mappages pgdir va PGSIZE pa perm s = Inr (True, s') \<and> vm_ok kend pgdir s' fl' \<and> set fl' \<subseteq> set fl \<and>
      (\<forall>vb. translate pgdir vb s' =
        (if unat vb div 4096 = unat va div 4096 then Some (pa OR perm OR PTE_P) else translate pgdir vb s))"
      using m se nt(4) Cons by (intro exI [of _ ?s2] exI [of _ xs]) auto
    with t Cons show ?thesis by simp
  qed
qed

definition one_page :: kmem where
  "one_page = \<lparr>mem = (\<lambda>_. 0), use_lock = False, freelist = 0x80401000\<rparr>"

lemma one_page_ok: "vm_ok 0x80400000 0x80400000 one_page [0x80401000]"
  by (simp add: vm_ok_def free_pages_def one_page_def page_ok_def V2P_def pde_of_def present_def)

theorem mappages_page_witness:
  "\<exists>s'. mappages 0x80400000 0x1000 PGSIZE 0x200000 6 one_page = Inr (True, s') \<and>
    translate 0x80400000 0x1000 s' = Some 0x200007 \<and> translate 0x80400000 0x5000 s' = None"
proof -
  have n: "translate 0x80400000 va one_page = None" for va by (simp add: translate_def Let_def one_page_def present_def pde_of_def)
  have "(if translate 0x80400000 0x1000 one_page \<noteq> None then mappages 0x80400000 0x1000 PGSIZE 0x200000 6 one_page = Inl (Panic ''remap'')
    else if \<not> present (pde_of 0x80400000 (unat (PDX 0x1000)) one_page) \<and> [0x80401000 :: addr] = [] then mappages 0x80400000 0x1000 PGSIZE 0x200000 6 one_page = Inr (False, one_page)
    else \<exists>s' fl'. mappages 0x80400000 0x1000 PGSIZE 0x200000 6 one_page = Inr (True, s') \<and> vm_ok 0x80400000 0x80400000 s' fl' \<and> set fl' \<subseteq> set [0x80401000] \<and>
      (\<forall>vb. translate 0x80400000 vb s' =
        (if unat vb div 4096 = unat (0x1000 :: addr) div 4096 then Some (0x200000 OR 6 OR PTE_P) else translate 0x80400000 vb one_page)))"
    by (rule mappages_page [OF one_page_ok]) simp
  then obtain s' where "mappages 0x80400000 0x1000 PGSIZE 0x200000 6 one_page = Inr (True, s')"
    "\<forall>vb. translate 0x80400000 vb s' =
        (if unat vb div 4096 = unat (0x1000 :: addr) div 4096 then Some (0x200000 OR 6 OR PTE_P) else translate 0x80400000 vb one_page)"
    using n by auto
  then show ?thesis using n by (intro exI [of _ s']) simp
qed

section \<open>Releasing an address space\<close>

lemma unat_PGADDR: "i < 1024 \<Longrightarrow> unat (PGADDR (of_nat i) 0 0) = i * 4194304"
  by (simp add: PGADDR_def unsigned_push_bit_eq unat_of_nat push_bit_nat_def take_bit_nat_def)

lemma PDX_PGADDR: "i < 1024 \<Longrightarrow> PDX (PGADDR (of_nat i) 0 0) = of_nat i"
  using unat_PGADDR [of i] unat_PDX [of "PGADDR (of_nat i) 0 0"]
  by (simp add: word_unat_eq_iff unat_of_nat)

lemma deallocuvm_loop_empty:
  assumes "\<forall>i < 512. \<not> present (pde_of pgdir i s)" and "i \<le> 512"
  shows "deallocuvm_loop kend pgdir (PGADDR (of_nat i) 0 0) KERNBASE s = Some (Inr s)"
  using assms(2)
proof (induction i rule: inc_induct)
  case base
  have "\<not> PGADDR (of_nat 512) 0 0 < KERNBASE" using unat_PGADDR [of 512] by (simp add: word_less_nat_alt)
  then show ?case by (subst deallocuvm_loop.simps) simp
next
  case (step n)
  have lt: "PGADDR (of_nat n) 0 0 < KERNBASE" using unat_PGADDR [of n] step(2) by (simp add: word_less_nat_alt)
  have px: "PDX (PGADDR (of_nat n) 0 0) = of_nat n" using PDX_PGADDR [of n] step(2) by simp
  have w: "walkpgdir pgdir (PGADDR (of_nat n) 0 0) False s = (0, s)"
    using assms(1) step(2) px by (simp add: walkpgdir_def pde_of_def)
  have "PGADDR (of_nat n + 1) 0 0 = PGADDR (of_nat (Suc n)) 0 0" by (simp add: add.commute)
  then show ?case by (subst deallocuvm_loop.simps) (use lt w px step.IH in simp)
qed

lemma free_tables_empty: "\<forall>i \<in> set is. \<not> present (pde_of pgdir i s) \<Longrightarrow> free_tables kend pgdir is s = Inr s"
  by (induction "is") (simp_all add: pde_of_def)

lemma freevm_empty:
  assumes "\<forall>i < 1024. \<not> present (pde_of pgdir i s)" and "page_ok kend pgdir"
  shows "\<exists>s'. freevm kend pgdir s = Inr s' \<and> kfree kend pgdir s = Inr s'"
proof -
  have "PGROUNDUP 0 = PGADDR (of_nat 0) 0 0" by (simp add: PGROUNDUP_def PGADDR_def)
  then have "deallocuvm kend pgdir KERNBASE 0 s = Inr (0, s)"
    using deallocuvm_loop_empty [of pgdir s 0 kend] assms(1) by (simp add: deallocuvm_def)
  moreover have "free_tables kend pgdir [0..<1024] s = Inr s" using assms(1) by (intro free_tables_empty) simp
  ultimately show ?thesis using assms(2) page_ok_nonnull [OF assms(2)] kfree_accepts [of kend pgdir s]
    by (auto simp: freevm_def)
qed

end
