(* ===== verification/ProcProps.thy ===== *)
theory ProcProps
  imports ProcEx ProcRace ProcExit VMProps
begin

text \<open>The properties of the process table and the scheduler, with applications to the state of \<open>ProcEx\<close>.\<close>

text \<open>The first slot of the example with a property.\<close>

lemma ex_find: "find Q slots = Some p" if "Q p" "p \<in> set slots" "\<And>q. 0 < q \<Longrightarrow> q < p \<Longrightarrow> \<not> Q q" for p
proof -
  have "find Q [1..<Suc 64] = find Q ([1..<p] @ [p..<Suc 64])" using upt_add_eq_append [of 1 p "65 - p"] that(2) by (simp add: set_slots)
  also have "\<dots> = find Q [p..<Suc 64]"
  proof -
    have "find Q (xs @ ys) = find Q ys" if "\<forall>x \<in> set xs. \<not> Q x" for xs ys using that by (induction xs) auto
    then show ?thesis using that(3) by auto
  qed
  also have "[p..<Suc 64] = p # [Suc p..<Suc 64]" using that(2) by (intro upt_conv_Cons) (auto simp: set_slots)
  finally show ?thesis using that(1) by (simp add: slots_def)
qed

section \<open>The invariant of every interleaving\<close>

lemma kinv_running_set:
  assumes "kinv k A"
  shows "set (a_rp A) = {p \<in> set slots. state (procs k p) = RUNNING}"
  using kinvD(7) [OF assms] cpu_inv_running [OF kinvD(2) [OF assms]] by auto

lemma kinv_safe:
  assumes "kinv k A"
  shows "ds_rep (ds k) A \<and> distinct (a_rp A) \<and> set (a_rp A) = {p \<in> set slots. state (procs k p) = RUNNING} \<and>
    (\<forall>c < ncpu k. \<forall>c' < ncpu k. cproc (cpus k c) = cproc (cpus k c') \<longrightarrow> cproc (cpus k c) \<noteq> 0 \<longrightarrow> c = c') \<and>
    (\<forall>c < ncpu k. cproc (cpus k c) \<noteq> 0 \<longrightarrow> state (procs k (cproc (cpus k c))) = RUNNING)"
proof (intro conjI allI impI)
  note D = kinvD [OF assms]
  show "ds_rep (ds k) A" "distinct (a_rp A)" by (rule D)+
  show "set (a_rp A) = {p \<in> set slots. state (procs k p) = RUNNING}" by (rule kinv_running_set [OF assms])
  show "c = c'" if "c < ncpu k" "c' < ncpu k" "cproc (cpus k c) = cproc (cpus k c')" "cproc (cpus k c) \<noteq> 0" for c c'
    by (rule cpu_inv_uniq [OF D(2) that])
  show "state (procs k (cproc (cpus k c))) = RUNNING" if "c < ncpu k" "cproc (cpus k c) \<noteq> 0" for c
    by (rule kinv_slot(2) [OF assms that(1) refl that(2)])
qed

text \<open>C10. Whatever the CPUs do in any order (scheduling, yielding, sleeping, waking, forking,
  exiting, waiting, killing, locking), no process is on two CPUs, a process on a CPU is
  RUNNING, and the holder of running processes contains exactly the RUNNING processes,
  each once.\<close>

theorem interleavings_are_safe:
  assumes "kinv k A" and "(kstep kend)\<^sup>*\<^sup>* k k'"
  shows "\<exists>A'. ds_rep (ds k') A' \<and> distinct (a_rp A') \<and> set (a_rp A') = {p \<in> set slots. state (procs k' p) = RUNNING} \<and>
    (\<forall>c < ncpu k'. \<forall>c' < ncpu k'. cproc (cpus k' c) = cproc (cpus k' c') \<longrightarrow> cproc (cpus k' c) \<noteq> 0 \<longrightarrow> c = c') \<and>
    (\<forall>c < ncpu k'. cproc (cpus k' c) \<noteq> 0 \<longrightarrow> state (procs k' (cproc (cpus k' c))) = RUNNING)"
  using reachable_kinv [OF assms(2,1)] kinv_safe by blast

theorem interleavings_are_safe_witness:
  "\<exists>k' A'. kstep 0x80400000 (ex_kst busy_ds) k' \<and> ds_rep (ds k') A' \<and>
    set (a_rp A') = {p \<in> set slots. state (procs k' p) = RUNNING}"
proof -
  from yield_ok [OF busy_kinv, of 0 2] obtain k' where k': "yield 0 (ex_kst busy_ds) = Inr k'" by auto
  then have "kstep 0x80400000 (ex_kst busy_ds) k'" by (intro step_yield [of 0 _ 2]) simp_all
  then show ?thesis using interleavings_are_safe [OF busy_kinv, of "0x80400000" k'] by blast
qed

section \<open>The scheduler\<close>

text \<open>C11. One turn of the scheduler on an idle CPU. An empty queue leaves the CPU idle and the
  table as it is. Otherwise the entry at the front, whose stored key no other entry undercuts, is
  taken: if its process is not RUNNABLE the entry is dropped, its link freed and nothing else
  changes; if the process sleeps inside \<^verbatim>\<open>wait\<close> it goes on in the loop of \<^verbatim>\<open>wait\<close>;
  else it runs on this CPU and is in the holder, and no other table entry changes. Only the case of
  \<^verbatim>\<open>wait\<close> can fail, as \<^verbatim>\<open>wait\<close> itself can.\<close>

theorem scheduler_takes_least_key:
  assumes "kinv k A" and "c < ncpu k" and "cproc (cpus k c) = 0"
  shows "case a_pq A of
      [] \<Rightarrow> \<exists>k'. scheduler kend c k = Inr (None, k') \<and> kinv k' A \<and> procs k' = procs k \<and> cproc (cpus k' c) = 0
    | (key, p) # xs \<Rightarrow> (\<forall>e \<in> set xs. key \<le> fst e) \<and>
        (if state (procs k p) \<noteq> RUNNABLE
         then \<exists>k'. scheduler kend c k = Inr (None, k') \<and> kinv k' (A\<lparr>a_pq := xs, a_free := Suc (a_free A)\<rparr>) \<and>
           procs k' = procs k \<and> cproc (cpus k' c) = 0
         else case pcontext (procs k p) of
             InSched (RWait want) i \<Rightarrow>
               wait_outcome kend want c p ((procs k)(p := (procs k p)\<lparr>state := RUNNING, pcontext := OnCpu, pchan := NoChan\<rparr>))
                 (km k) (A\<lparr>a_pq := xs, a_rp := a_rp A @ [p]\<rparr>) (scheduler kend c k)
           | _ \<Rightarrow> \<exists>k'. scheduler kend c k = Inr (None, k') \<and> kinv k' (A\<lparr>a_pq := xs, a_rp := a_rp A @ [p]\<rparr>) \<and>
               cproc (cpus k' c) = p \<and> state (procs k' p) = RUNNING \<and> (\<forall>q. q \<noteq> p \<longrightarrow> procs k' q = procs k q))"
proof -
  note inv = kinv_sti [OF assms]
  have c: "c < ncpu (sti c k)" "cproc (cpus (sti c k) c) = 0" "km (sti c k) = km k" using assms by (simp_all add: sti_def)
  show ?thesis
  proof (cases "a_pq A")
    case Nil
    then show ?thesis using Priority_Scheduler_idle [OF inv c(1) Nil, of kend] assms(3) by (auto simp: scheduler_def)
  next
    case (Cons e xs)
    obtain key p where e: "a_pq A = (key, p) # xs" using Cons by (cases e) simp
    have least: "\<forall>e \<in> set xs. key \<le> fst e"
      using ds_rep_sorted [OF kinvD(4) [OF assms(1)]] e by (auto simp: pq_sorted_def)
    show ?thesis
    proof (cases "state (procs k p) = RUNNABLE")
      case False
      then show ?thesis using Priority_Scheduler_stale [OF inv c(1) e, of kend] least e assms(3) by (auto simp: scheduler_def)
    next
      case True
      then have st: "state (procs (sti c k) p) = RUNNABLE" by simp
      from Priority_Scheduler_pick [OF inv c(1) e st, of kend] obtain d where
        d: "scheduler kend c k = resume_proc kend c p (dispatched c p d (sti c k))" "p \<in> set slots"
        "ds_rep d (A\<lparr>a_pq := xs, a_rp := a_rp A @ [p]\<rparr>)" "snd ` set xs \<subseteq> set slots" by (auto simp: scheduler_def)
      note ok = resume_ok [OF inv c(1,2) d(2) st d(3,4), of kend]
      show ?thesis
        using least e True ok d(1) resume_wait [OF inv c(1,2) d(2) st d(3,4), of _ _ kend] c(3)
        by (auto split: kcont.splits resume.splits)
    qed
  qed
qed

theorem scheduler_takes_least_key_witness:
  "\<exists>k'. scheduler 0x80400000 1 (ex_kst busy_ds) = Inr (None, k') \<and> cproc (cpus k' 1) = 3 \<and> state (procs k' 3) = RUNNING"
  using scheduler_takes_least_key [OF busy_kinv, of 1 "0x80400000"] by auto

text \<open>C12. A process that yields is put into the queue twice: by \<^verbatim>\<open>yield\<close> under its
  accumulator, and by the scheduler under the accumulator increased by its priority.
  Each such quantum uses up one of the free links.\<close>

theorem yield_queues_twice:
  assumes "kinv k A" and "c < ncpu k" and "cproc (cpus k c) = p" and "p \<noteq> 0" and "ncli (cpus k c) = 0" and "0 < a_free A"
  shows "\<exists>k' A'. yield c k = Inr k' \<and> kinv k' A' \<and> state (procs k' p) = RUNNABLE \<and> cproc (cpus k' c) = 0 \<and>
    mset (a_pq A') = mset (a_pq A) + {#(accumulator (procs k p), p),
      (s64 (accumulator (procs k p) + priority (procs k p)), p)#} \<and> a_free A' = a_free A - 1"
proof -
  from yield_ok [OF assms(1-5)] obtain k' i where y: "yield c k = Inr k'" "cproc (cpus k' c) = 0"
    and P: "procs k' = (procs k)(p := (procs k p)\<lparr>state := RUNNABLE,
       accumulator := s64 (accumulator (procs k p) + priority (procs k p)), pcontext := InSched RYield i\<rparr>)"
    and inv: "kinv k' (a_put (getAccumulator k') p (a_put (getAccumulator k) p (a_remove p A)))" by blast
  have m: "p \<in> set (a_rp A)" by (rule kinv_slot(3) [OF assms(1-4)])
  let ?A = "a_put (getAccumulator k') p (a_put (getAccumulator k) p (a_remove p A))"
  have "mset (a_pq ?A) = mset (a_pq A) + {#(accumulator (procs k p), p), (s64 (accumulator (procs k p) + priority (procs k p)), p)#}"
    "a_free ?A = a_free A - 1"
    using assms(6) m P by (simp_all add: a_put_def a_remove_def getAccumulator_def)
  with y P inv show ?thesis by (intro exI [of _ k'] exI [of _ ?A]) simp
qed

theorem yield_queues_twice_witness:
  "\<exists>k' A'. yield 0 (ex_kst busy_ds) = Inr k' \<and> kinv k' A' \<and> mset (a_pq A') = {#(5, 3), (5, 2), (10, 2)#} \<and> a_free A' = 0"
proof -
  have "s64 (5 + 5) = 10" by (simp add: s64_def)
  with yield_queues_twice [OF busy_kinv, of 0 2] show ?thesis by fastforce
qed

section \<open>New processes\<close>

lemma a_min_Min:
  assumes "ds_rep (ds k) A"
  shows "a_min acc A = (if a_pq A = [] then 0 else Min (fst ` set (a_pq A) \<union> acc ` set (a_rp A)))"
proof (cases "a_pq A")
  case Nil
  then show ?thesis by (simp add: a_min_def)
next
  case (Cons e xs)
  have "fst (hd (a_pq A)) = Min (fst ` set (a_pq A))"
    using ds_rep_sorted [OF assms] Cons by (intro Min_eqI [symmetric]) (auto simp: pq_sorted_def)
  moreover have "Min (fst ` set (a_pq A) \<union> acc ` set (a_rp A)) =
    (if a_rp A = [] then Min (fst ` set (a_pq A)) else min (Min (fst ` set (a_pq A))) (Min (acc ` set (a_rp A))))"
    if "a_pq A \<noteq> []" using that by (simp add: Min_Un)
  moreover have "a_pq A \<noteq> []" using Cons by simp
  ultimately show ?thesis by (simp add: a_min_def)
qed



text \<open>C14. \<^verbatim>\<open>get_min\<close> is the least accumulator over the queued entries and the running
  processes when the queue is not empty, and 0 when it is empty, whatever runs.\<close>

theorem get_min_spec:
  assumes "ds_rep (ds k) A"
  shows "get_min k = Inr (if a_pq A = [] then 0 else Min (fst ` set (a_pq A) \<union> getAccumulator k ` set (a_rp A)))"
  using get_min_eq [OF assms] a_min_Min [OF assms] by simp

theorem get_min_spec_witness: "get_min (ex_kst rr_ds) = Inr 0 \<and> getAccumulator (ex_kst rr_ds) 2 = 5"
  using get_min_spec [of "ex_kst rr_ds", OF kinvD(4) [OF rr_kinv]] by (simp add: getAccumulator_def)

section \<open>Sleeping and waking up\<close>

text \<open>C15. No wakeup is lost. A process calls \<^verbatim>\<open>sleep(ch, lk)\<close> holding \<open>lk\<close>, with the
  condition false; alone, the call ends with the process asleep on \<open>ch\<close> and \<open>lk\<close> released. Let any
  set of other CPUs acquire \<open>lk\<close>, make the condition true, call \<^verbatim>\<open>wakeup(ch)\<close> and release
  \<open>lk\<close>, and let the single actions of all these calls (each acquisition, each release, the loop of
  \<^verbatim>\<open>wakeup1\<close>, the switch) interleave in any order with each other and with anything else
  that does not put the process to sleep on \<open>ch\<close>, does not make the condition true and leaves the
  two locks as it finds them. Whenever \<^verbatim>\<open>sleep\<close> has switched away and the condition is true, the
  process is not asleep on \<open>ch\<close>, or some CPU still has its \<^verbatim>\<open>wakeup1(ch)\<close> ahead.\<close>

theorem no_lost_wakeup:
  assumes "kinv k A" and "c < ncpu k" and "cproc (cpus k c) = p" and "p \<noteq> 0" and "ncli (cpus k c) = 1"
    and "lk \<noteq> 0" and "lk \<noteq> ptable_lock" and "locked (locks k lk)" and "lcpu (locks k lk) = Suc c"
  shows "(\<exists>k1. sleep c ch lk (RSleep lk) k = Inr k1 \<and> run_prog (sleep_prog c p ch lk (RSleep lk)) k = Inr k1 \<and>
      sleeper ch (procs k1 p) \<and> \<not> locked (locks k1 lk)) \<and>
    (\<forall>W b k' prog. (race p ch lk)\<^sup>*\<^sup>*
        ((False, k), \<lambda>d. if d = c then map on_kst (sleep_prog c p ch lk (RSleep lk)) else if d \<in> W then waker_prog ch lk d else [])
        ((b, k'), prog) \<longrightarrow>
      prog c = [] \<longrightarrow> b \<longrightarrow> sleeper ch (procs k' p) \<longrightarrow> (\<exists>d. d \<noteq> c \<and> on_kst (wakeup1 ch) \<in> set (prog d)))"
proof (intro conjI allI impI)
  have wf: "wf_mach k" using kinvD(1) [OF assms(1)] by (simp add: lock_free_def)
  from sleep_ok [OF assms(1-9), of ch] obtain k1 i where
    s: "sleep c ch lk (RSleep lk) k = Inr k1" "\<not> locked (locks k1 lk)"
    and P: "procs k1 = (procs k)(p := (procs k p)\<lparr>pchan := ch, state := SLEEPING, pcontext := InSched (RSleep lk) i\<rparr>)" by blast
  have "run_prog (sleep_prog c p ch lk (RSleep lk)) k = Inr k1" by (rule sleep_run [OF wf assms(2,3) _ s(1)]) (simp add: assms)
  then show "\<exists>k1. sleep c ch lk (RSleep lk) k = Inr k1 \<and> run_prog (sleep_prog c p ch lk (RSleep lk)) k = Inr k1 \<and>
      sleeper ch (procs k1 p) \<and> \<not> locked (locks k1 lk)" using s P by (intro exI [of _ k1]) (simp add: sleeper_def)
  fix W b k' prog
  assume "(race p ch lk)\<^sup>*\<^sup>*
      ((False, k), \<lambda>d. if d = c then map on_kst (sleep_prog c p ch lk (RSleep lk)) else if d \<in> W then waker_prog ch lk d else [])
      ((b, k'), prog)"
    and fin: "prog c = []" "b" "sleeper ch (procs k' p)"
  from race_reach [OF this(1) race_start [OF assms(7,8), of c p ch W, unfolded sleeper_prog_def] assms(7) kinv_slot(1) [OF assms(1-4)]]
  have "race_inv c p ch lk ((b, k'), prog)" .
  then show "\<exists>d. d \<noteq> c \<and> on_kst (wakeup1 ch) \<in> set (prog d)" using fin by (rule race_ahead)
qed

text \<open>In the example the process sleeps, and then CPU 1 runs the whole program of a waker.\<close>

theorem no_lost_wakeup_witness:
  "\<exists>k' prog. (race 2 (ObjChan 7) 2)\<^sup>*\<^sup>*
      ((False, taken 0 2 (ex_kst pq_ds)), \<lambda>d. if d = 0 then map on_kst (sleep_prog 0 2 (ObjChan 7) 2 (RSleep 2))
         else if d \<in> {1} then waker_prog (ObjChan 7) 2 d else []) ((True, k'), prog) \<and>
    (\<forall>d. prog d = []) \<and> \<not> sleeper (ObjChan 7) (procs k' 2)"
proof -
  let ?k = "taken 0 2 (ex_kst pq_ds)" and ?ch = "ObjChan 7" and ?S = "map on_kst (sleep_prog 0 2 (ObjChan 7) 2 (RSleep 2))"
  let ?prog = "\<lambda>d. if d = 0 then ?S else if d \<in> {1} then waker_prog ?ch 2 d else []"
  have pre: "0 < ncpu ?k" "cproc (cpus ?k 0) = 2" "(2 :: nat) \<noteq> 0" "ncli (cpus ?k 0) = 1" "(2 :: nat) \<noteq> 0" "2 \<noteq> ptable_lock"
    "locked (locks ?k 2)" "lcpu (locks ?k 2) = Suc 0" by simp_all
  note L = no_lost_wakeup [OF locked_kinv pre, of ?ch]
  from L obtain k1 where k1: "run_prog (sleep_prog 0 2 ?ch 2 (RSleep 2)) ?k = Inr k1" "sleep 0 ?ch 2 (RSleep 2) ?k = Inr k1" by auto
  from sleep_ok [OF locked_kinv, of 0 2 2 ?ch] k1(2) obtain A1 where i1: "kinv k1 A1" "\<not> locked (locks k1 2)" by auto
  have r1: "(race 2 ?ch 2)\<^sup>*\<^sup>* ((False, ?k), ?prog) ((False, k1), ?prog(0 := []))"
    by (rule race_run [OF run_on_kst [OF k1(1)]]) simp
  have "ncpu k1 = 2" using kept_run_sleep [OF k1(1)] by (simp add: kept_def)
  then obtain k2 where k2: "run_prog (waker_prog ?ch 2 1) (False, k1) = Inr (True, k2)"
    using waker_runs [OF i1(1), of 1 2 ?ch False] i1(2) by auto
  have "(race 2 ?ch 2)\<^sup>*\<^sup>* ((False, k1), ?prog(0 := [])) ((True, k2), (?prog(0 := []))(1 := []))"
    by (rule race_run [OF k2]) simp
  with r1 have r: "(race 2 ?ch 2)\<^sup>*\<^sup>* ((False, ?k), ?prog) ((True, k2), (?prog(0 := []))(1 := []))" by (rule rtranclp_trans)
  moreover have e: "\<forall>d. ((?prog(0 := []))(1 := [])) d = []" by simp
  moreover have "\<not> sleeper ?ch (procs k2 2)" using L [THEN conjunct2, rule_format, OF r] e by fastforce
  ultimately show ?thesis by blast
qed

text \<open>C16. \<^verbatim>\<open>wakeup\<close> makes exactly the processes asleep on the channel RUNNABLE; every
  other table entry is unchanged. It never panics.\<close>

theorem wakeup_exact:
  assumes "kinv k A" and "c < ncpu k"
  shows "\<exists>k' A'. wakeup ch c k = Inr k' \<and> kinv k' A' \<and>
    (\<forall>q \<in> set slots. if state (procs k q) = SLEEPING \<and> pchan (procs k q) = ch
       then state (procs k' q) = RUNNABLE \<and> pcontext (procs k' q) = pcontext (procs k q)
       else procs k' q = procs k q) \<and>
    (length (filter (\<lambda>q. sleeper ch (procs k q)) slots) \<le> a_free A \<longrightarrow>
      (\<forall>q \<in> set slots. sleeper ch (procs k q) \<longrightarrow> q \<in> snd ` set (a_pq A')))"
proof -
  from wakeup_ok [OF assms, of ch] obtain k' A' where
    w: "wakeup ch c k = Inr k'" "kinv k' A'" "woken ch slots (procs k) A (procs k') A'" by blast
  have "if state (procs k q) = SLEEPING \<and> pchan (procs k q) = ch
       then state (procs k' q) = RUNNABLE \<and> pcontext (procs k' q) = pcontext (procs k q)
       else procs k' q = procs k q" if "q \<in> set slots" for q
  proof -
    have "if q \<in> set slots \<and> sleeper ch (procs k q) then \<exists>a. procs k' q = (procs k q)\<lparr>state := RUNNABLE, accumulator := a\<rparr>
        else procs k' q = procs k q" using w(3) unfolding woken_def by blast
    then show ?thesis using that by (auto simp: sleeper_def split: if_splits)
  qed
  moreover have "length (filter (\<lambda>q. sleeper ch (procs k q)) slots) \<le> a_free A \<longrightarrow>
      {q \<in> set slots. sleeper ch (procs k q)} \<subseteq> snd ` set (a_pq A')" using w(3) unfolding woken_def by blast
  ultimately show ?thesis using w(1,2) by (intro exI [of _ k'] exI [of _ A']) blast
qed

theorem wakeup_exact_witness:
  "\<exists>k'. wakeup (ObjChan 7) 1 (ex_kst busy_ds) = Inr k' \<and> state (procs k' 4) = RUNNABLE \<and> procs k' 1 = procs (ex_kst busy_ds) 1"
proof -
  have "4 \<in> set slots" "1 \<in> set slots" by (simp_all add: set_slots)
  moreover from wakeup_exact [OF busy_kinv, of 1 "ObjChan 7"] obtain k' where
    k': "wakeup (ObjChan 7) 1 (ex_kst busy_ds) = Inr k'"
    "\<forall>q \<in> set slots. if state (ex_procs q) = SLEEPING \<and> pchan (ex_procs q) = ObjChan 7
       then state (procs k' q) = RUNNABLE \<and> pcontext (procs k' q) = pcontext (ex_procs q)
       else procs k' q = ex_procs q" by auto
  ultimately show ?thesis using k'(2) [rule_format, of 4] k'(2) [rule_format, of 1] by (intro exI [of _ k']) simp
qed

section \<open>Leaving and collecting\<close>

text \<open>C17. \<^verbatim>\<open>exit\<close> by any process but the first, given file-system operations that behave as
  \<open>file_call\<close> says: it fails only with the error of a \<^verbatim>\<open>fileclose\<close> or \<^verbatim>\<open>iput\<close>; otherwise
  \<^verbatim>\<open>fileclose\<close> was called for exactly the open files in the order of the table and then
  \<^verbatim>\<open>iput\<close> for the directory, the process is a zombie on no CPU with the status stored, no files
  and no directory, its children belong to the first process, a parent asleep in \<^verbatim>\<open>wait\<close> is
  RUNNABLE, and so is the first process asleep in \<^verbatim>\<open>wait\<close> when one of the children is dead.\<close>

theorem exit_hands_over:
  assumes "runs_on cp c k A" and "cp \<noteq> 0" and "cp \<noteq> initproc k"
    and "file_call cp fileclose closes" and "file_call cp iput puts"
  shows "exit_outcome fileclose iput closes puts st cp k (exit fileclose iput st c k)"
  by (rule exit_ok [OF assms])

text \<open>
  In the example two files are open; closing a file wakes the sleepers on a channel, and the file
  system records the calls.
\<close>

definition ex_close :: "nat list file_op" where
  "ex_close f c k = kbind (wakeup (ObjChan 7) c k) (\<lambda>k. Inr (c, k\<lparr>fsst := f # fsst k\<rparr>))"

definition ex_put :: "nat list file_op" where
  "ex_put i c k = Inr (c, k\<lparr>fsst := i # fsst k\<rparr>)"

definition ex_leaving :: "nat list kst" where
  "ex_leaving = set_proc 2 (\<lambda>x. x\<lparr>ofile := (\<lambda>_. 0)(1 := 9, 3 := 8), cwd := 4\<rparr>) (ex_kfs [] busy_ds)"

lemma runs_on_fsst: "runs_on p c k A \<Longrightarrow> runs_on p c (k\<lparr>fsst := fs\<rparr>) A"
  using kinv_km(2) [of k A fs] by (simp add: runs_on_def)

lemma ex_close_call:
  assumes "runs_on 2 c k A"
  shows "\<exists>k' A'. ex_close f c k = Inr (c, k') \<and> runs_on 2 c k' A' \<and> same_files 2 k k' \<and>
    ofile (procs k' 2) = ofile (procs k 2) \<and> fsst k' = f # fsst k"
proof -
  from wakeup_runs_on [OF assms, of "ObjChan 7"] obtain k1 A1 where
    w: "wakeup (ObjChan 7) c k = Inr k1" "runs_on 2 c k1 A1" "same_files 2 k k1" "ofile (procs k1 2) = ofile (procs k 2)" "fsst k1 = fsst k" by auto
  then show ?thesis using runs_on_fsst [OF w(2), of "f # fsst k"]
    by (intro exI [of _ "k1\<lparr>fsst := f # fsst k\<rparr>"] exI [of _ A1]) (simp add: ex_close_def same_files_def)
qed

lemma ex_close_file_call: "file_call 2 ex_close (\<lambda>f s t. t = f # s)"
  unfolding file_call_def
proof (intro allI impI)
  fix x c k A c' k'
  assume r: "runs_on 2 c k A" and e: "ex_close x c k = Inr (c', k')"
  from ex_close_call [OF r, of x] e
  show "(\<exists>A'. runs_on 2 c' k' A') \<and> same_files 2 k k' \<and> ofile (procs k' 2) = ofile (procs k 2) \<and> fsst k' = x # fsst k" by auto
qed

lemma ex_put_file_call: "file_call 2 ex_put (\<lambda>f s t. t = f # s)"
  unfolding file_call_def using runs_on_fsst by (fastforce simp: ex_put_def same_files_def)

lemma ex_leaving_runs: "runs_on 2 0 ex_leaving \<lparr>a_pq = [(5, 3)], a_rr = [1], a_rp = [2], a_free = 1\<rparr>"
  unfolding ex_leaving_def
proof (rule runs_on_private)
  show "runs_on 2 0 (ex_kfs [] busy_ds) \<lparr>a_pq = [(5, 3)], a_rr = [1], a_rp = [2], a_free = 1\<rparr>"
    using ex_kinv [OF busy_ds_rep] by (simp add: runs_on_def set_slots)
qed (simp add: private_change_def)

theorem exit_hands_over_witness:
  "\<exists>k'. exit ex_close ex_put 3 0 ex_leaving = Inr k' \<and> fsst k' = [4, 8, 9] \<and> state (procs k' 2) = ZOMBIE \<and> status (procs k' 2) = 3 \<and>
    parent (procs k' 4) = 1"
proof -
  have m: "4 \<in> set slots" by (simp add: set_slots)
  have of: "open_files (procs ex_leaving 2) [0..<NOFILE] = [9, 8]"
    by (simp add: ex_leaving_def open_files_def upt_rec)
  have x: "cwd (procs ex_leaving 2) = 4" "fsst ex_leaving = []" "initproc ex_leaving = 1" "parent (procs ex_leaving 4) = 2"
    by (simp_all add: ex_leaving_def)
  have o: "exit_outcome ex_close ex_put (\<lambda>f s t. t = f # s) (\<lambda>f s t. t = f # s) 3 2 ex_leaving (exit ex_close ex_put 3 0 ex_leaving)"
    by (rule exit_hands_over [OF ex_leaving_runs _ _ ex_close_file_call ex_put_file_call]) (simp_all add: x)
  show ?thesis
  proof (cases "exit ex_close ex_put 3 0 ex_leaving")
    case (Inl e)
    with o obtain y c' k' A' where y: "runs_on 2 c' k' A'" "ex_close y c' k' = Inl e \<or> ex_put y c' k' = Inl e"
      unfolding exit_outcome_def by auto
    then show ?thesis using ex_close_call [OF y(1), of y] by (auto simp: ex_put_def)
  next
    case (Inr k')
    then show ?thesis using o [unfolded exit_outcome_def of x] m by (intro exI [of _ k']) (auto simp: x)
  qed
qed

text \<open>C18. \<^verbatim>\<open>wait\<close> by a running process. If a child is dead, the first one in the order of the
  table is collected: its kernel stack and its address space are freed (the memory afterwards is
  exactly what \<^verbatim>\<open>kfree\<close> and \<^verbatim>\<open>freevm\<close> leave, and an error of theirs is the error of
  the call), its entry is cleared, no other entry changes, and the call returns its pid and, if
  asked, its status. With no dead child and no child at all, or when the process is killed, it
  returns -1 and changes nothing; else the process sleeps on its own entry. No other failure is
  possible.\<close>

theorem wait_collects:
  assumes "kinv k A" and "c < ncpu k" and "cproc (cpus k c) = cp" and "cp \<noteq> 0" and "ncli (cpus k c) = 0"
  shows "wait_outcome kend want c cp (procs k) (km k) A (wait kend want c k)"
  by (rule wait_ok [OF assms])

lemma ex_reapable:
  "\<exists>m. kbind (kfree 0x80400000 (kstack (ex_procs 5)) (km (ex_kst d))) (freevm 0x80400000 (pgdir (ex_procs 5))) = Inr m"
proof -
  have p: "page_ok 0x80400000 0x80600000" "page_ok 0x80400000 0x80500000" by (simp_all add: page_ok_def V2P_def)
  then obtain m where m: "kfree 0x80400000 0x80600000 two_pages = Inr m" using kfree_accepts by blast
  have "\<not> present (pde_of 0x80500000 i m)" if "i < 1024" for i
  proof -
    have u: "unat (0x80500000 + 4 * of_nat i :: addr) = 0x80500000 + 4 * i" using unat_slot [of "0x80500000" i] that by simp
    then have "\<not> (0x80500000 + 4 * of_nat i :: addr) - 0x80600000 < PGSIZE"
      using unat_sub_if' [of "0x80500000 + 4 * of_nat i" "0x80600000 :: addr"] that by (simp add: word_less_nat_alt)
    moreover have "(0x80500000 + 4 * of_nat i :: addr) \<noteq> 0x80400000" using u by (auto simp: word_unat_eq_iff)
    ultimately show ?thesis using kfree_frame [OF m] by (simp add: pde_of_def two_pages_def present_def)
  qed
  with freevm_empty [OF _ p(2)] m show ?thesis
    by (auto simp: ex_kfs_def ex_procs_def ex_proc_def)
qed

theorem wait_collects_witness:
  "\<exists>k'. wait 0x80400000 True 0 (ex_kst busy_ds) = Inr (Some (5, Some 42), k') \<and> procs k' = ex_procs(5 := reaped (ex_procs 5))"
proof -
  have f: "find (\<lambda>q. parent (ex_procs q) = 2 \<and> state (ex_procs q) = ZOMBIE) slots = Some 5"
    by (rule ex_find) (auto simp: set_slots)
  from ex_reapable [of busy_ds] obtain m where
    "kbind (kfree 0x80400000 (kstack (ex_procs 5)) (km (ex_kst busy_ds))) (freevm 0x80400000 (pgdir (ex_procs 5))) = Inr m" by blast
  then show ?thesis using wait_collects [OF busy_kinv, of 0 2 "0x80400000" True] f by (auto simp: wait_outcome_def)
qed

section \<open>\<^verbatim>\<open>kill\<close> and \<^verbatim>\<open>detach\<close>\<close>

text \<open>C19. \<^verbatim>\<open>kill\<close> marks the first slot with the pid, wakes it if it sleeps (and queues it
  when a link is free), changes no other entry and returns 0; for an unknown pid it
  returns -1 and changes nothing. It never panics.\<close>

theorem kill_exact:
  assumes "kinv k A" and "c < ncpu k"
  shows "case find (\<lambda>p. pid (procs k p) = n) slots of
      None \<Rightarrow> \<exists>k'. kill n c k = Inr (- 1, k') \<and> kinv k' A \<and> procs k' = procs k
    | Some p \<Rightarrow> \<exists>k' A'. kill n c k = Inr (0, k') \<and> kinv k' A' \<and> kill_effect p (procs k) (procs k') \<and>
        (state (procs k p) = SLEEPING \<longrightarrow> 0 < a_free A \<longrightarrow> p \<in> snd ` set (a_pq A'))"
  using kill_absent [OF assms, of n] kill_present [OF assms, of n] by (auto simp: find_None_iff split: option.splits)

theorem kill_exact_witness:
  "\<exists>k' A'. kill 4 1 (ex_kst busy_ds) = Inr (0, k') \<and> kinv k' A' \<and> killed (procs k' 4) \<and> state (procs k' 4) = RUNNABLE \<and>
    4 \<in> snd ` set (a_pq A')"
proof -
  have "find (\<lambda>p. pid (procs (ex_kst busy_ds) p) = 4) slots = Some 4" by (rule ex_find) (auto simp: set_slots)
  then show ?thesis using kill_exact [OF busy_kinv, of 1 4] by (fastforce simp: kill_effect_def)
qed

text \<open>C20. \<^verbatim>\<open>kill(0)\<close> finds an unused slot, whose pid is 0: it returns success and marks the
  slot, and the process that is next created there is born killed.\<close>

theorem kill_zero_hits_unused:
  assumes "kinv k A" and "c < ncpu k" and "find (\<lambda>p. pid (procs k p) = 0) slots = Some p" and "state (procs k p) = UNUSED"
  shows "\<exists>k1 A1. kill 0 c k = Inr (0, k1) \<and> kinv k1 A1 \<and> procs k1 = (procs k)(p := (procs k p)\<lparr>killed := True\<rparr>) \<and>
    (\<forall>c' k2. c' < ncpu k1 \<longrightarrow> allocproc c' k1 = Inr (p, k2) \<longrightarrow> killed (procs k2 p) \<and> state (procs k2 p) = EMBRYO)"
proof -
  from kill_present [OF assms(1-3)] obtain k1 A1 where
    k1: "kill 0 c k = Inr (0, k1)" "kinv k1 A1" "kill_effect p (procs k) (procs k1)" by blast
  then have P: "procs k1 = (procs k)(p := (procs k p)\<lparr>killed := True\<rparr>)" using assms(4) by (simp add: kill_effect_def)
  have "p \<noteq> 0" by (rule slots_nonnull [OF find_slot(1) [OF assms(3)]])
  then have "killed (procs k2 p) \<and> state (procs k2 p) = EMBRYO" if "c' < ncpu k1" "allocproc c' k1 = Inr (p, k2)" for c' k2
    using allocproc_ok [OF k1(2) that(1)] that(2) P by auto
  then show ?thesis using k1 P by (intro exI [of _ k1] exI [of _ A1]) simp
qed

theorem kill_zero_hits_unused_witness:
  "\<exists>k1. kill 0 1 (ex_kst busy_ds) = Inr (0, k1) \<and> killed (procs k1 7) \<and> state (procs k1 7) = UNUSED"
proof -
  have "find (\<lambda>p. pid (procs (ex_kst busy_ds) p) = 0) slots = Some 7" by (rule ex_find) (auto simp: set_slots)
  then show ?thesis using kill_zero_hits_unused [OF busy_kinv, of 1 7] by auto
qed

text \<open>C21. \<^verbatim>\<open>detach\<close> of a child that is already a zombie hands it to \<^verbatim>\<open>init\<close> but changes
  the state of no process: \<^verbatim>\<open>init\<close>, asleep in \<^verbatim>\<open>wait\<close>, is not woken to collect it.\<close>

theorem detach_zombie_not_collected:
  assumes "kinv k A" and "c < ncpu k" and "cproc (cpus k c) = cp"
    and "find (\<lambda>p. pid (procs k p) = n \<and> parent (procs k p) = cp) slots = Some p" and "state (procs k p) = ZOMBIE"
  shows "\<exists>k'. detach n c k = Inr (0, k') \<and> kinv k' A \<and> parent (procs k' p) = initproc k \<and>
    (\<forall>q. state (procs k' q) = state (procs k q))"
  using detach_ok [OF assms(1-3), of n] assms(4,5) by auto

theorem detach_zombie_not_collected_witness:
  "\<exists>k'. detach 5 0 (ex_kst busy_ds) = Inr (0, k') \<and> parent (procs k' 5) = 1 \<and> state (procs k' 5) = ZOMBIE \<and> state (procs k' 1) = SLEEPING"
proof -
  have "find (\<lambda>p. pid (procs (ex_kst busy_ds) p) = 5 \<and> parent (procs (ex_kst busy_ds) p) = 2) slots = Some 5"
    by (rule ex_find) (auto simp: set_slots)
  then show ?thesis using detach_zombie_not_collected [OF busy_kinv, of 0 2 5 5] by auto
qed

section \<open>Locks and pages\<close>

text \<open>C22. A spin lock excludes: once a CPU has acquired it, a second \<^verbatim>\<open>acquire\<close> by the same
  CPU panics, one by another CPU spins, and a \<^verbatim>\<open>release\<close> by another CPU panics.\<close>

theorem lock_excludes:
  assumes "wf_mach m" and "c < ncpu m" and "c' < ncpu m" and "acquire c l m = Inr m'"
  shows "acquire c' l m' = Inl (if c' = c then Panic ''acquire'' else Spin) \<and>
    (c' \<noteq> c \<longrightarrow> release c' l m' = Inl (Panic ''release''))"
  using acquire_excludes [OF assms] release_only_by_holder [OF assms] by blast

theorem lock_excludes_witness:
  "acquire 1 2 (taken 0 2 (ex_kst busy_ds)) = Inl Spin \<and> release 1 2 (taken 0 2 (ex_kst busy_ds)) = Inl (Panic ''release'')"
proof -
  have "acquire 0 2 (ex_kst busy_ds) = Inr (taken 0 2 (ex_kst busy_ds))" using acquire_cases [OF ex_wf, of 0] by simp
  then show ?thesis using lock_excludes [OF ex_wf [of "()" busy_ds], of 0 1 2] by simp
qed

text \<open>Acquiring a free lock and releasing it restores the lock, the nesting depth and the
  interrupt flag of the CPU.\<close>

theorem lock_roundtrip:
  assumes "wf_mach m" and "c < ncpu m" and "\<not> locked (locks m l)"
  shows "\<exists>m1 m2. acquire c l m = Inr m1 \<and> release c l m1 = Inr m2 \<and> \<not> locked (locks m2 l) \<and> \<not> eflags_IF (cpus m1 c) \<and>
    (\<forall>i. ncli (cpus m2 i) = ncli (cpus m i) \<and> eflags_IF (cpus m2 i) = eflags_IF (cpus m i)) \<and>
    (\<forall>l'. l' \<noteq> l \<longrightarrow> locks m2 l' = locks m l')"
proof -
  from acquire_release [OF assms] obtain m1 where
    a: "acquire c l m = Inr m1" "release c l m1 = Inr (set_lock l (\<lambda>x. x\<lparr>lcpu := 0\<rparr>) (noted c m))" by blast
  then have "m1 = taken c l m" using acquire_cases [OF assms(1,2), of l] assms(3) by simp
  then show ?thesis using a assms(3)
    by (intro exI [of _ m1] exI [of _ "set_lock l (\<lambda>x. x\<lparr>lcpu := 0\<rparr>) (noted c m)"]) simp
qed

theorem lock_roundtrip_witness:
  "\<exists>m1 m2. acquire 0 2 (ex_kst busy_ds) = Inr m1 \<and> release 0 2 m1 = Inr m2 \<and> \<not> locked (locks m2 2)"
  using lock_roundtrip [OF ex_wf [of "()" busy_ds], of 0 2] by auto

text \<open>C23. A page given to \<^verbatim>\<open>kfree\<close> is accepted exactly when it is aligned, above the kernel
  and below the top of memory; the next \<^verbatim>\<open>kalloc\<close> returns it and leaves the free list
  as it was.\<close>

theorem kfree_then_kalloc:
  assumes "free_pages kend s xs" and "v \<notin> set xs"
  shows "if page_ok kend v
    then \<exists>s' s''. kfree kend v s = Inr s' \<and> free_pages kend s' (v # xs) \<and> kalloc s' = (v, s'') \<and> free_pages kend s'' xs
    else kfree kend v s = Inl (Panic ''kfree'')"
proof (cases "page_ok kend v")
  case True
  from kfree_spec [OF assms(1) True assms(2)] obtain s' where "kfree kend v s = Inr s'" "free_pages kend s' (v # xs)" by blast
  with kalloc_kfree_roundtrip [OF assms(1) True assms(2)] True show ?thesis by auto
next
  case False
  then obtain e where "kfree kend v s = Inl e" using kfree_accepts [of kend v s] by (cases "kfree kend v s") auto
  then show ?thesis using False by (auto simp: kfree_def Let_def split: if_splits)
qed

theorem kfree_then_kalloc_witness:
  "(\<exists>s' s''. kfree 0x80400000 0x80402000 two_pages = Inr s' \<and> kalloc s' = (0x80402000, s'')) \<and>
   kfree 0x80400000 0x80402001 two_pages = Inl (Panic ''kfree'')"
  using kfree_then_kalloc [OF two_pages_free, of "0x80402000"] kfree_then_kalloc [OF two_pages_free, of "0x80402001"]
  by (auto simp: page_ok_def V2P_def)

end
