(* ===== verification/Syscall.thy ===== *)
theory Syscall
  imports Proc
begin

unbundle bit_operations_syntax

text \<open>
  System calls (\<^verbatim>\<open>syscall.c\<close>, \<^verbatim>\<open>sysproc.c\<close>) and the trap handler
  (\<^verbatim>\<open>trap.c\<close>). The memory of the current process, seen through its page table, is the
  argument \<open>um\<close>; the counter \<^verbatim>\<open>ticks\<close> is passed along. The handlers of
  \<^verbatim>\<open>sysfile.c\<close>, the device interrupts and \<^verbatim>\<open>update_fields\<close> (declared in
  \<^verbatim>\<open>proc.h\<close> and defined nowhere) are fields of the environment, like the operations of the
  file system that \<^verbatim>\<open>fork\<close> and \<^verbatim>\<open>exit\<close> call.

  A handler returns its value and the word it stores into the memory of the process, if any;
  \<open>None\<close> means that the process left the CPU inside the call (it sleeps, or it exited).
\<close>

abbreviation tickslock :: lockp where "tickslock \<equiv> 3"
abbreviation ticks_chan :: chan where "ticks_chan \<equiv> ObjChan 0"

type_synonym umem = "addr \<Rightarrow> byte"
type_synonym sysret = "(int \<times> (addr \<times> int) option) option"

record 'f sysenv =
  e_kend :: addr
  e_kdata :: addr
  filedup :: "nat \<Rightarrow> 'f \<Rightarrow> (nat \<times> 'f) kres"
  idup :: "nat \<Rightarrow> 'f \<Rightarrow> (nat \<times> 'f) kres"
  fileclose :: "'f file_op"
  iput :: "'f file_op"
  sysfile :: "int \<Rightarrow> umem \<Rightarrow> nat \<Rightarrow> 'f kst \<Rightarrow> (sysret \<times> 'f kst) kres"
  update_fields :: "'f kst \<Rightarrow> 'f kst kres"
  ideintr :: "'f kst \<Rightarrow> 'f kst kres"
  kbdintr :: "'f kst \<Rightarrow> 'f kst kres"
  uartintr :: "'f kst \<Rightarrow> 'f kst kres"

section \<open>Arguments\<close>

lemma unat_add_small:
  fixes s :: u32
  assumes "unat s + j < 2 ^ 32"
  shows "unat (s + of_nat j) = unat s + j"
  using assms by (simp add: unat_word_ariths unat_of_nat)

lemma unat_Suc_small: "s < ep \<Longrightarrow> unat (s + 1) = Suc (unat s)" for s ep :: u32
  using unat_add_small [of s 1] unsigned_less [of ep, where 'a = nat] by (simp add: word_less_nat_alt)

definition get_u32 :: "umem \<Rightarrow> addr \<Rightarrow> u32" where
  "get_u32 um a = ucast (um a) OR push_bit 8 (ucast (um (a + 1))) OR push_bit 16 (ucast (um (a + 2))) OR push_bit 24 (ucast (um (a + 3)))"

definition fetchint :: "umem \<Rightarrow> addr \<Rightarrow> nat \<Rightarrow> 'f kst \<Rightarrow> (int option \<times> 'f kst) kres" where
  "fetchint um a c k =
     kbind (myproc c k) (\<lambda>(p, k).
       if sz (procs k p) \<le> a \<or> sz (procs k p) < a + 4 then Inr (None, k)
       else Inr (Some (sint (get_u32 um a)), k))"

text \<open>The loop of \<^verbatim>\<open>fetchstr\<close> from \<open>s\<close> to \<open>ep\<close>: the address of the first NUL.\<close>

function fetchstr_loop :: "umem \<Rightarrow> addr \<Rightarrow> addr \<Rightarrow> addr option" where
  "fetchstr_loop um s ep =
     (if s < ep then if um s = 0 then Some s else fetchstr_loop um (s + 1) ep else None)"
  by pat_completeness auto

termination
proof (relation "measure (\<lambda>(um, s, ep). unat ep - unat s)")
  fix um :: umem and s ep :: addr
  assume "s < ep"
  then have "unat s < unat ep" by (simp add: word_less_nat_alt)
  moreover have "unat (s + 1) = Suc (unat s)" by (rule unat_Suc_small [OF \<open>s < ep\<close>])
  ultimately show "((um, s + 1, ep), um, s, ep) \<in> measure (\<lambda>(um, s, ep). unat ep - unat s)" by simp
qed simp

declare fetchstr_loop.simps [simp del]

definition fetchstr :: "umem \<Rightarrow> addr \<Rightarrow> nat \<Rightarrow> 'f kst \<Rightarrow> ((addr \<times> int) option \<times> 'f kst) kres" where
  "fetchstr um a c k =
     kbind (myproc c k) (\<lambda>(p, k).
       if sz (procs k p) \<le> a then Inr (None, k)
       else Inr (map_option (\<lambda>s. (a, sint (s - a))) (fetchstr_loop um a (sz (procs k p))), k))"

definition argint :: "umem \<Rightarrow> int \<Rightarrow> nat \<Rightarrow> 'f kst \<Rightarrow> (int option \<times> 'f kst) kres" where
  "argint um n c k =
     kbind (myproc c k) (\<lambda>(p, k). fetchint um (tf_esp (tf (procs k p)) + 4 + 4 * of_int n) c k)"

definition argptr :: "umem \<Rightarrow> int \<Rightarrow> int \<Rightarrow> nat \<Rightarrow> 'f kst \<Rightarrow> (addr option \<times> 'f kst) kres" where
  "argptr um n dz c k =
     kbind (myproc c k) (\<lambda>(p, k).
     kbind (argint um n c k) (\<lambda>(i, k).
       case i of
         None \<Rightarrow> Inr (None, k)
       | Some i \<Rightarrow>
           if dz < 0 \<or> sz (procs k p) \<le> of_int i \<or> sz (procs k p) < of_int i + of_int dz then Inr (None, k)
           else Inr (Some (of_int i), k)))"

definition argstr :: "umem \<Rightarrow> int \<Rightarrow> nat \<Rightarrow> 'f kst \<Rightarrow> ((addr \<times> int) option \<times> 'f kst) kres" where
  "argstr um n c k =
     kbind (argint um n c k) (\<lambda>(i, k).
       case i of None \<Rightarrow> Inr (None, k) | Some i \<Rightarrow> fetchstr um (of_int i) c k)"

section \<open>Process system calls\<close>

definition sys_ret :: "int \<Rightarrow> 'f kst \<Rightarrow> (sysret \<times> 'f kst) kres" where
  "sys_ret v k = Inr (Some (v, None), k)"

text \<open>A call with one integer argument, which returns -1 when it cannot be read.\<close>

definition with_argint :: "umem \<Rightarrow> (int \<Rightarrow> nat \<Rightarrow> 'f kst \<Rightarrow> (sysret \<times> 'f kst) kres) \<Rightarrow> nat \<Rightarrow> 'f kst \<Rightarrow> (sysret \<times> 'f kst) kres" where
  "with_argint um f c k =
     kbind (argint um 0 c k) (\<lambda>(i, k). case i of None \<Rightarrow> sys_ret (- 1) k | Some i \<Rightarrow> f i c k)"

definition sys_fork :: "'f sysenv \<Rightarrow> nat \<Rightarrow> 'f kst \<Rightarrow> (sysret \<times> 'f kst) kres" where
  "sys_fork E c k = kbind (fork (filedup E) (idup E) (e_kend E) (e_kdata E) c k) (\<lambda>(r, k). sys_ret r k)"

definition sys_exit :: "'f sysenv \<Rightarrow> umem \<Rightarrow> nat \<Rightarrow> 'f kst \<Rightarrow> (sysret \<times> 'f kst) kres" where
  "sys_exit E um = with_argint um (\<lambda>st c k. kbind (exit (fileclose E) (iput E) st c k) (\<lambda>k. Inr (None, k)))"

definition sys_detach :: "umem \<Rightarrow> nat \<Rightarrow> 'f kst \<Rightarrow> (sysret \<times> 'f kst) kres" where
  "sys_detach um = with_argint um (\<lambda>n c k. kbind (detach n c k) (\<lambda>(r, k). sys_ret r k))"

definition sys_wait :: "'f sysenv \<Rightarrow> umem \<Rightarrow> nat \<Rightarrow> 'f kst \<Rightarrow> (sysret \<times> 'f kst) kres" where
  "sys_wait E um c k =
     kbind (argptr um 0 4 c k) (\<lambda>(a, k).
       case a of
         None \<Rightarrow> sys_ret (- 1) k
       | Some a \<Rightarrow> kbind (wait (e_kend E) (a \<noteq> 0) c k) (\<lambda>(r, k).
           Inr (map_option (\<lambda>(v, st). (v, map_option (\<lambda>s. (a, s)) st)) r, k)))"

definition sys_kill :: "umem \<Rightarrow> nat \<Rightarrow> 'f kst \<Rightarrow> (sysret \<times> 'f kst) kres" where
  "sys_kill um = with_argint um (\<lambda>n c k. kbind (kill n c k) (\<lambda>(r, k). sys_ret r k))"

definition sys_getpid :: "nat \<Rightarrow> 'f kst \<Rightarrow> (sysret \<times> 'f kst) kres" where
  "sys_getpid c k = kbind (myproc c k) (\<lambda>(p, k). sys_ret (pid (procs k p)) k)"

definition sys_sbrk :: "'f sysenv \<Rightarrow> umem \<Rightarrow> nat \<Rightarrow> 'f kst \<Rightarrow> (sysret \<times> 'f kst) kres" where
  "sys_sbrk E um = with_argint um (\<lambda>n c k.
     kbind (myproc c k) (\<lambda>(p, k).
     let a = sint (sz (procs k p))
     in kbind (growproc (e_kend E) n c k) (\<lambda>(ok, k). sys_ret (if ok then a else - 1) k)))"

text \<open>
  The loop of \<^verbatim>\<open>sys_sleep\<close> with \<^verbatim>\<open>tickslock\<close> held, run at first and each time
  \<^verbatim>\<open>sleep\<close> has returned. The comparison is unsigned.
\<close>

definition sleep_turn :: "u32 \<Rightarrow> u32 \<Rightarrow> int \<Rightarrow> nat \<Rightarrow> 'f kst \<Rightarrow> (sysret \<times> 'f kst) kres" where
  "sleep_turn ticks ticks0 n c k =
     (if ticks - ticks0 < of_int n
      then kbind (myproc c k) (\<lambda>(p, k).
           if killed (procs k p) then kbind (release c tickslock k) (sys_ret (- 1))
           else kbind (sleep c ticks_chan tickslock (RSleep tickslock) k) (\<lambda>k. Inr (None, k)))
      else kbind (release c tickslock k) (sys_ret 0))"

definition sys_sleep :: "umem \<Rightarrow> u32 \<Rightarrow> nat \<Rightarrow> 'f kst \<Rightarrow> (sysret \<times> 'f kst) kres" where
  "sys_sleep um ticks = with_argint um (\<lambda>n c k. kbind (acquire c tickslock k) (sleep_turn ticks ticks n c))"

definition sys_priority :: "umem \<Rightarrow> nat \<Rightarrow> 'f kst \<Rightarrow> (sysret \<times> 'f kst) kres" where
  "sys_priority um = with_argint um (\<lambda>n c k. kbind (set_priority n c k) (sys_ret 0))"

definition sys_uptime :: "u32 \<Rightarrow> nat \<Rightarrow> 'f kst \<Rightarrow> (sysret \<times> 'f kst) kres" where
  "sys_uptime ticks c k =
     kbind (acquire c tickslock k) (\<lambda>k. kbind (release c tickslock k) (sys_ret (sint ticks)))"

section \<open>Dispatch\<close>

definition syscalls :: "'f sysenv \<Rightarrow> umem \<Rightarrow> u32 \<Rightarrow> int \<Rightarrow> (nat \<Rightarrow> 'f kst \<Rightarrow> (sysret \<times> 'f kst) kres) option" where
  "syscalls E um ticks num =
     (if num = 1 then Some (sys_fork E)
      else if num = 2 then Some (sys_exit E um)
      else if num = 3 then Some (sys_wait E um)
      else if num = 6 then Some (sys_kill um)
      else if num = 11 then Some sys_getpid
      else if num = 12 then Some (sys_sbrk E um)
      else if num = 13 then Some (sys_sleep um ticks)
      else if num = 14 then Some (sys_uptime ticks)
      else if num = 22 then Some (sys_detach um)
      else if num = 23 then Some (sys_priority um)
      else if num \<in> {4, 5, 7, 8, 9, 10, 15, 16, 17, 18, 19, 20, 21} then Some (sysfile E num um)
      else None)"

definition set_eax :: "procp \<Rightarrow> int \<Rightarrow> 'f kst \<Rightarrow> 'f kst" where
  "set_eax p v = set_proc p (\<lambda>x. x\<lparr>tf := (tf x)\<lparr>tf_eax := of_int v\<rparr>\<rparr>)"

text \<open>\<^verbatim>\<open>syscall\<close>: \<open>None\<close> when the process left the CPU, else the word it stores.\<close>

definition syscall :: "'f sysenv \<Rightarrow> umem \<Rightarrow> u32 \<Rightarrow> nat \<Rightarrow> 'f kst \<Rightarrow> ((addr \<times> int) option option \<times> 'f kst) kres" where
  "syscall E um ticks c k =
     kbind (myproc c k) (\<lambda>(p, k).
       case syscalls E um ticks (sint (tf_eax (tf (procs k p)))) of
         Some h \<Rightarrow>
           kbind (h c k) (\<lambda>(r, k).
             case r of None \<Rightarrow> Inr (None, k) | Some (v, st) \<Rightarrow> Inr (Some st, set_eax p v k))
       | None \<Rightarrow> Inr (Some None, set_eax p (- 1) k))"

section \<open>Traps\<close>

abbreviation T_SYSCALL :: u32 where "T_SYSCALL \<equiv> 64"
abbreviation T_IRQ0 :: u32 where "T_IRQ0 \<equiv> 32"
abbreviation IRQ_TIMER :: u32 where "IRQ_TIMER \<equiv> 0"
abbreviation IRQ_KBD :: u32 where "IRQ_KBD \<equiv> 1"
abbreviation IRQ_COM1 :: u32 where "IRQ_COM1 \<equiv> 4"
abbreviation IRQ_IDE :: u32 where "IRQ_IDE \<equiv> 14"
abbreviation IRQ_SPURIOUS :: u32 where "IRQ_SPURIOUS \<equiv> 31"
abbreviation DPL_USER :: u32 where "DPL_USER \<equiv> 3"

text \<open>The clock interrupt on CPU 0.\<close>

definition timer_tick :: "'f sysenv \<Rightarrow> nat \<Rightarrow> u32 \<Rightarrow> 'f kst \<Rightarrow> (u32 \<times> 'f kst) kres" where
  "timer_tick E c ticks k =
     kbind (acquire c tickslock k) (\<lambda>k.
     kbind (update_fields E k) (\<lambda>k.
     kbind (wakeup ticks_chan c k) (\<lambda>k.
     kbind (release c tickslock k) (\<lambda>k. Inr (ticks + 1, k)))))"

text \<open>The switch of \<^verbatim>\<open>trap\<close>; acknowledging the interrupt and printing change no state.\<close>

definition trap_switch :: "'f sysenv \<Rightarrow> trapframe \<Rightarrow> nat \<Rightarrow> u32 \<Rightarrow> 'f kst \<Rightarrow> (u32 \<times> 'f kst) kres" where
  "trap_switch E t c ticks k =
     (let n = tf_trapno t; dev = (\<lambda>f. kbind (f k) (\<lambda>k. Inr (ticks, k)))
      in if n = T_IRQ0 + IRQ_TIMER
         then kbind (cpuid c k) (\<lambda>i. if i = 0 then timer_tick E c ticks k else Inr (ticks, k))
         else if n = T_IRQ0 + IRQ_IDE then dev (ideintr E)
         else if n = T_IRQ0 + IRQ_IDE + 1 then Inr (ticks, k)
         else if n = T_IRQ0 + IRQ_KBD then dev (kbdintr E)
         else if n = T_IRQ0 + IRQ_COM1 then dev (uartintr E)
         else if n = T_IRQ0 + 7 \<or> n = T_IRQ0 + IRQ_SPURIOUS then Inr (ticks, k)
         else kbind (myproc c k) (\<lambda>(p, k).
              if p = 0 \<or> tf_cs t AND 3 = 0 then Inl (Panic ''trap'')
              else Inr (ticks, set_proc p (\<lambda>x. x\<lparr>killed := True\<rparr>) k)))"

text \<open>\<^verbatim>\<open>exit(0)\<close> if the process has been killed and was in user space.\<close>

definition exit_if_killed :: "'f sysenv \<Rightarrow> bool \<Rightarrow> nat \<Rightarrow> 'f kst \<Rightarrow> (bool \<times> 'f kst) kres" where
  "exit_if_killed E user c k =
     kbind (myproc c k) (\<lambda>(p, k).
       if p \<noteq> 0 \<and> killed (procs k p) \<and> user
       then kbind (exit (fileclose E) (iput E) 0 c k) (\<lambda>k. Inr (True, k))
       else Inr (False, k))"

text \<open>
  \<^verbatim>\<open>trap\<close> up to where the process leaves the CPU; after \<^verbatim>\<open>yield\<close> it goes on with
  the last \<open>exit_if_killed\<close>. The result holds \<^verbatim>\<open>ticks\<close> and the word stored by a
  system call.
\<close>

definition trap_syscall :: "'f sysenv \<Rightarrow> umem \<Rightarrow> trapframe \<Rightarrow> nat \<Rightarrow> u32 \<Rightarrow> 'f kst \<Rightarrow> ((addr \<times> int) option \<times> 'f kst) kres" where
  "trap_syscall E um t c ticks k =
     kbind (myproc c k) (\<lambda>(p, k).
       if p = 0 then Inl Fault
       else kbind (exit_if_killed E True c k) (\<lambda>(gone, k).
            if gone then Inr (None, k)
            else kbind (syscall E um ticks c (set_proc p (\<lambda>x. x\<lparr>tf := t\<rparr>) k)) (\<lambda>(r, k).
                 case r of
                   None \<Rightarrow> Inr (None, k)
                 | Some st \<Rightarrow> kbind (exit_if_killed E True c k) (\<lambda>(gone, k). Inr (st, k)))))"

definition trap :: "'f sysenv \<Rightarrow> umem \<Rightarrow> trapframe \<Rightarrow> nat \<Rightarrow> u32 \<Rightarrow> 'f kst \<Rightarrow> (u32 \<times> (addr \<times> int) option \<times> 'f kst) kres" where
  "trap E um t c ticks k =
     (if tf_trapno t = T_SYSCALL
      then kbind (trap_syscall E um t c ticks k) (\<lambda>(st, k). Inr (ticks, st, k))
      else let user = (tf_cs t AND 3 = DPL_USER) in
        kbind (trap_switch E t c ticks k) (\<lambda>(ticks, k).
        kbind (exit_if_killed E user c k) (\<lambda>(gone, k).
          if gone then Inr (ticks, None, k)
          else kbind (myproc c k) (\<lambda>(p, k).
               if p \<noteq> 0 \<and> state (procs k p) = RUNNING \<and> tf_trapno t = T_IRQ0 + IRQ_TIMER
               then kbind (yield c k) (\<lambda>k. Inr (ticks, None, k))
               else kbind (exit_if_killed E user c k) (\<lambda>(gone, k). Inr (ticks, None, k))))))"

end
