(* ===== verification/SyscallProps.thy ===== *)
theory SyscallProps
  imports Syscall ProcEx
begin

text \<open>
  What the kernel accepts from a process: pointers and strings stay inside the memory of the
  process although the checks add 32-bit numbers, unknown calls and faults in user space harm only
  the process.
\<close>

section \<open>The current process\<close>

abbreviation cur :: "nat \<Rightarrow> 'f kst \<Rightarrow> proc" where "cur c k \<equiv> procs k (cproc (cpus k c))"

lemma noted_keeps [simp]: "procs (noted c k) = procs k" "cproc (cpus (noted c k) i) = cproc (cpus k i)" "ncpu (noted c k) = ncpu k"
  by (simp_all add: noted_def set_cpu_def)

lemma noted_noted [simp]: "noted c (noted c k) = noted c k"
  by (cases "cpus k c") (simp add: noted_def set_cpu_def)

lemma myproc_noted: "wf_mach k \<Longrightarrow> c < ncpu k \<Longrightarrow> myproc c (noted c k) = Inr (cproc (cpus k c), noted c k)"
  using myproc_eq [OF wf_noted, of k c c] by simp

section \<open>Arguments\<close>

text \<open>The words below \<open>s\<close> in the stack of a process whose size is \<open>s\<close>, in unbounded arithmetic.\<close>

abbreviation arg_addr :: "int \<Rightarrow> nat \<Rightarrow> 'f kst \<Rightarrow> addr" where
  "arg_addr n c k \<equiv> tf_esp (tf (cur c k)) + 4 + 4 * of_int n"

lemma range_check:
  fixes a s :: u32
  assumes "s \<le> KERNBASE" "j < 2 ^ 31"
  shows "\<not> (s \<le> a \<or> s < a + of_nat j) \<longleftrightarrow> unat a < unat s \<and> unat a + j \<le> unat s"
proof (cases "unat a < unat s")
  case True
  have "unat s \<le> 2 ^ 31" using assms(1) by (simp add: word_le_nat_alt)
  then have "unat (a + of_nat j) = unat a + j" using True assms(2) by (intro unat_add_small) simp
  then show ?thesis using True by (auto simp: word_le_nat_alt word_less_nat_alt)
qed (simp add: word_le_nat_alt)

lemma fetchint_eq:
  assumes "wf_mach k" "c < ncpu k" "sz (cur c k) \<le> KERNBASE"
  shows "fetchint um a c k = Inr (if unat a + 4 \<le> unat (sz (cur c k)) then Some (sint (get_u32 um a)) else None, noted c k)"
  unfolding fetchint_def myproc_eq [OF assms(1,2)] using range_check [OF assms(3), of 4 a] by auto

lemma argint_eq:
  assumes "wf_mach k" "c < ncpu k" "sz (cur c k) \<le> KERNBASE"
  shows "argint um n c k =
    Inr (if unat (arg_addr n c k) + 4 \<le> unat (sz (cur c k)) then Some (sint (get_u32 um (arg_addr n c k))) else None, noted c k)"
  unfolding argint_def myproc_eq [OF assms(1,2)] using fetchint_eq [OF wf_noted [OF assms(1,2)], of c um] assms by simp

text \<open>C36. \<^verbatim>\<open>argptr\<close> accepts a pointer exactly when the argument word lies inside the
  process and the \<open>dz\<close> bytes at the pointer do too, computed without wrap-around: for a process
  that stays below the kernel, the 32-bit additions in the checks cannot be made to overflow.\<close>

theorem argptr_exact:
  fixes um :: umem and k :: "'f kst" and n :: int
  assumes "wf_mach k" "c < ncpu k" "sz (cur c k) \<le> KERNBASE" "dz < 2 ^ 31"
  defines "w \<equiv> arg_addr n c k" and "s \<equiv> unat (sz (cur c k))"
  shows "argptr um n dz c k =
    Inr (if unat w + 4 \<le> s \<and> 0 \<le> dz \<and> unat (get_u32 um w) < s \<and> unat (get_u32 um w) + nat dz \<le> s
         then Some (get_u32 um w) else None, noted c k)"
proof -
  let ?a = "get_u32 um w"
  have "\<not> (sz (cur c k) \<le> ?a \<or> sz (cur c k) < ?a + of_int dz) \<longleftrightarrow> unat ?a < s \<and> unat ?a + nat dz \<le> s" if "0 \<le> dz"
    using range_check [OF assms(3), of "nat dz" ?a] assms(4) that unfolding s_def by simp
  moreover have "argint um n c (noted c k) = Inr (if unat w + 4 \<le> s then Some (sint ?a) else None, noted c k)"
    using argint_eq [OF wf_noted [OF assms(1,2)], of c um n] assms(2,3) unfolding w_def s_def by simp
  ultimately show ?thesis unfolding argptr_def myproc_eq [OF assms(1,2)] by (auto simp: s_def)
qed

text \<open>A process whose stack pointer is 0x100 and whose first argument is the pointer 0x2FFC.\<close>

definition ex_um :: umem where
  "ex_um = (\<lambda>_. 0)(0x104 := 0xFC, 0x105 := 0x2F)"

definition ex_call :: "unit kst" where
  "ex_call = set_proc 2 (\<lambda>x. x\<lparr>tf := (tf x)\<lparr>tf_esp := 0x100\<rparr>\<rparr>) (ex_kst busy_ds)"

lemma ex_call_simps [simp]: "ncpu ex_call = 2" "cproc (cpus ex_call 0) = 2" "sz (procs ex_call 2) = 0x3000" "tf_esp (tf (procs ex_call 2)) = 0x100"
  "state (procs ex_call 2) = RUNNING" "\<not> killed (procs ex_call 2)" "initproc ex_call = 1"
  by (simp_all add: ex_call_def set_proc_def ex_procs_def ex_proc_def)

lemma wf_ex_call: "wf_mach ex_call"
  using ex_wf [of "()" busy_ds] by (simp add: ex_call_def set_proc_def wf_mach_def)

theorem argptr_exact_witness:
  "argptr ex_um 0 4 0 ex_call = Inr (Some 0x2FFC, noted 0 ex_call) \<and> argptr ex_um 0 5 0 ex_call = Inr (None, noted 0 ex_call)"
proof -
  have "get_u32 ex_um 0x104 = 0x2FFC" by (simp add: get_u32_def ex_um_def)
  then show ?thesis using argptr_exact [OF wf_ex_call, of 0 4 ex_um 0] argptr_exact [OF wf_ex_call, of 0 5 ex_um 0] by simp
qed

section \<open>Strings\<close>

definition str_len :: "umem \<Rightarrow> addr \<Rightarrow> nat \<Rightarrow> nat \<Rightarrow> bool" where
  "str_len um a m n \<longleftrightarrow> n < m \<and> um (a + of_nat n) = 0 \<and> (\<forall>j < n. um (a + of_nat j) \<noteq> 0)"

lemma str_len_step: "um a \<noteq> 0 \<Longrightarrow> str_len um (a + 1) m n \<longleftrightarrow> str_len um a (Suc m) (Suc n)"
  unfolding str_len_def by (simp add: All_less_Suc2 add.assoc)

lemma fetchstr_loop_cases:
  "(fetchstr_loop um s ep = None \<and> (\<forall>n. \<not> str_len um s (unat ep - unat s) n)) \<or>
   (\<exists>n. fetchstr_loop um s ep = Some (s + of_nat n) \<and> str_len um s (unat ep - unat s) n)"
proof (induction um s ep rule: fetchstr_loop.induct)
  case (1 um s ep)
  show ?case
  proof (cases "s < ep \<and> um s \<noteq> 0")
    case False
    then show ?thesis by (subst (1 2) fetchstr_loop.simps) (auto simp: str_len_def word_less_nat_alt intro!: exI [of _ 0])
  next
    case True
    have m: "unat ep - unat s = Suc (unat ep - unat (s + 1))" using True unat_Suc_small [of s ep] by (auto simp: word_less_nat_alt)
    have z: "\<not> str_len um s (Suc m) 0" for m using True by (simp add: str_len_def)
    have e: "fetchstr_loop um s ep = fetchstr_loop um (s + 1) ep" using True by (subst fetchstr_loop.simps) simp
    have "(fetchstr_loop um (s + 1) ep = None \<and> (\<forall>n. \<not> str_len um (s + 1) (unat ep - unat (s + 1)) n)) \<or>
      (\<exists>n. fetchstr_loop um (s + 1) ep = Some (s + 1 + of_nat n) \<and> str_len um (s + 1) (unat ep - unat (s + 1)) n)"
      by (rule 1) (use True in simp_all)
    then show ?thesis
    proof (elim disjE exE conjE)
      assume a: "fetchstr_loop um (s + 1) ep = None" "\<forall>n. \<not> str_len um (s + 1) (unat ep - unat (s + 1)) n"
      then have "\<not> str_len um s (unat ep - unat s) n" for n using True z m by (cases n) (simp_all add: str_len_step)
      then show ?thesis using a e by simp
    next
      fix n
      assume a: "fetchstr_loop um (s + 1) ep = Some (s + 1 + of_nat n)" "str_len um (s + 1) (unat ep - unat (s + 1)) n"
      then have "str_len um s (unat ep - unat s) (Suc n)" using True m by (simp add: str_len_step)
      moreover have "fetchstr_loop um s ep = Some (s + of_nat (Suc n))" using a e by (simp add: add.assoc)
      ultimately show ?thesis by blast
    qed
  qed
qed

text \<open>C37. \<^verbatim>\<open>fetchstr\<close> ends and succeeds exactly when a NUL lies between the address and the
  end of the process; it then returns the address and the length up to the first NUL.\<close>

theorem fetchstr_exact:
  assumes "wf_mach k" "c < ncpu k" "sz (cur c k) \<le> KERNBASE"
  shows "\<exists>r. fetchstr um a c k = Inr (r, noted c k) \<and>
    (case r of None \<Rightarrow> \<forall>n. \<not> str_len um a (unat (sz (cur c k)) - unat a) n
     | Some (q, l) \<Rightarrow> q = a \<and> (\<exists>n. l = int n \<and> str_len um a (unat (sz (cur c k)) - unat a) n))"
proof (cases "sz (cur c k) \<le> a")
  case True
  then show ?thesis unfolding fetchstr_def myproc_eq [OF assms(1,2)] by (auto simp: str_len_def word_le_nat_alt)
next
  case False
  have f: "fetchstr um a c k = Inr (map_option (\<lambda>s. (a, sint (s - a))) (fetchstr_loop um a (sz (cur c k))), noted c k)"
    unfolding fetchstr_def myproc_eq [OF assms(1,2)] using False by simp
  have len: "sint (of_nat n :: u32) = int n" if "str_len um a (unat (sz (cur c k)) - unat a) n" for n
  proof -
    have "n < unat (sz (cur c k))" using that unfolding str_len_def by linarith
    then have "n < 2 ^ 31" using assms(3) by (simp add: word_le_nat_alt)
    then show ?thesis by (simp add: signed_of_nat signed_take_bit_int_eq_self)
  qed
  from fetchstr_loop_cases [of um a "sz (cur c k)"] show ?thesis unfolding f by (auto simp: len)
qed

theorem fetchstr_exact_witness:
  "\<exists>r. fetchstr ex_um 0x104 0 ex_call = Inr (r, noted 0 ex_call) \<and>
    (case r of None \<Rightarrow> False | Some (q, l) \<Rightarrow> q = 0x104 \<and> l = 2)"
proof -
  have s: "str_len ex_um 0x104 m n \<longleftrightarrow> n = 2 \<and> 2 < m" for m n
  proof -
    have v: "ex_um 0x104 \<noteq> 0" "ex_um (0x104 + 1) \<noteq> 0" "ex_um (0x104 + 2) = 0" by (simp_all add: ex_um_def)
    have "n \<noteq> 0" "n \<noteq> 1" "\<not> 2 < n" if l: "str_len ex_um 0x104 m n"
      by (rule notI, use l v in \<open>force simp: str_len_def\<close>)+
    moreover have "str_len ex_um 0x104 m 2 \<longleftrightarrow> 2 < m" using v by (auto simp: str_len_def less_2_cases_iff)
    ultimately show ?thesis by (metis One_nat_def less_2_cases linorder_neqE_nat)
  qed
  show ?thesis using fetchstr_exact [OF wf_ex_call, of 0 ex_um "0x104"] by (auto simp: s split: option.splits)
qed

section \<open>Unknown calls and faults\<close>

lemma syscall_unknown:
  assumes "wf_mach k" "c < ncpu k" "syscalls E um ticks (sint (tf_eax (tf (cur c k)))) = None"
  shows "syscall E um ticks c k = Inr (Some None, set_eax (cproc (cpus k c)) (- 1) (noted c k))"
  unfolding syscall_def myproc_eq [OF assms(1,2)] using assms(3) by simp

lemma syscalls_known: "syscalls E um ticks n \<noteq> None \<longleftrightarrow> 1 \<le> n \<and> n \<le> 23"
proof -
  have "1 \<le> n \<and> n \<le> 23 \<longleftrightarrow> n \<in> set [1..23]" by simp
  also have "\<dots> \<longleftrightarrow> syscalls E um ticks n \<noteq> None" unfolding syscalls_def by (simp add: upto.simps)
  finally show ?thesis ..
qed

definition is_irq :: "u32 \<Rightarrow> bool" where
  "is_irq n \<longleftrightarrow> n \<in> {T_IRQ0 + IRQ_TIMER, T_IRQ0 + IRQ_IDE, T_IRQ0 + IRQ_IDE + 1, T_IRQ0 + IRQ_KBD, T_IRQ0 + IRQ_COM1, T_IRQ0 + 7, T_IRQ0 + IRQ_SPURIOUS}"

lemma trap_switch_fault:
  assumes "wf_mach k" "c < ncpu k" "\<not> is_irq (tf_trapno t)"
  shows "trap_switch E t c ticks k =
    (if cproc (cpus k c) = 0 \<or> tf_cs t AND 3 = 0 then Inl (Panic ''trap'')
     else Inr (ticks, set_proc (cproc (cpus k c)) (\<lambda>x. x\<lparr>killed := True\<rparr>) (noted c k)))"
proof -
  have n: "tf_trapno t \<noteq> T_IRQ0 + IRQ_TIMER" "tf_trapno t \<noteq> T_IRQ0 + IRQ_IDE" "tf_trapno t \<noteq> T_IRQ0 + IRQ_IDE + 1" "tf_trapno t \<noteq> T_IRQ0 + IRQ_KBD"
    "tf_trapno t \<noteq> T_IRQ0 + IRQ_COM1" "\<not> (tf_trapno t = T_IRQ0 + 7 \<or> tf_trapno t = T_IRQ0 + IRQ_SPURIOUS)"
    using assms(3) unfolding is_irq_def by blast+
  show ?thesis unfolding trap_switch_def Let_def if_not_P [OF n(1)] if_not_P [OF n(2)] if_not_P [OF n(3)] if_not_P [OF n(4)] if_not_P [OF n(5)] if_not_P [OF n(6)]
    myproc_eq [OF assms(1,2)] kbind_simps prod.case ..
qed

lemma exit_if_killed_marked:
  assumes "wf_mach k" "c < ncpu k" "cproc (cpus k c) = p" "p \<noteq> 0" "killed (procs k p)"
  shows "exit_if_killed E True c k = kbind (exit (fileclose E) (iput E) 0 c (noted c k)) (\<lambda>k. Inr (True, k))"
  unfolding exit_if_killed_def myproc_eq [OF assms(1,2)] using assms(3-5) by simp

lemma marked:
  fixes k :: "'f kst" and p :: procp
  assumes "wf_mach k" "c < ncpu k"
  defines "k' \<equiv> set_proc p (\<lambda>x. x\<lparr>killed := True\<rparr>) (noted c k)"
  shows "wf_mach k'" "ncpu k' = ncpu k" "cproc (cpus k' c) = cproc (cpus k c)" "killed (procs k' p)" "noted c k' = k'"
  using wf_noted [OF assms(1,2)] by (simp_all add: k'_def set_proc_def noted_def set_cpu_def wf_mach_def)

text \<open>C38. A processor exception never passes unnoticed: in user space it kills the process,
  which exits at once with status 0; in the kernel, or with no process, it panics.\<close>

theorem fault_kills_or_panics:
  assumes "wf_mach k" "c < ncpu k" "tf_trapno t \<noteq> T_SYSCALL" "\<not> is_irq (tf_trapno t)"
  defines "p \<equiv> cproc (cpus k c)"
  shows "(p = 0 \<or> tf_cs t AND 3 = 0 \<longrightarrow> trap E um t c ticks k = Inl (Panic ''trap'')) \<and>
    (p \<noteq> 0 \<and> tf_cs t AND 3 = DPL_USER \<longrightarrow> trap E um t c ticks k =
      kbind (exit (fileclose E) (iput E) 0 c (set_proc p (\<lambda>x. x\<lparr>killed := True\<rparr>) (noted c k))) (\<lambda>k. Inr (ticks, None, k)))"
proof (intro conjI impI)
  note s = trap_switch_fault [OF assms(1,2,4), folded p_def]
  show "trap E um t c ticks k = Inl (Panic ''trap'')" if "p = 0 \<or> tf_cs t AND 3 = 0"
    unfolding trap_def Let_def if_not_P [OF assms(3)] s if_P [OF that] by simp
  let ?k = "set_proc p (\<lambda>x. x\<lparr>killed := True\<rparr>) (noted c k)"
  assume u: "p \<noteq> 0 \<and> tf_cs t AND 3 = DPL_USER"
  then have "\<not> (p = 0 \<or> tf_cs t AND 3 = 0)" by simp
  then have s': "trap_switch E t c ticks k = Inr (ticks, ?k)" using s by simp
  have "exit_if_killed E True c ?k = kbind (exit (fileclose E) (iput E) 0 c ?k) (\<lambda>k. Inr (True, k))"
    using exit_if_killed_marked [of ?k c p E] marked [OF assms(1,2), of p] u assms(2) unfolding p_def by simp
  then show "trap E um t c ticks k = kbind (exit (fileclose E) (iput E) 0 c ?k) (\<lambda>k. Inr (ticks, None, k))"
    unfolding trap_def Let_def if_not_P [OF assms(3)] s' kbind_simps prod.case
    using u by (cases "exit (fileclose E) (iput E) 0 c ?k") simp_all
qed

definition ex_env :: "unit sysenv" where
  "ex_env = \<lparr>e_kend = 0x80110000, e_kdata = 0x80108000, filedup = (\<lambda>f s. Inr (f, s)), idup = (\<lambda>i s. Inr (i, s)),
     fileclose = (\<lambda>f c k. Inr (c, k)), iput = (\<lambda>i c k. Inr (c, k)), sysfile = (\<lambda>n um c k. Inr (Some (- 1, None), k)),
     update_fields = Inr, ideintr = Inr, kbdintr = Inr, uartintr = Inr\<rparr>"

theorem fault_kills_or_panics_witness:
  "trap ex_env ex_um (initial_tf\<lparr>tf_trapno := 14, tf_cs := 3\<rparr>) 0 7 ex_call =
      kbind (exit (fileclose ex_env) (iput ex_env) 0 0 (set_proc 2 (\<lambda>x. x\<lparr>killed := True\<rparr>) (noted 0 ex_call))) (\<lambda>k. Inr (7, None, k)) \<and>
    trap ex_env ex_um (initial_tf\<lparr>tf_trapno := 14, tf_cs := 8\<rparr>) 0 7 ex_call = Inl (Panic ''trap'')"
  using fault_kills_or_panics [OF wf_ex_call, of 0 "initial_tf\<lparr>tf_trapno := 14, tf_cs := 3\<rparr>" ex_env ex_um 7]
    fault_kills_or_panics [OF wf_ex_call, of 0 "initial_tf\<lparr>tf_trapno := 14, tf_cs := 8\<rparr>" ex_env ex_um 7]
  by (simp add: is_irq_def)

end
