(* ===== verification/Kstring.thy ===== *)
theory Kstring
  imports Kprelude
begin

text \<open>
  The string functions of the kernel (\<^verbatim>\<open>string.c\<close>) and of the user library
  (\<^verbatim>\<open>ulib.c\<close>) on byte memory: a map from 32-bit addresses to bytes, with pointer
  arithmetic that wraps. Loops up to a NUL byte are partial functions, since they need
  not end; loops that count down \<open>n\<close> recurse on \<open>unat n\<close> (or on the nat of a
  C int, where a negative count runs zero times).
\<close>

unbundle bit_operations_syntax

type_synonym bmem = "addr \<Rightarrow> byte"

section \<open>Filling, copying and comparing\<close>

text \<open>\<^verbatim>\<open>stosb\<close> and \<^verbatim>\<open>stosl\<close>; the latter stores the bytes of a word, least first.\<close>

fun stosb :: "addr \<Rightarrow> byte \<Rightarrow> nat \<Rightarrow> bmem \<Rightarrow> bmem" where
  "stosb a c 0 m = m"
| "stosb a c (Suc n) m = stosb (a + 1) c n (m(a := c))"

definition store_word :: "addr \<Rightarrow> u32 \<Rightarrow> bmem \<Rightarrow> bmem" where
  "store_word a w m = m(a := ucast w, a + 1 := ucast (drop_bit 8 w), a + 2 := ucast (drop_bit 16 w),
     a + 3 := ucast (drop_bit 24 w))"

fun stosl :: "addr \<Rightarrow> u32 \<Rightarrow> nat \<Rightarrow> bmem \<Rightarrow> bmem" where
  "stosl a w 0 m = m"
| "stosl a w (Suc n) m = stosl (a + 4) w n (store_word a w m)"

definition memset :: "addr \<Rightarrow> u32 \<Rightarrow> u32 \<Rightarrow> bmem \<Rightarrow> bmem" where
  "memset dst c n m =
     (if sint dst mod 4 = 0 \<and> n mod 4 = 0
      then let c = c AND 0xFF
           in stosl dst (push_bit 24 c OR push_bit 16 c OR push_bit 8 c OR c) (unat (n div 4)) m
      else stosb dst (ucast c) (unat n) m)"

fun memcmp_loop :: "addr \<Rightarrow> addr \<Rightarrow> nat \<Rightarrow> bmem \<Rightarrow> int" where
  "memcmp_loop s1 s2 0 m = 0"
| "memcmp_loop s1 s2 (Suc n) m =
     (if m s1 \<noteq> m s2 then uint (m s1) - uint (m s2) else memcmp_loop (s1 + 1) (s2 + 1) n m)"

definition memcmp :: "addr \<Rightarrow> addr \<Rightarrow> u32 \<Rightarrow> bmem \<Rightarrow> int" where
  "memcmp v1 v2 n m = memcmp_loop v1 v2 (unat n) m"

fun copy_up :: "addr \<Rightarrow> addr \<Rightarrow> nat \<Rightarrow> bmem \<Rightarrow> bmem" where
  "copy_up d s 0 m = m"
| "copy_up d s (Suc n) m = copy_up (d + 1) (s + 1) n (m(d := m s))"

fun copy_down :: "addr \<Rightarrow> addr \<Rightarrow> nat \<Rightarrow> bmem \<Rightarrow> bmem" where
  "copy_down d s 0 m = m"
| "copy_down d s (Suc n) m = copy_down (d - 1) (s - 1) n (m(d - 1 := m (s - 1)))"

definition memmove :: "addr \<Rightarrow> addr \<Rightarrow> u32 \<Rightarrow> bmem \<Rightarrow> bmem" where
  "memmove dst src n m =
     (if src < dst \<and> src + n > dst then copy_down (dst + n) (src + n) (unat n) m
      else copy_up dst src (unat n) m)"

definition memcpy :: "addr \<Rightarrow> addr \<Rightarrow> u32 \<Rightarrow> bmem \<Rightarrow> bmem" where
  "memcpy dst src n m = memmove dst src n m"

section \<open>Strings\<close>

fun strncmp_loop :: "addr \<Rightarrow> addr \<Rightarrow> nat \<Rightarrow> bmem \<Rightarrow> int" where
  "strncmp_loop p q 0 m = 0"
| "strncmp_loop p q (Suc n) m =
     (if m p \<noteq> 0 \<and> m p = m q then strncmp_loop (p + 1) (q + 1) n m else uint (m p) - uint (m q))"

definition strncmp :: "addr \<Rightarrow> addr \<Rightarrow> u32 \<Rightarrow> bmem \<Rightarrow> int" where
  "strncmp p q n m = strncmp_loop p q (unat n) m"

text \<open>
  \<^verbatim>\<open>strncpy\<close>: the first loop copies up to and including a NUL, the second fills what is
  left of the count. In the first loop the test \<^verbatim>\<open>n-- > 0\<close> that fails leaves \<open>n\<close> at
  -1, so nothing is filled.
\<close>

fun strncpy_loop :: "addr \<Rightarrow> addr \<Rightarrow> nat \<Rightarrow> bmem \<Rightarrow> bmem" where
  "strncpy_loop s t 0 m = m"
| "strncpy_loop s t (Suc n) m =
     (let m1 = m(s := m t)
      in if m t \<noteq> 0 then strncpy_loop (s + 1) (t + 1) n m1 else stosb (s + 1) 0 n m1)"

definition strncpy :: "addr \<Rightarrow> addr \<Rightarrow> int \<Rightarrow> bmem \<Rightarrow> bmem" where
  "strncpy s t n m = strncpy_loop s t (nat n) m"

text \<open>\<open>safestrcpy_loop\<close> runs with \<^verbatim>\<open>n\<close> already decremented; it ends with the terminating store.\<close>

fun safestrcpy_loop :: "addr \<Rightarrow> addr \<Rightarrow> nat \<Rightarrow> bmem \<Rightarrow> bmem" where
  "safestrcpy_loop s t 0 m = m(s := 0)"
| "safestrcpy_loop s t (Suc n) m =
     (let m1 = m(s := m t)
      in if m t \<noteq> 0 then safestrcpy_loop (s + 1) (t + 1) n m1 else m1(s + 1 := 0))"

definition safestrcpy :: "addr \<Rightarrow> addr \<Rightarrow> int \<Rightarrow> bmem \<Rightarrow> bmem" where
  "safestrcpy s t n m = (if n \<le> 0 then m else safestrcpy_loop s t (nat (n - 1)) m)"

partial_function (option) strlen_loop :: "addr \<Rightarrow> int \<Rightarrow> bmem \<Rightarrow> int option" where
  "strlen_loop s n m = (if m (s + of_int n) \<noteq> 0 then strlen_loop s (s32 (n + 1)) m else Some n)"

definition strlen :: "addr \<Rightarrow> bmem \<Rightarrow> int option" where
  "strlen s m = strlen_loop s 0 m"

section \<open>The user library\<close>

partial_function (option) strcpy :: "addr \<Rightarrow> addr \<Rightarrow> bmem \<Rightarrow> bmem option" where
  "strcpy s t m =
     (let m1 = m(s := m t) in if m t \<noteq> 0 then strcpy (s + 1) (t + 1) m1 else Some m1)"

partial_function (option) strcmp :: "addr \<Rightarrow> addr \<Rightarrow> bmem \<Rightarrow> int option" where
  "strcmp p q m =
     (if m p \<noteq> 0 \<and> m p = m q then strcmp (p + 1) (q + 1) m else Some (uint (m p) - uint (m q)))"

definition umemset :: "addr \<Rightarrow> u32 \<Rightarrow> u32 \<Rightarrow> bmem \<Rightarrow> bmem" where
  "umemset dst c n m = stosb dst (ucast c) (unat n) m"

partial_function (option) strchr :: "addr \<Rightarrow> byte \<Rightarrow> bmem \<Rightarrow> addr option" where
  "strchr s c m = (if m s = 0 then Some 0 else if m s = c then Some s else strchr (s + 1) c m)"

text \<open>\<^verbatim>\<open>atoi\<close>; a \<^verbatim>\<open>char\<close> is signed, and the digits are positive as such.\<close>

partial_function (option) atoi_loop :: "addr \<Rightarrow> int \<Rightarrow> bmem \<Rightarrow> int option" where
  "atoi_loop s n m =
     (if 48 \<le> sint (m s) \<and> sint (m s) \<le> 57 then atoi_loop (s + 1) (s32 (n * 10 + sint (m s) - 48)) m else Some n)"

definition atoi :: "addr \<Rightarrow> bmem \<Rightarrow> int option" where
  "atoi s m = atoi_loop s 0 m"

definition umemmove :: "addr \<Rightarrow> addr \<Rightarrow> int \<Rightarrow> bmem \<Rightarrow> bmem" where
  "umemmove dst src n m = copy_up dst src (nat n) m"

text \<open>
  \<^verbatim>\<open>gets\<close>: \<open>read1\<close> is \<^verbatim>\<open>read(0, &c, 1)\<close> with its result and the byte read; \<open>k\<close> is
  how many bytes may still be stored.
\<close>

fun gets_loop :: "('w \<Rightarrow> int \<times> byte \<times> 'w) \<Rightarrow> addr \<Rightarrow> nat \<Rightarrow> nat \<Rightarrow> bmem \<Rightarrow> 'w \<Rightarrow> bmem \<times> 'w" where
  "gets_loop read1 buf i 0 m w = (m(buf + of_nat i := 0), w)"
| "gets_loop read1 buf i (Suc k) m w =
     (let (cc, c, w1) = read1 w
      in if cc < 1 then (m(buf + of_nat i := 0), w1)
         else let m1 = m(buf + of_nat i := c)
              in if c = 10 \<or> c = 13 then (m1(buf + of_nat (Suc i) := 0), w1)
                 else gets_loop read1 buf (Suc i) k m1 w1)"

definition gets :: "('w \<Rightarrow> int \<times> byte \<times> 'w) \<Rightarrow> addr \<Rightarrow> int \<Rightarrow> bmem \<Rightarrow> 'w \<Rightarrow> bmem \<times> 'w" where
  "gets read1 buf mx m w = gets_loop read1 buf 0 (nat (mx - 1)) m w"

text \<open>\<^verbatim>\<open>stat\<close>: \<^verbatim>\<open>open\<close>, \<^verbatim>\<open>fstat\<close> and \<^verbatim>\<open>close\<close> are system calls.\<close>

definition stat ::
  "('n \<Rightarrow> int \<Rightarrow> 'w \<Rightarrow> int \<times> 'w) \<Rightarrow> (int \<Rightarrow> 'w \<Rightarrow> int \<times> 'w) \<Rightarrow> (int \<Rightarrow> 'w \<Rightarrow> int \<times> 'w) \<Rightarrow> 'n \<Rightarrow> 'w \<Rightarrow> int \<times> 'w" where
  "stat open fstat close n w =
     (let (fd, w1) = open n 0 w
      in if fd < 0 then (- 1, w1)
         else let (r, w2) = fstat fd w1; (_, w3) = close fd w2 in (r, w3))"

section \<open>The bytes of a block\<close>

text \<open>The \<open>n\<close> bytes at an address, and the string that ends at the first NUL.\<close>

definition bytes :: "bmem \<Rightarrow> addr \<Rightarrow> nat \<Rightarrow> byte list" where
  "bytes m a n = map (\<lambda>i. m (a + of_nat i)) [0..<n]"

lemma length_bytes [simp]: "length (bytes m a n) = n"
  by (simp add: bytes_def)

lemma nth_bytes [simp]: "i < n \<Longrightarrow> bytes m a n ! i = m (a + of_nat i)"
  by (simp add: bytes_def)

lemma bytes_Suc: "bytes m a (Suc n) = m a # bytes m (a + 1) n"
  by (simp add: bytes_def upt_conv_Cons map_Suc_upt [symmetric] algebra_simps del: upt_Suc)

definition cstring :: "bmem \<Rightarrow> addr \<Rightarrow> byte list \<Rightarrow> bool" where
  "cstring m a xs \<longleftrightarrow> bytes m a (length xs) = xs \<and> 0 \<notin> set xs \<and> m (a + of_nat (length xs)) = 0"

lemma cstring_Nil [simp]: "cstring m a [] \<longleftrightarrow> m a = 0"
  by (simp add: cstring_def bytes_def)

lemma cstring_Cons [simp]: "cstring m a (x # xs) \<longleftrightarrow> m a = x \<and> x \<noteq> 0 \<and> cstring m (a + 1) xs"
  by (auto simp: cstring_def bytes_Suc algebra_simps)

section \<open>\<^verbatim>\<open>memmove\<close>\<close>

text \<open>Different offsets below $2^{32}$ give different addresses.\<close>

lemma offset_inj: "i < 2 ^ 32 \<Longrightarrow> j < 2 ^ 32 \<Longrightarrow> a + of_nat i = a + (of_nat j :: addr) \<longleftrightarrow> i = j"
  by (simp add: word_of_nat_eq_iff take_bit_nat_eq_self)

lemma copy_up_frame: "(\<And>i. i < n \<Longrightarrow> x \<noteq> d + of_nat i) \<Longrightarrow> copy_up d s n m x = m x"
proof (induction n arbitrary: d s m)
  case (Suc n)
  have "x \<noteq> d" using Suc.prems [of 0] by simp
  moreover have "x \<noteq> d + 1 + of_nat i" if "i < n" for i using Suc.prems [of "Suc i"] that by (simp add: add.assoc)
  ultimately have "copy_up (d + 1) (s + 1) n (m(d := m s)) x = (m(d := m s)) x" "x \<noteq> d" by (blast intro: Suc.IH)+
  then show ?case by simp
qed simp

text \<open>Copying upwards is right when no byte is overwritten before it is read.\<close>

lemma copy_up_at:
  assumes "n \<le> 2 ^ 32" and "\<And>i j. i < j \<Longrightarrow> j < n \<Longrightarrow> d + of_nat i \<noteq> s + of_nat j" and "k < n"
  shows "copy_up d s n m (d + of_nat k) = m (s + of_nat k)"
  using assms
proof (induction n arbitrary: d s m k)
  case (Suc n)
  let ?m = "m(d := m s)"
  have safe: "d + 1 + of_nat i \<noteq> s + 1 + of_nat j" if "i < j" "j < n" for i j
    using Suc.prems(2) [of "Suc i" "Suc j"] that by (simp add: add.assoc)
  show ?case
  proof (cases k)
    case 0
    have "d \<noteq> d + 1 + of_nat i" if "i < n" for i
      using offset_inj [of 0 "Suc i" d] that Suc.prems(1) by (simp add: add.assoc)
    then have "copy_up (d + 1) (s + 1) n ?m d = ?m d" by (rule copy_up_frame)
    with 0 show ?thesis by simp
  next
    case (Suc l)
    have "copy_up (d + 1) (s + 1) n ?m (d + 1 + of_nat l) = ?m (s + 1 + of_nat l)"
      by (rule Suc.IH) (use Suc.prems(1,3) Suc safe in auto)
    moreover have "s + 1 + of_nat l \<noteq> d" using Suc.prems(2) [of 0 "Suc l"] Suc Suc.prems(3) by (simp add: add.assoc)
    ultimately show ?thesis using Suc by (simp add: add.assoc)
  qed
qed simp

lemma copy_down_frame: "(\<And>i. i < n \<Longrightarrow> x \<noteq> d - 1 - of_nat i) \<Longrightarrow> copy_down d s n m x = m x"
proof (induction n arbitrary: d s m)
  case (Suc n)
  have "x \<noteq> d - 1" using Suc.prems [of 0] by simp
  moreover have "x \<noteq> d - 1 - 1 - of_nat i" if "i < n" for i using Suc.prems [of "Suc i"] that by (simp add: algebra_simps)
  ultimately have "copy_down (d - 1) (s - 1) n (m(d - 1 := m (s - 1))) x = (m(d - 1 := m (s - 1))) x" "x \<noteq> d - 1"
    by (blast intro: Suc.IH)+
  then show ?case by simp
qed simp

lemma copy_down_at:
  assumes "n \<le> 2 ^ 32" and "\<And>i j. i < j \<Longrightarrow> j < n \<Longrightarrow> d - 1 - of_nat i \<noteq> s - 1 - of_nat j" and "k < n"
  shows "copy_down d s n m (d - 1 - of_nat k) = m (s - 1 - of_nat k)"
  using assms
proof (induction n arbitrary: d s m k)
  case (Suc n)
  let ?m = "m(d - 1 := m (s - 1))"
  have safe: "d - 1 - 1 - of_nat i \<noteq> s - 1 - 1 - of_nat j" if "i < j" "j < n" for i j
    using Suc.prems(2) [of "Suc i" "Suc j"] that by (simp add: algebra_simps)
  show ?case
  proof (cases k)
    case 0
    have "d - 1 \<noteq> d - 1 - 1 - of_nat i" if "i < n" for i
      using offset_inj [of 0 "Suc i" "0 :: addr"] that Suc.prems(1) by (auto simp: algebra_simps)
    then have "copy_down (d - 1) (s - 1) n ?m (d - 1) = ?m (d - 1)" by (rule copy_down_frame)
    with 0 show ?thesis by simp
  next
    case (Suc l)
    have "copy_down (d - 1) (s - 1) n ?m (d - 1 - 1 - of_nat l) = ?m (s - 1 - 1 - of_nat l)"
      by (rule Suc.IH) (use Suc.prems(1,3) Suc safe in auto)
    moreover have "s - 1 - 1 - of_nat l \<noteq> d - 1" using Suc.prems(2) [of 0 "Suc l"] Suc Suc.prems(3) by (simp add: algebra_simps)
    ultimately show ?thesis using Suc by (simp add: algebra_simps)
  qed
qed simp

lemma nat_addr: "(x :: addr) = of_nat (unat x)"
  by simp

lemma unat_plus_small: "unat a + k < 2 ^ 32 \<Longrightarrow> unat (a + of_nat k) = unat a + k" for a :: addr
  by (simp add: unat_word_ariths unat_of_nat)

lemma back_offset: "k < unat n \<Longrightarrow> a + n - 1 - of_nat (unat n - 1 - k) = a + of_nat k" for n a :: addr
proof -
  assume k: "k < unat n"
  have "of_nat (unat n - 1 - k) = (of_nat (unat n) - of_nat (Suc k) :: addr)" using k by (subst of_nat_diff [symmetric]) auto
  also have "\<dots> = n - (1 + of_nat k)" by simp
  finally show ?thesis by (simp only: diff_diff_eq2) (simp add: algebra_simps)
qed

lemma memmove_spec:
  assumes "unat dst + unat n < 2 ^ 32" and "unat src + unat n < 2 ^ 32"
  shows "bytes (memmove dst src n m) dst (unat n) = bytes m src (unat n)"
    "(\<And>i. i < unat n \<Longrightarrow> x \<noteq> dst + of_nat i) \<Longrightarrow> memmove dst src n m x = m x"
proof -
  have n: "unat n \<le> 2 ^ 32" using assms by simp
  have ud: "unat (dst + of_nat k) = unat dst + k" and us: "unat (src + of_nat k) = unat src + k" if "k \<le> unat n" for k
    using unat_plus_small [of dst k] unat_plus_small [of src k] that assms by simp_all
  show "bytes (memmove dst src n m) dst (unat n) = bytes m src (unat n)"
  proof (rule nth_equalityI)
    fix k assume "k < length (bytes (memmove dst src n m) dst (unat n))"
    then have k: "k < unat n" by simp
    show "bytes (memmove dst src n m) dst (unat n) ! k = bytes m src (unat n) ! k"
    proof (cases "src < dst \<and> src + n > dst")
      case True
      have "copy_down (dst + n) (src + n) (unat n) m (dst + n - 1 - of_nat (unat n - 1 - k)) =
        m (src + n - 1 - of_nat (unat n - 1 - k))"
      proof (rule copy_down_at [OF n])
        show "dst + n - 1 - of_nat i \<noteq> src + n - 1 - of_nat j" if "i < j" "j < unat n" for i j
        proof
          assume "dst + n - 1 - of_nat i = src + n - 1 - of_nat j"
          then have "dst - of_nat i = src - of_nat j" by (simp add: algebra_simps)
          then have "dst + (of_nat j - of_nat i) = src" by (simp add: algebra_simps)
          then have "dst + of_nat (j - i) = src" using that(1) by (simp only: of_nat_diff less_imp_le)
          then have "unat src = unat dst + (j - i)" using ud [of "j - i"] that by auto
          then show False using True by (simp add: word_less_nat_alt)
        qed
      qed (use k in simp)
      moreover have "dst + n - 1 - of_nat (unat n - 1 - k) = dst + of_nat k" "src + n - 1 - of_nat (unat n - 1 - k) = src + of_nat k"
        using back_offset [OF k] by simp_all
      ultimately show ?thesis using True k by (simp add: memmove_def)
    next
      case False
      have "copy_up dst src (unat n) m (dst + of_nat k) = m (src + of_nat k)"
      proof (rule copy_up_at [OF n])
        show "dst + of_nat i \<noteq> src + of_nat j" if "i < j" "j < unat n" for i j
        proof
          assume "dst + of_nat i = src + of_nat j"
          then have "unat dst + i = unat src + j" using ud [of i] us [of j] that by simp
          then show False using False that us [of "unat n"] by (simp add: word_less_nat_alt)
        qed
      qed (rule k)
      then show ?thesis using False k by (auto simp: memmove_def)
    qed
  qed simp
  assume x: "\<And>i. i < unat n \<Longrightarrow> x \<noteq> dst + of_nat i"
  have "x \<noteq> dst + n - 1 - of_nat i" if "i < unat n" for i
    using x [of "unat n - 1 - i"] that back_offset [of "unat n - 1 - i" n dst] by auto
  then show "memmove dst src n m x = m x" using x by (simp add: memmove_def copy_up_frame copy_down_frame)
qed

section \<open>\<^verbatim>\<open>memset\<close>\<close>

lemma stosb_add: "stosb a c (k + n) m = stosb (a + of_nat k) c n (stosb a c k m)"
  by (induction k arbitrary: a m) (simp_all add: algebra_simps)

lemma store_word_bytes:
  assumes "w = push_bit 24 c OR push_bit 16 c OR push_bit 8 c OR c" and "c = b AND 0xFF"
  shows "store_word a w m = stosb a (ucast b) 4 m"
proof -
  have m: "(0xFF :: u32) = mask 8" by (simp add: mask_eq_exp_minus_1)
  have "ucast w = (ucast b :: byte)" "ucast (drop_bit 8 w) = (ucast b :: byte)"
    "ucast (drop_bit 16 w) = (ucast b :: byte)" "ucast (drop_bit 24 w) = (ucast b :: byte)"
    unfolding assms m by (rule bit_word_eqI; auto simp: bit_simps)+
  then show ?thesis by (simp add: store_word_def numeral_eq_Suc add.assoc)
qed

lemma stosl_stosb:
  assumes "w = push_bit 24 c OR push_bit 16 c OR push_bit 8 c OR c" and "c = b AND 0xFF"
  shows "stosl a w k m = stosb a (ucast b) (4 * k) m"
proof (induction k arbitrary: a m)
  case (Suc k)
  have "stosb a (ucast b) (4 * Suc k) m = stosb (a + 4) (ucast b) (4 * k) (stosb a (ucast b) 4 m)"
    using stosb_add [of a "ucast b" 4 "4 * k" m] by simp
  then show ?case using Suc.IH [of "a + 4" "store_word a w m"] store_word_bytes [OF assms] by simp
qed simp

text \<open>The word-wise fast path of \<^verbatim>\<open>memset\<close> does what the byte-wise one does.\<close>

lemma memset_eq: "memset dst c n m = stosb dst (ucast c) (unat n) m"
proof (cases "sint dst mod 4 = 0 \<and> n mod 4 = 0")
  case True
  have "unat n mod 4 = 0" using True by (simp add: word_arith_nat_mod unat_of_nat flip: unat_eq_zero)
  then have "4 * unat (n div 4) = unat n" by (simp add: unat_div mod_eq_0_iff_dvd)
  then show ?thesis using True stosl_stosb [OF refl refl, of dst c "unat (n div 4)" m] by (simp add: memset_def Let_def)
qed (auto simp: memset_def)

lemma stosb_at:
  "n \<le> 2 ^ 32 \<Longrightarrow> stosb a c n m x = (if \<exists>i < n. x = a + of_nat i then c else m x)"
proof (induction n arbitrary: a m)
  case (Suc n)
  have e: "(\<exists>i < Suc n. x = a + of_nat i) \<longleftrightarrow> x = a \<or> (\<exists>i < n. x = a + 1 + of_nat i)"
    by (auto simp: less_Suc_eq_0_disj add.assoc)
  show ?case unfolding e using Suc by auto
qed simp

section \<open>Strings\<close>

lemma strlen_loop_cstring:
  "cstring m (s + of_nat k) xs \<Longrightarrow> k + length xs < 2 ^ 31 \<Longrightarrow> strlen_loop s (int k) m = Some (int k + int (length xs))"
proof (induction xs arbitrary: k)
  case Nil
  then show ?case by (subst strlen_loop.simps) simp
next
  case (Cons x xs)
  have "s32 (int k + 1) = int (Suc k)" using Cons.prems(2) by (simp add: algebra_simps)
  moreover have "strlen_loop s (int (Suc k)) m = Some (int (Suc k) + int (length xs))"
    by (rule Cons.IH) (use Cons.prems in \<open>simp_all add: algebra_simps\<close>)
  ultimately show ?case using Cons.prems(1) by (subst strlen_loop.simps) simp
qed

lemma strlen_cstring: "cstring m s xs \<Longrightarrow> length xs < 2 ^ 31 \<Longrightarrow> strlen s m = Some (int (length xs))"
  using strlen_loop_cstring [of m s 0 xs] by (simp add: strlen_def)

lemma strcmp_cstring:
  "cstring m p xs \<Longrightarrow> cstring m q ys \<Longrightarrow> \<exists>r. strcmp p q m = Some r \<and> (r = 0 \<longleftrightarrow> xs = ys)"
proof (induction xs arbitrary: p q ys)
  case Nil
  then show ?case by (cases ys) (subst strcmp.simps, auto simp: unsigned_eq_0_iff)+
next
  case (Cons x xs)
  show ?case
  proof (cases ys)
    case Nil
    then show ?thesis using Cons.prems by (subst strcmp.simps) (auto simp: unsigned_eq_0_iff)
  next
    case (Cons y zs)
    then show ?thesis using Cons.IH [of "p + 1" "q + 1" zs] Cons.prems
      by (subst strcmp.simps) (auto simp: word_uint_eq_iff)
  qed
qed

lemma strchr_cstring:
  "cstring m s xs \<Longrightarrow> c \<noteq> 0 \<Longrightarrow> strchr s c m =
    Some (if c \<in> set xs then s + of_nat (length (takeWhile (\<lambda>x. x \<noteq> c) xs)) else 0)"
proof (induction xs arbitrary: s)
  case Nil
  then show ?case by (subst strchr.simps) simp
next
  case (Cons x xs)
  then show ?case by (subst strchr.simps) (auto simp: algebra_simps)
qed

lemma cstring_upd:
  "(\<And>j. j \<le> length xs \<Longrightarrow> a + of_nat j \<noteq> u) \<Longrightarrow> cstring (m(u := v)) a xs \<longleftrightarrow> cstring m a xs"
proof (induction xs arbitrary: a)
  case Nil
  then show ?case using Nil [of 0] by simp
next
  case (Cons x xs)
  have "a + 1 + of_nat j \<noteq> u" if "j \<le> length xs" for j using Cons.prems [of "Suc j"] that by (simp add: add.assoc)
  then show ?case using Cons.IH [of "a + 1"] Cons.prems [of 0] by simp
qed

lemma safestrcpy_loop_spec:
  assumes "cstring m t xs" and "\<And>i j. i \<le> k \<Longrightarrow> j \<le> length xs \<Longrightarrow> s + of_nat i \<noteq> t + of_nat j" and "Suc k < 2 ^ 32"
  shows "cstring (safestrcpy_loop s t k m) s (take k xs) \<and>
    (\<forall>x. (\<forall>i \<le> k. x \<noteq> s + of_nat i) \<longrightarrow> safestrcpy_loop s t k m x = m x)"
  using assms
proof (induction k arbitrary: s t m xs)
  case 0
  then show ?case by auto
next
  case (Suc k)
  show ?case
  proof (cases xs)
    case Nil
    then have "safestrcpy_loop s t (Suc k) m = m(s := 0, s + 1 := 0)" using Suc.prems(1) by simp
    moreover have "x \<noteq> s + 1" if "\<forall>i \<le> Suc k. x \<noteq> s + of_nat i" for x using that [rule_format, of 1] by simp
    moreover have "x \<noteq> s" if "\<forall>i \<le> Suc k. x \<noteq> s + of_nat i" for x using that [rule_format, of 0] by simp
    ultimately show ?thesis using Nil by simp
  next
    case (Cons y ys)
    let ?m = "m(s := y)"
    have t: "m t = y" "y \<noteq> 0" "cstring m (t + 1) ys" using Suc.prems(1) Cons by auto
    have dis: "s + 1 + of_nat i \<noteq> t + 1 + of_nat j" if "i \<le> k" "j \<le> length ys" for i j
      using Suc.prems(2) [of "Suc i" "Suc j"] that Cons by (simp add: add.assoc)
    have "t + 1 + of_nat j \<noteq> s" if "j \<le> length ys" for j
      using Suc.prems(2) [of 0 "Suc j"] that Cons by (auto simp: add.assoc)
    from cstring_upd [OF this] have "cstring ?m (t + 1) ys" using t(3) by blast
    moreover have "Suc k < 2 ^ 32" using Suc.prems(3) by simp
    ultimately have
      c: "cstring (safestrcpy_loop (s + 1) (t + 1) k ?m) (s + 1) (take k ys)"
      and f: "(\<forall>i \<le> k. x \<noteq> s + 1 + of_nat i) \<longrightarrow> safestrcpy_loop (s + 1) (t + 1) k ?m x = ?m x" for x
      using Suc.IH [of ?m "t + 1" ys "s + 1"] dis by blast+
    have e: "safestrcpy_loop s t (Suc k) m = safestrcpy_loop (s + 1) (t + 1) k ?m" using t by (simp add: Let_def)
    have "s \<noteq> s + 1 + of_nat i" if "i \<le> k" for i
      using offset_inj [of 0 "Suc i" s] that Suc.prems(3) by (simp add: add.assoc)
    then have "safestrcpy_loop (s + 1) (t + 1) k ?m s = y" using f [of s] by simp
    moreover have "safestrcpy_loop (s + 1) (t + 1) k ?m x = m x" if x: "\<forall>i \<le> Suc k. x \<noteq> s + of_nat i" for x
    proof -
      have "\<forall>i \<le> k. x \<noteq> s + 1 + of_nat i" using x by (metis Suc_le_mono add.assoc of_nat_Suc)
      moreover have "x \<noteq> s" using x [rule_format, of 0] by simp
      ultimately show ?thesis using f [of x] by simp
    qed
    ultimately show ?thesis unfolding e using c t Cons by simp
  qed
qed

lemma safestrcpy_spec:
  assumes "cstring m t xs" and "0 < n" and "n < 2 ^ 31"
    and "\<And>i j. i < nat n \<Longrightarrow> j \<le> length xs \<Longrightarrow> s + of_nat i \<noteq> t + of_nat j"
  shows "cstring (safestrcpy s t n m) s (take (nat (n - 1)) xs)"
    "(\<And>i. i < nat n \<Longrightarrow> x \<noteq> s + of_nat i) \<Longrightarrow> safestrcpy s t n m x = m x"
proof -
  have k: "i \<le> nat (n - 1) \<longleftrightarrow> i < nat n" for i using assms(2) by auto
  have "Suc (nat (n - 1)) < 2 ^ 32" using assms(3) by simp
  then have l: "cstring (safestrcpy_loop s t (nat (n - 1)) m) s (take (nat (n - 1)) xs) \<and>
    (\<forall>x. (\<forall>i \<le> nat (n - 1). x \<noteq> s + of_nat i) \<longrightarrow> safestrcpy_loop s t (nat (n - 1)) m x = m x)"
    by (intro safestrcpy_loop_spec [OF assms(1)]) (use assms(4) k in auto)
  then show "cstring (safestrcpy s t n m) s (take (nat (n - 1)) xs)" using assms(2) by (simp add: safestrcpy_def)
  show "safestrcpy s t n m x = m x" if "\<And>i. i < nat n \<Longrightarrow> x \<noteq> s + of_nat i"
    using l that k assms(2) by (simp add: safestrcpy_def)
qed

text \<open>C27. The kernel's \<^verbatim>\<open>memmove\<close> copies correctly also when the areas overlap, in either
  direction: the destination gets the bytes the source had before, and nothing else
  changes.\<close>

theorem memmove_copies:
  assumes "unat dst + unat n < 2 ^ 32" and "unat src + unat n < 2 ^ 32"
  shows "bytes (memmove dst src n m) dst (unat n) = bytes m src (unat n) \<and>
    (\<forall>x. (\<forall>i < unat n. x \<noteq> dst + of_nat i) \<longrightarrow> memmove dst src n m x = m x)"
  using memmove_spec [OF assms] by blast

theorem memmove_copies_witness:
  "bytes (memmove 0x1002 0x1000 4 (\<lambda>a. ucast a)) 0x1002 4 = [0, 1, 2, 3]"
proof -
  have "bytes (\<lambda>a. ucast a) 0x1000 4 = [0, 1, 2, 3]" by (simp add: bytes_def upt_rec)
  then show ?thesis using memmove_copies [of "0x1002" 4 "0x1000" "\<lambda>a. ucast a"] by simp
qed

text \<open>\<^verbatim>\<open>safestrcpy\<close> into a buffer of \<open>n\<close> bytes stores the longest prefix of the string
  that fits, always with a NUL, and writes nothing outside the buffer.\<close>

theorem safestrcpy_terminates_string:
  assumes "cstring m t xs" and "0 < n" and "n < 2 ^ 31"
    and "\<And>i j. i < nat n \<Longrightarrow> j \<le> length xs \<Longrightarrow> s + of_nat i \<noteq> t + of_nat j"
  shows "cstring (safestrcpy s t n m) s (take (nat (n - 1)) xs) \<and>
    (\<forall>x. (\<forall>i < nat n. x \<noteq> s + of_nat i) \<longrightarrow> safestrcpy s t n m x = m x)"
  using safestrcpy_spec [OF assms] by blast

theorem safestrcpy_terminates_string_witness:
  "cstring (safestrcpy 0x2000 0x1000 3 ((\<lambda>_. 0)(0x1000 := 104, 0x1001 := 105, 0x1002 := 33))) 0x2000 [104, 105]"
proof -
  let ?m = "(\<lambda>_. 0)(0x1000 := 104, 0x1001 := 105, 0x1002 := 33) :: bmem"
  have "cstring ?m 0x1000 [104, 105, 33]" by simp
  moreover have "(0x2000 :: addr) + of_nat i \<noteq> 0x1000 + of_nat j" if "i < 3" "j \<le> 3" for i j :: nat
  proof
    assume "(0x2000 :: addr) + of_nat i = 0x1000 + of_nat j"
    then have "unat ((0x2000 :: addr) + of_nat i) = unat ((0x1000 :: addr) + of_nat j)" by (rule arg_cong)
    then show False using unat_plus_small [of "0x2000" i] unat_plus_small [of "0x1000" j] that by simp
  qed
  ultimately show ?thesis using safestrcpy_terminates_string [of ?m "0x1000" "[104, 105, 33]" 3 "0x2000"] by simp
qed

end
