(* ===== verification/Printf.thy ===== *)
theory Printf
  imports Kstring
begin

text \<open>
  The formatted output of the user library (\<^verbatim>\<open>printf.c\<close>). \<^verbatim>\<open>putc\<close> is a \<^verbatim>\<open>write\<close> of
  one byte, so the output is the list of the bytes written. \<open>printint\<close> takes the
  argument as the C int it is.
\<close>

definition digits :: "byte list" where
  "digits = [48, 49, 50, 51, 52, 53, 54, 55, 56, 57, 65, 66, 67, 68, 69, 70]"

text \<open>The loop that fills \<^verbatim>\<open>buf\<close>, least digit first; the result is \<^verbatim>\<open>buf[0..i-1]\<close>.\<close>

partial_function (option) printint_loop :: "u32 \<Rightarrow> u32 \<Rightarrow> byte list option" where
  "printint_loop x base =
     (let d = digits ! unat (x mod base); x' = x div base
      in if x' \<noteq> 0 then do { ds \<leftarrow> printint_loop x' base; Some (d # ds) } else Some [d])"

definition printint :: "int \<Rightarrow> u32 \<Rightarrow> bool \<Rightarrow> byte list option" where
  "printint xx base sg =
     (let neg = (sg \<and> xx < 0); x = (if neg then of_int (- xx) else of_int xx)
      in do {
        ds \<leftarrow> printint_loop x base;
        let buf = (if neg then ds @ [45] else ds);
        Some (rev buf) })"

definition load_word :: "bmem \<Rightarrow> addr \<Rightarrow> u32" where
  "load_word m a = ucast (m a) + push_bit 8 (ucast (m (a + 1))) + push_bit 16 (ucast (m (a + 2))) + push_bit 24 (ucast (m (a + 3)))"

text \<open>The string printed for \<^verbatim>\<open>%s\<close>.\<close>

partial_function (option) put_string :: "bmem \<Rightarrow> addr \<Rightarrow> byte list option" where
  "put_string m s = (if m s = 0 then Some [] else do { r \<leftarrow> put_string m (s + 1); Some (m s # r) })"

text \<open>One conversion: the output and the argument pointer after it.\<close>

definition convert :: "bmem \<Rightarrow> byte \<Rightarrow> addr \<Rightarrow> (byte list \<times> addr) option" where
  "convert m c ap =
     (if c = 100 then do { out \<leftarrow> printint (sint (load_word m ap)) 10 True; Some (out, ap + 4) }
      else if c = 120 \<or> c = 112 then do { out \<leftarrow> printint (sint (load_word m ap)) 16 False; Some (out, ap + 4) }
      else if c = 115
      then do {
        out \<leftarrow> (if load_word m ap = 0 then Some [40, 110, 117, 108, 108, 41] else put_string m (load_word m ap));
        Some (out, ap + 4) }
      else if c = 99 then Some ([ucast (load_word m ap)], ap + 4)
      else if c = 37 then Some ([c], ap)
      else Some ([37, c], ap))"

partial_function (option) printf_loop :: "bmem \<Rightarrow> addr \<Rightarrow> bool \<Rightarrow> addr \<Rightarrow> byte list option" where
  "printf_loop m fmt pct ap =
     (if m fmt = 0 then Some []
      else if \<not> pct
      then if m fmt = 37 then printf_loop m (fmt + 1) True ap
           else do { r \<leftarrow> printf_loop m (fmt + 1) False ap; Some (m fmt # r) }
      else do {
        (out, ap') \<leftarrow> convert m (m fmt) ap;
        r \<leftarrow> printf_loop m (fmt + 1) False ap';
        Some (out @ r) })"

text \<open>\<open>printf m fmt ap\<close>: \<open>ap\<close> is the address of the arguments, after that of \<^verbatim>\<open>fmt\<close>.\<close>

definition printf :: "bmem \<Rightarrow> addr \<Rightarrow> addr \<Rightarrow> byte list option" where
  "printf m fmt ap = printf_loop m fmt False ap"

section \<open>Numbers\<close>

text \<open>The value of a list of decimal digits, most significant first.\<close>

definition value10 :: "byte list \<Rightarrow> nat" where
  "value10 ds = foldl (\<lambda>v d. 10 * v + (unat d - 48)) 0 ds"

lemma value10_snoc [simp]: "value10 (ds @ [d]) = 10 * value10 ds + (unat d - 48)"
  by (simp add: value10_def)

lemma byte_sint: "unat d < 128 \<Longrightarrow> sint d = int (unat d)" for d :: byte
proof -
  assume "unat d < 128"
  then have "int (unat d) < int 128" by (simp only: of_nat_less_iff)
  then have "uint d < 2 ^ 7" by simp
  moreover have "0 \<le> uint d" by simp
  ultimately have "signed_take_bit 7 (uint d) = uint d" by (intro signed_take_bit_int_eq_self) linarith+
  then show ?thesis by (simp add: sint_uint)
qed

lemma digits_ten: "i < 10 \<Longrightarrow> unat (digits ! i) = 48 + i"
proof -
  assume "i < 10"
  then have "i = 0 \<or> i = 1 \<or> i = 2 \<or> i = 3 \<or> i = 4 \<or> i = 5 \<or> i = 6 \<or> i = 7 \<or> i = 8 \<or> i = 9" by presburger
  then show ?thesis unfolding digits_def by (elim disjE; simp)
qed

definition decimal :: "byte list \<Rightarrow> bool" where
  "decimal ds \<longleftrightarrow> (\<forall>d \<in> set ds. 48 \<le> unat d \<and> unat d \<le> 57)"

lemma printint_loop_ten:
  "\<exists>ds. printint_loop x 10 = Some ds \<and> decimal ds \<and> value10 (rev ds) = unat x \<and> (unat x < 10 ^ k \<longrightarrow> 0 < k \<longrightarrow> length ds \<le> k)"
proof (induction "unat x" arbitrary: x k rule: less_induct)
  case less
  let ?d = "digits ! unat (x mod 10)"
  have m: "unat (x mod 10) = unat x mod 10" "unat (x div 10) = unat x div 10" by (simp_all add: unat_mod unat_div)
  then have d: "unat ?d = 48 + unat x mod 10" "48 \<le> unat ?d \<and> unat ?d \<le> 57"
    using digits_ten [of "unat x mod 10"] by simp_all
  show ?case
  proof (cases "x div 10 = 0")
    case True
    then have "unat x div 10 = 0" using m(2) by simp
    then have "unat x mod 10 = unat x" by (simp add: div_eq_0_iff)
    then show ?thesis using True d by (subst printint_loop.simps) (auto simp: decimal_def value10_def Let_def)
  next
    case False
    then have "unat x div 10 \<noteq> 0" using m(2) by (metis unat_eq_zero)
    then have lt: "unat (x div 10) < unat x" using m(2) by simp
    from less [OF lt, of "k - 1"] obtain ds where
      ds: "printint_loop (x div 10) 10 = Some ds" "decimal ds" "value10 (rev ds) = unat x div 10"
        "unat x div 10 < 10 ^ (k - 1) \<longrightarrow> 0 < k - 1 \<longrightarrow> length ds \<le> k - 1" using m(2) by auto
    have "length (?d # ds) \<le> k" if k: "unat x < 10 ^ k" "0 < k"
    proof -
      have "k \<noteq> 1" using k \<open>unat x div 10 \<noteq> 0\<close> by auto
      moreover have "unat x div 10 < 10 ^ (k - 1)" using k by (cases k) auto
      ultimately show ?thesis using ds(4) k(2) by auto
    qed
    moreover have "printint_loop x 10 = Some (?d # ds)" using False ds(1) by (subst printint_loop.simps) (simp add: Let_def)
    moreover have "value10 (rev (?d # ds)) = unat x" using ds(3) d(1) by simp
    ultimately show ?thesis using ds(2) d(2) by (auto simp: decimal_def)
  qed
qed

lemma atoi_loop_decimal:
  "cstring m s ds \<Longrightarrow> decimal ds \<Longrightarrow> int (foldl (\<lambda>v d. 10 * v + (unat d - 48)) v ds) < 2 ^ 31 \<Longrightarrow>
    atoi_loop s (int v) m = Some (int (foldl (\<lambda>v d. 10 * v + (unat d - 48)) v ds))"
proof (induction ds arbitrary: s v)
  case Nil
  then show ?case by (subst atoi_loop.simps) simp
next
  case (Cons d ds)
  have u: "48 \<le> unat d" "unat d \<le> 57" using Cons.prems(2) by (simp_all add: decimal_def)
  have d: "m s = d" "sint d = int (unat d)" using Cons.prems(1) byte_sint [of d] u by simp_all
  let ?v = "10 * v + (unat d - 48)"
  have mono: "v \<le> foldl (\<lambda>v d. 10 * v + (unat d - 48)) v xs" for v :: nat and xs :: "byte list"
  proof (induction xs arbitrary: v)
    case (Cons x xs)
    from Cons [of "10 * v + (unat x - 48)"] show ?case by simp
  qed simp
  have "int ?v < 2 ^ 31" using mono [of ?v ds] Cons.prems(3) by simp
  moreover have "int v * 10 + sint d - 48 = int ?v" unfolding d(2) using u(1) by linarith
  ultimately have "s32 (int v * 10 + sint d - 48) = int ?v" by simp
  moreover have "48 \<le> sint d" "sint d \<le> 57" unfolding d(2) using u by linarith+
  moreover have "atoi_loop (s + 1) (int ?v) m = Some (int (foldl (\<lambda>v d. 10 * v + (unat d - 48)) v (d # ds)))"
    unfolding foldl_Cons using Cons.prems(1,2) Cons.prems(3) [unfolded foldl_Cons] by (intro Cons.IH) (simp_all add: decimal_def)
  ultimately show ?case using d(1) by (subst atoi_loop.simps) simp
qed

lemma atoi_decimal:
  assumes "cstring m s ds" "decimal ds" "int (value10 ds) < 2 ^ 31"
  shows "atoi s m = Some (int (value10 ds))"
  using atoi_loop_decimal [of m s ds 0] assms by (simp add: atoi_def value10_def)

lemma atoi_minus: "cstring m s (45 # ds) \<Longrightarrow> atoi s m = Some 0"
  using byte_sint [of 45] by (simp add: atoi_def) (subst atoi_loop.simps, simp)

text \<open>C28. What \<^verbatim>\<open>printf\<close> prints for any int with \<^verbatim>\<open>%d\<close> is a minus sign for a negative
  number and then the decimal digits of the absolute value, at most ten, so that the 16 bytes of the
  buffer are enough; this holds for the least int too. \<^verbatim>\<open>atoi\<close> reads the digits back as the
  absolute value when that is an int; of a number printed with its sign it reads 0, since it knows no
  sign.\<close>

theorem printint_atoi:
  assumes "- (2 ^ 31) \<le> x" and "x < 2 ^ 31"
  shows "\<exists>ds. printint x 10 True = Some ((if x < 0 then [45] else []) @ ds) \<and> decimal ds \<and> value10 ds = nat \<bar>x\<bar> \<and> length ds \<le> 10 \<and>
    (\<forall>m s. \<bar>x\<bar> < 2 ^ 31 \<longrightarrow> cstring m s ds \<longrightarrow> atoi s m = Some \<bar>x\<bar>) \<and>
    (\<forall>m s. x < 0 \<longrightarrow> cstring m s ([45] @ ds) \<longrightarrow> atoi s m = Some 0)"
proof -
  have u: "unat (of_int \<bar>x\<bar> :: u32) = nat \<bar>x\<bar>" using assms by (simp add: unat_eq_nat_uint unsigned_of_int take_bit_int_eq_self)
  have "nat \<bar>x\<bar> < 10 ^ 10" using assms by simp
  with printint_loop_ten [of "of_int \<bar>x\<bar>" 10] u obtain ds where
    ds: "printint_loop (of_int \<bar>x\<bar>) 10 = Some ds" "decimal (rev ds)" "value10 (rev ds) = nat \<bar>x\<bar>" "length (rev ds) \<le> 10"
    by (auto simp: decimal_def)
  have "printint x 10 True = Some ((if x < 0 then [45] else []) @ rev ds)" using ds(1) by (auto simp: printint_def abs_if)
  moreover have "atoi s m = Some \<bar>x\<bar>" if "\<bar>x\<bar> < 2 ^ 31" "cstring m s (rev ds)" for m s
    using atoi_decimal [OF that(2) ds(2)] ds(3) that(1) by simp
  moreover have "atoi s m = Some 0" if "cstring m s ([45] @ rev ds)" for m s using atoi_minus that by simp
  ultimately show ?thesis using ds(2-4) by blast
qed

theorem printint_atoi_witness:
  "(\<exists>ds. printint 2019 10 True = Some ds \<and> (\<forall>m s. cstring m s ds \<longrightarrow> atoi s m = Some 2019)) \<and>
   (\<exists>ds. printint (- 2147483648) 10 True = Some (45 # ds) \<and> value10 ds = 2147483648)"
  using printint_atoi [of 2019] printint_atoi [of "- 2147483648"] by auto

end
