(* ===== verification/Grep.thy ===== *)
theory Grep
  imports Kprelude
begin

text \<open>
  The user programs \<^verbatim>\<open>grep.c\<close> and \<^verbatim>\<open>wc.c\<close>. A C string is the list of its bytes up
  to the NUL, so a test for the terminator is a test for the empty list. The results of
  \<^verbatim>\<open>read\<close> are a list of chunks, each non-empty and at most as long as the space asked
  for; the output is the list of the bytes written.
\<close>

section \<open>The matcher\<close>

abbreviation "STAR \<equiv> (42 :: byte)"
abbreviation "DOT \<equiv> (46 :: byte)"
abbreviation "CARET \<equiv> (94 :: byte)"
abbreviation "DOLLAR \<equiv> (36 :: byte)"
abbreviation "NL \<equiv> (10 :: byte)"

function (sequential) matchhere :: "byte list \<Rightarrow> byte list \<Rightarrow> bool"
  and matchstar :: "byte \<Rightarrow> byte list \<Rightarrow> byte list \<Rightarrow> bool" where
  "matchhere [] tx = True"
| "matchhere (r # re) tx =
     (if re \<noteq> [] \<and> hd re = STAR then matchstar r (tl re) tx
      else if r = DOLLAR \<and> re = [] then tx = []
      else if tx \<noteq> [] \<and> (r = DOT \<or> r = hd tx) then matchhere re (tl tx)
      else False)"
| "matchstar c re tx =
     (if matchhere re tx then True
      else if tx \<noteq> [] \<and> (hd tx = c \<or> c = DOT) then matchstar c re (tl tx)
      else False)"
  by pat_completeness auto

termination
  by (relation "measure (\<lambda>x. case x of Inl (re, t) \<Rightarrow> 2 * length re + 2 * length t
                                     | Inr (c, re, t) \<Rightarrow> 2 * length re + 2 * length t + 1)")
     (auto simp: neq_Nil_conv)

fun match_loop :: "byte list \<Rightarrow> byte list \<Rightarrow> bool" where
  "match_loop re [] = matchhere re []"
| "match_loop re (t # ts) = (matchhere re (t # ts) \<or> match_loop re ts)"

definition match_re :: "byte list \<Rightarrow> byte list \<Rightarrow> bool" where
  "match_re re tx = (if re \<noteq> [] \<and> hd re = CARET then matchhere (tl re) tx else match_loop re tx)"

declare matchhere.simps [simp del] matchstar.simps [simp del]

section \<open>What a pattern means\<close>

text \<open>
  \<open>accepts re u v\<close>: the pattern matches the text \<open>u\<close> when \<open>v\<close> follows it.
\<close>

inductive accepts :: "byte list \<Rightarrow> byte list \<Rightarrow> byte list \<Rightarrow> bool" where
  acc_empty: "accepts [] [] v"
| acc_star: "(\<forall>x \<in> set u. c = DOT \<or> x = c) \<Longrightarrow> accepts re w v \<Longrightarrow> accepts (c # STAR # re) (u @ w) v"
| acc_end: "accepts [DOLLAR] [] []"
| acc_char: "\<not> (re \<noteq> [] \<and> hd re = STAR) \<Longrightarrow> \<not> (r = DOLLAR \<and> re = []) \<Longrightarrow> r = DOT \<or> r = x \<Longrightarrow> accepts re w v \<Longrightarrow>
    accepts (r # re) (x # w) v"

inductive_cases accepts_Cons: "accepts (r # re) u v"

abbreviation accepted :: "byte list \<Rightarrow> byte list \<Rightarrow> bool" where
  "accepted re tx \<equiv> \<exists>u v. tx = u @ v \<and> accepts re u v"

abbreviation star_accepted :: "byte \<Rightarrow> byte list \<Rightarrow> byte list \<Rightarrow> bool" where
  "star_accepted c re tx \<equiv> \<exists>u w v. tx = u @ w @ v \<and> (\<forall>x \<in> set u. c = DOT \<or> x = c) \<and> accepts re w v"

lemma accepted_star: "accepted (r # STAR # re) tx \<longleftrightarrow> star_accepted r re tx"
proof -
  have a: "accepts (r # STAR # re) u v \<longleftrightarrow> (\<exists>u1 w. u = u1 @ w \<and> (\<forall>x \<in> set u1. r = DOT \<or> x = r) \<and> accepts re w v)" for u v
    by (auto intro: acc_star elim!: accepts_Cons)
  show ?thesis
  proof
    assume "accepted (r # STAR # re) tx"
    then obtain u1 w v where "tx = (u1 @ w) @ v" "\<forall>x \<in> set u1. r = DOT \<or> x = r" "accepts re w v" unfolding a by blast
    then show "star_accepted r re tx" unfolding append.assoc by blast
  next
    assume "star_accepted r re tx"
    then obtain u w v where "tx = (u @ w) @ v" "\<forall>x \<in> set u. r = DOT \<or> x = r" "accepts re w v" unfolding append.assoc by blast
    then show "accepted (r # STAR # re) tx" unfolding a by blast
  qed
qed

lemma accepted_char:
  assumes char: "\<not> (re \<noteq> [] \<and> hd re = STAR)" "\<not> (r = DOLLAR \<and> re = [])"
  shows "accepted (r # re) tx \<longleftrightarrow> tx \<noteq> [] \<and> (r = DOT \<or> r = hd tx) \<and> accepted re (tl tx)"
proof
  assume "accepted (r # re) tx"
  then obtain u v where u: "tx = u @ v" "accepts (r # re) u v" by blast
  from u(2) obtain x w where "u = x # w" "r = DOT \<or> r = x" "accepts re w v"
    by (rule accepts_Cons) (use char in auto)
  then show "tx \<noteq> [] \<and> (r = DOT \<or> r = hd tx) \<and> accepted re (tl tx)" using u(1) by auto
next
  assume a: "tx \<noteq> [] \<and> (r = DOT \<or> r = hd tx) \<and> accepted re (tl tx)"
  then obtain u v where u: "tl tx = u @ v" "accepts re u v" by blast
  then have "tx = (hd tx # u) @ v" using a by (metis append_Cons list.collapse)
  moreover have "accepts (r # re) (hd tx # u) v" using acc_char [OF char] a u(2) by simp
  ultimately show "accepted (r # re) tx" by blast
qed

lemma star_accepted_step:
  "star_accepted c re tx \<longleftrightarrow> accepted re tx \<or> (tx \<noteq> [] \<and> (hd tx = c \<or> c = DOT) \<and> star_accepted c re (tl tx))"
proof
  assume "star_accepted c re tx"
  then obtain u w v where u: "tx = u @ w @ v" "\<forall>x \<in> set u. c = DOT \<or> x = c" "accepts re w v" by blast
  show "accepted re tx \<or> (tx \<noteq> [] \<and> (hd tx = c \<or> c = DOT) \<and> star_accepted c re (tl tx))"
  proof (cases u)
    case Nil
    then show ?thesis using u by auto
  next
    case (Cons t u')
    then have "tl tx = u' @ w @ v" "tx \<noteq> []" "hd tx = c \<or> c = DOT" "\<forall>x \<in> set u'. c = DOT \<or> x = c" using u by auto
    then show ?thesis using u(3) by blast
  qed
next
  assume a: "accepted re tx \<or> (tx \<noteq> [] \<and> (hd tx = c \<or> c = DOT) \<and> star_accepted c re (tl tx))"
  show "star_accepted c re tx"
  proof (cases "accepted re tx")
    case True
    then show ?thesis by (metis append_Nil empty_iff empty_set)
  next
    case False
    with a have t: "tx \<noteq> []" "hd tx = c \<or> c = DOT" "star_accepted c re (tl tx)" by blast+
    then obtain u w v where "tl tx = u @ w @ v" "\<forall>x \<in> set u. c = DOT \<or> x = c" "accepts re w v" by blast
    then have "tx = (hd tx # u) @ w @ v \<and> (\<forall>x \<in> set (hd tx # u). c = DOT \<or> x = c) \<and> accepts re w v"
      using t(1,2) by (metis append_Cons list.collapse set_ConsD)
    then show ?thesis by blast
  qed
qed

lemma match_accepts: "matchhere re tx \<longleftrightarrow> accepted re tx" "matchstar c re tx \<longleftrightarrow> star_accepted c re tx"
proof (induction re tx and c re tx rule: matchhere_matchstar.induct)
  case (1 tx)
  then show ?case by (auto simp: matchhere.simps intro: acc_empty)
next
  case (2 r re tx)
  consider (star) "re \<noteq> [] \<and> hd re = STAR" | (dollar) "\<not> (re \<noteq> [] \<and> hd re = STAR)" "r = DOLLAR \<and> re = []"
    | (char) "\<not> (re \<noteq> [] \<and> hd re = STAR)" "\<not> (r = DOLLAR \<and> re = [])" by blast
  then show ?case
  proof cases
    case star
    then have "r # re = r # STAR # tl re" by (cases re) auto
    moreover have "matchhere (r # re) tx = matchstar r (tl re) tx" using star by (subst matchhere.simps) simp
    ultimately show ?thesis using "2.IH"(1) [OF star] accepted_star [where r = r and re = "tl re" and tx = tx] by simp
  next
    case dollar
    have "accepts [DOLLAR] u v \<longleftrightarrow> u = [] \<and> v = []" for u v by (auto intro: acc_end elim!: accepts_Cons)
    then show ?thesis using dollar by (auto simp: matchhere.simps)
  next
    case char
    then have "matchhere (r # re) tx \<longleftrightarrow> tx \<noteq> [] \<and> (r = DOT \<or> r = hd tx) \<and> matchhere re (tl tx)" by (subst matchhere.simps) auto
    then show ?thesis unfolding accepted_char [OF char] using "2.IH"(2) [OF char] by blast
  qed
next
  case (3 c re tx)
  have "matchstar c re tx \<longleftrightarrow> matchhere re tx \<or> (tx \<noteq> [] \<and> (hd tx = c \<or> c = DOT) \<and> matchstar c re (tl tx))"
    by (subst matchstar.simps) auto
  then show ?case unfolding star_accepted_step [of tx] using "3.IH" by blast
qed

lemma match_loop_iff: "match_loop re tx \<longleftrightarrow> (\<exists>u v. tx = u @ v \<and> matchhere re v)"
proof (induction tx)
  case (Cons t ts)
  then show ?case by (auto simp: Cons_eq_append_conv)
qed simp

text \<open>C29. \<^verbatim>\<open>match\<close> decides the meaning of a pattern: a match is a part of the text that
  the pattern accepts, at the beginning of the text when the pattern starts with a
  caret, and anywhere otherwise.\<close>

theorem match_correct:
  "match_re re tx \<longleftrightarrow>
     (if re \<noteq> [] \<and> hd re = CARET then \<exists>u v. tx = u @ v \<and> accepts (tl re) u v
      else \<exists>p u v. tx = p @ u @ v \<and> accepts re u v)"
proof (cases "re \<noteq> [] \<and> hd re = CARET")
  case True
  then show ?thesis by (simp add: match_re_def match_accepts(1))
next
  case False
  have "match_loop re tx \<longleftrightarrow> (\<exists>p u v. tx = p @ u @ v \<and> accepts re u v)"
    unfolding match_loop_iff match_accepts(1) by blast
  then show ?thesis using False by (auto simp: match_re_def)
qed

section \<open>\<^verbatim>\<open>grep\<close>\<close>

text \<open>
  The inner loop over the buffer from \<^verbatim>\<open>p\<close> on: the output, and the rest of the buffer
  after the last newline. \<^verbatim>\<open>strchr\<close> stops at a NUL byte in the data.
\<close>

definition line_end :: "byte list \<Rightarrow> nat option" where
  "line_end p = (if NL \<in> set (takeWhile (\<lambda>x. x \<noteq> 0) p) then Some (length (takeWhile (\<lambda>x. x \<noteq> NL) p)) else None)"

lemma line_end_less: "line_end p = Some q \<Longrightarrow> q < length p"
proof -
  assume "line_end p = Some q"
  then have q: "q = length (takeWhile (\<lambda>x. x \<noteq> NL) p)" and n: "NL \<in> set p"
    by (auto simp: line_end_def split: if_splits dest: set_takeWhileD)
  have "takeWhile (\<lambda>x. x \<noteq> NL) p \<noteq> p" using n by (metis (mono_tags, lifting) set_takeWhileD)
  then show ?thesis unfolding q by (metis length_takeWhile_le le_neq_implies_less takeWhile_eq_take take_all order_refl)
qed

function grep_lines :: "byte list \<Rightarrow> byte list \<Rightarrow> byte list \<times> byte list" where
  "grep_lines pat p =
     (case line_end p of
        None \<Rightarrow> ([], p)
      | Some q \<Rightarrow>
          let (out, rest) = grep_lines pat (drop (Suc q) p)
          in ((if match_re pat (take q p) then take (Suc q) p else []) @ out, rest))"
  by pat_completeness auto

termination
  by (relation "measure (\<lambda>(pat, p). length p)") (auto dest: line_end_less)

declare grep_lines.simps [simp del]

text \<open>
  \<^verbatim>\<open>read\<close> of at most \<open>n\<close> bytes from a file that has \<open>cs\<close> to offer, one piece at a time:
  at most \<open>n\<close> bytes of the first piece, the rest of which stays. No bytes mean the end.
\<close>

fun read_bytes :: "nat \<Rightarrow> byte list list \<Rightarrow> byte list \<times> byte list list" where
  "read_bytes n [] = ([], [])"
| "read_bytes n (c # cs) = (take n c, if length c \<le> n then cs else drop n c # cs)"

text \<open>
  The outer loop: \<open>b\<close> is what is left in the buffer of 1024 bytes, one of which is for the NUL.
  When no newline was found the whole buffer is dropped (\<^verbatim>\<open>m = 0\<close>).
\<close>

abbreviation BUFSIZE :: nat where "BUFSIZE \<equiv> 1024"

function grep_loop :: "byte list \<Rightarrow> byte list \<Rightarrow> byte list list \<Rightarrow> byte list" where
  "grep_loop pat b cs =
     (let (c, cs') = read_bytes (BUFSIZE - length b - 1) cs
      in if c = [] then []
         else let (out, rest) = grep_lines pat (b @ c)
              in out @ grep_loop pat (if rest = b @ c then [] else rest) cs')"
  by pat_completeness auto

termination
proof (relation "measure (\<lambda>(pat, b, cs). length (concat cs))")
  fix pat b :: "byte list" and cs :: "byte list list" and x c cs' y out rest
  assume x: "x = read_bytes (BUFSIZE - length b - 1) cs" "(c, cs') = x" "c \<noteq> []"
  have "length (concat cs') < length (concat cs)" using x by (cases cs) (auto split: if_splits)
  then show "((pat, if rest = b @ c then [] else rest, cs'), pat, b, cs) \<in> measure (\<lambda>(pat, b, cs). length (concat cs))" by simp
qed simp

declare grep_loop.simps [simp del]

definition grep :: "byte list \<Rightarrow> byte list list \<Rightarrow> byte list" where
  "grep pat cs = grep_loop pat [] cs"

section \<open>\<^verbatim>\<open>wc\<close>\<close>

definition is_space :: "byte \<Rightarrow> bool" where
  "is_space x \<longleftrightarrow> x \<in> {32, 13, 9, 10, 11}"

text \<open>One byte: lines, words, characters, and whether inside a word.\<close>

fun wc_byte :: "byte \<Rightarrow> int \<times> int \<times> int \<times> bool \<Rightarrow> int \<times> int \<times> int \<times> bool" where
  "wc_byte x (l, w, c, inword) =
     (let c = s32 (c + 1); l = (if x = NL then s32 (l + 1) else l)
      in if is_space x then (l, w, c, False)
         else if \<not> inword then (l, s32 (w + 1), c, True)
         else (l, w, c, inword))"

definition wc :: "byte list list \<Rightarrow> int \<times> int \<times> int" where
  "wc chunks = (let (l, w, c, _) = fold (\<lambda>chunk st. fold wc_byte chunk st) chunks (0, 0, 0, False) in (l, w, c))"

text \<open>The words of a text: its maximal pieces without space, counted where they begin.\<close>

fun word_count :: "bool \<Rightarrow> byte list \<Rightarrow> nat" where
  "word_count inword [] = 0"
| "word_count inword (x # xs) =
     (if is_space x then word_count False xs else if inword then word_count True xs else Suc (word_count True xs))"

lemma fold_chunks: "fold (\<lambda>chunk st. fold f chunk st) chunks st = fold f (concat chunks) st"
  by (induction chunks arbitrary: st) simp_all

lemma wc_bytes:
  assumes "nl + length xs < 2 ^ 31" and "nw + length xs < 2 ^ 31" and "nc + length xs < 2 ^ 31"
  shows "\<exists>b'. fold wc_byte xs (int nl, int nw, int nc, b) =
    (int (nl + count_list xs NL), int (nw + word_count b xs), int (nc + length xs), b')"
  using assms
proof (induction xs arbitrary: nl nw nc b)
  case (Cons x xs)
  have s: "s32 (int k + 1) = int (Suc k)" if "k + length (x # xs) < 2 ^ 31" for k using that by simp
  let ?nl = "if x = NL then Suc nl else nl" and ?nw = "if \<not> is_space x \<and> \<not> b then Suc nw else nw"
  have "\<exists>b'. fold wc_byte xs (int ?nl, int ?nw, int (Suc nc), \<not> is_space x) =
    (int (?nl + count_list xs NL), int (?nw + word_count (\<not> is_space x) xs), int (Suc nc + length xs), b')"
    by (rule Cons.IH) (use Cons.prems in auto)
  moreover have "wc_byte x (int nl, int nw, int nc, b) = (int ?nl, int ?nw, int (Suc nc), \<not> is_space x)"
    using s [OF Cons.prems(1)] s [OF Cons.prems(2)] s [OF Cons.prems(3)] by (auto simp: Let_def)
  ultimately show ?case by (auto simp del: wc_byte.simps)
qed simp

section \<open>The programs on whole lines\<close>

definition unlines :: "byte list list \<Rightarrow> byte list" where
  "unlines ls = concat (map (\<lambda>l. l @ [NL]) ls)"

lemma line_end_here: "NL \<notin> set l \<Longrightarrow> 0 \<notin> set l \<Longrightarrow> line_end (l @ NL # r) = Some (length l)"
proof -
  assume "NL \<notin> set l" "0 \<notin> set l"
  then have "\<forall>x \<in> set l. x \<noteq> 0" "\<forall>x \<in> set l. x \<noteq> NL" by auto
  then show ?thesis by (simp add: line_end_def takeWhile_append2)
qed

definition line_ok :: "byte list \<Rightarrow> bool" where
  "line_ok l \<longleftrightarrow> NL \<notin> set l \<and> 0 \<notin> set l"

lemma unlines_simps [simp]: "unlines [] = []" "unlines (l # ls) = l @ NL # unlines ls"
  by (simp_all add: unlines_def)

lemma grep_lines_unlines:
  "\<forall>l \<in> set ls. line_ok l \<Longrightarrow> line_ok t \<Longrightarrow> grep_lines pat (unlines ls @ t) = (unlines (filter (match_re pat) ls), t)"
proof (induction ls)
  case Nil
  then show ?case by (subst grep_lines.simps) (auto simp: line_end_def line_ok_def dest: set_takeWhileD)
next
  case (Cons l ls)
  then show ?case using line_end_here [of l "unlines ls @ t"] by (subst grep_lines.simps) (simp add: line_ok_def)
qed

text \<open>Every text is a list of lines and an unfinished one, in one way only.\<close>

definition last_line :: "byte list \<Rightarrow> byte list" where
  "last_line xs = rev (takeWhile (\<lambda>x. x \<noteq> NL) (rev xs))"

lemma NL_split: "NL \<notin> set l \<Longrightarrow> NL \<notin> set l' \<Longrightarrow> l @ NL # r = l' @ NL # r' \<longleftrightarrow> l = l' \<and> r = r'"
proof
  assume n: "NL \<notin> set l" "NL \<notin> set l'" and e: "l @ NL # r = l' @ NL # r'"
  have "takeWhile (\<lambda>x. x \<noteq> NL) (k @ NL # q) = k" if "NL \<notin> set k" for k q
    using that by (subst takeWhile_append2) auto
  then have "l = l'" using n e by metis
  then show "l = l' \<and> r = r'" using e by simp
qed simp

lemma unlines_prefix:
  assumes "\<forall>l \<in> set ls1. NL \<notin> set l" "\<forall>l \<in> set ls. NL \<notin> set l" "NL \<notin> set t" "unlines ls1 @ r = unlines ls @ t"
  shows "\<exists>ls2. ls = ls1 @ ls2 \<and> r = unlines ls2 @ t"
  using assms
proof (induction ls1 arbitrary: ls)
  case (Cons l ls1)
  have "ls \<noteq> []" using Cons.prems(3,4) by auto
  then obtain l' ls' where ls: "ls = l' # ls'" by (cases ls) auto
  have "l = l' \<and> unlines ls1 @ r = unlines ls' @ t" using Cons.prems NL_split [of l l' "unlines ls1 @ r" "unlines ls' @ t"] ls by simp
  then show ?case using Cons.IH [of ls'] Cons.prems ls by auto
qed simp

lemma last_line_NL: "NL \<notin> set (last_line xs)"
  by (auto simp: last_line_def dest: set_takeWhileD)

lemma last_line_snoc: "last_line (xs @ [x]) = (if x = NL then [] else last_line xs @ [x])"
  by (simp add: last_line_def)

lemma lines_of: "\<exists>ls. xs = unlines ls @ last_line xs \<and> (\<forall>l \<in> set ls. NL \<notin> set l)"
proof (induction xs rule: rev_induct)
  case Nil
  then show ?case by (intro exI [of _ "[]"]) (simp add: last_line_def)
next
  case (snoc x xs)
  then obtain ls where ls: "xs = unlines ls @ last_line xs" "\<forall>l \<in> set ls. NL \<notin> set l" by blast
  show ?case
  proof (cases "x = NL")
    case True
    have "xs @ [x] = unlines (ls @ [last_line xs])" using ls(1) True by (simp add: unlines_def)
    then show ?thesis using ls(2) last_line_NL [of xs] True last_line_snoc [of xs x] by (intro exI [of _ "ls @ [last_line xs]"]) auto
  next
    case False
    then have "xs @ [x] = unlines ls @ last_line (xs @ [x])" using ls(1) last_line_snoc [of xs x] by (metis append.assoc)
    then show ?thesis using ls(2) by blast
  qed
qed

text \<open>
  The reads that \<^verbatim>\<open>grep\<close> can take: with the unfinished line before it a piece fits the
  buffer, and every piece but the last holds a newline.
\<close>

fun reads_fit :: "byte list \<Rightarrow> byte list list \<Rightarrow> bool" where
  "reads_fit b [] \<longleftrightarrow> True"
| "reads_fit b (c # cs) \<longleftrightarrow> c \<noteq> [] \<and> length (b @ c) < BUFSIZE \<and> (cs \<noteq> [] \<longrightarrow> NL \<in> set c) \<and> reads_fit (last_line (b @ c)) cs"

lemma grep_loop_step:
  assumes "c \<noteq> []" "length (b @ c) < BUFSIZE" "grep_lines pat (b @ c) = (out, rest)"
  shows "grep_loop pat b (c # cs) = out @ grep_loop pat (if rest = b @ c then [] else rest) cs"
proof -
  have "length c \<le> BUFSIZE - length b - 1" using assms(2) unfolding length_append by linarith
  then show ?thesis using assms(1,3) by (subst grep_loop.simps) simp
qed

lemma grep_loop_Nil: "grep_loop pat b [] = []"
  by (subst grep_loop.simps) simp

lemma grep_loop_lines:
  assumes "reads_fit b cs" "b @ concat cs = unlines ls @ t" "\<forall>l \<in> set ls. line_ok l" "line_ok t" "NL \<notin> set b"
  shows "grep_loop pat b cs = unlines (filter (match_re pat) ls)"
  using assms
proof (induction cs arbitrary: b ls)
  case Nil
  have "ls = []" using Nil.prems(2,5) by (cases ls) auto
  then show ?case by (simp add: grep_loop_Nil)
next
  case (Cons c cs)
  let ?t = "last_line (b @ c)"
  obtain ls1 where ls1: "b @ c = unlines ls1 @ ?t" "\<forall>l \<in> set ls1. NL \<notin> set l" using lines_of by blast
  have "unlines ls1 @ ?t @ concat cs = unlines ls @ t" using Cons.prems(2) ls1(1) by (metis append.assoc concat.simps(2))
  with unlines_prefix [OF ls1(2), of ls t "?t @ concat cs"] Cons.prems(3,4) obtain ls2 where
    ls2: "ls = ls1 @ ls2" "?t @ concat cs = unlines ls2 @ t" by (auto simp: line_ok_def)
  have "0 \<notin> set (b @ c @ concat cs)" using Cons.prems(2-4) by (auto simp: line_ok_def unlines_def)
  then have t: "line_ok ?t" using last_line_NL [of "b @ c"] ls1(1) by (metis Un_iff append.assoc line_ok_def set_append)
  have "grep_lines pat (b @ c) = (unlines (filter (match_re pat) ls1), ?t)"
    using grep_lines_unlines [of ls1 ?t pat] ls1(1) t Cons.prems(3) ls2(1) by simp
  then have s: "grep_loop pat b (c # cs) = unlines (filter (match_re pat) ls1) @ grep_loop pat (if ?t = b @ c then [] else ?t) cs"
    using Cons.prems(1) by (intro grep_loop_step) simp_all
  have u: "unlines (filter (match_re pat) ls) = unlines (filter (match_re pat) ls1) @ unlines (filter (match_re pat) ls2)"
    by (simp add: ls2(1) unlines_def)
  show ?case
  proof (cases "cs = []")
    case True
    have "ls2 = []" using ls2(2) True last_line_NL [of "b @ c"] by (cases ls2) auto
    then show ?thesis using s u True by (simp add: grep_loop_Nil)
  next
    case False
    then have "?t \<noteq> b @ c" using Cons.prems(1) last_line_NL [of "b @ c"] by auto
    moreover have "grep_loop pat ?t cs = unlines (filter (match_re pat) ls2)"
      by (rule Cons.IH) (use Cons.prems ls2 last_line_NL in auto)
    ultimately show ?thesis using s u by simp
  qed
qed

text \<open>C30. On a text of lines without NUL, with or without an unfinished last line, \<^verbatim>\<open>grep\<close>
  prints exactly the complete lines that match, in order, wherever \<^verbatim>\<open>read\<close> cuts the text:
  also in the middle of lines, as long as every read but the last contains a newline and, with the
  unfinished line before it, fits the buffer.\<close>

theorem grep_prints_matches:
  assumes "concat cs = unlines ls @ t" and "\<forall>l \<in> set ls. line_ok l" and "line_ok t" and "reads_fit [] cs"
  shows "grep pat cs = unlines (filter (match_re pat) ls)"
  unfolding grep_def by (rule grep_loop_lines [OF assms(4) _ assms(2,3)]) (use assms(1) in simp_all)

theorem grep_prints_matches_witness:
  "grep [97, STAR, 98, DOLLAR] [[97, 97, 98, NL, 99], [99, NL, 98], [NL, 97]] = [97, 97, 98, NL, 98, NL]"
proof -
  have "match_re [97, STAR, 98, DOLLAR] [97, 97, 98]" "\<not> match_re [97, STAR, 98, DOLLAR] [99, 99]" "match_re [97, STAR, 98, DOLLAR] [98]"
    by (simp_all add: match_re_def matchhere.simps matchstar.simps)
  then show ?thesis
    using grep_prints_matches [of "[[97, 97, 98, NL, 99], [99, NL, 98], [NL, 97]]" "[[97, 97, 98], [99, 99], [98]]" "[97]" "[97, STAR, 98, DOLLAR]"]
    by (simp add: line_ok_def last_line_def)
qed

text \<open>A read without a newline is forgotten, even if the line goes on in the next read.\<close>

lemma grep_forgets:
  assumes "NL \<notin> set (b @ c)" "c \<noteq> []" "length (b @ c) < BUFSIZE"
  shows "grep_loop pat b (c # cs) = grep_loop pat [] cs"
proof -
  have "line_end (b @ c) = None" using assms(1) by (auto simp: line_end_def dest: set_takeWhileD)
  then have "grep_lines pat (b @ c) = ([], b @ c)" by (simp add: grep_lines.simps)
  from grep_loop_step [OF assms(2,3) this] show ?thesis by simp
qed

text \<open>\<^verbatim>\<open>wc\<close> counts lines, words and bytes, however the input is cut into reads.\<close>

lemma wc_counts:
  assumes "length (concat chunks) < 2 ^ 31"
  shows "wc chunks = (int (count_list (concat chunks) NL), int (word_count False (concat chunks)), int (length (concat chunks)))"
  using wc_bytes [of 0 "concat chunks" 0 0 False] assms by (auto simp: wc_def fold_chunks)

end
