(* ===== verification/Pipe.thy ===== *)
theory Pipe
  imports Kprelude
begin

text \<open>
  Pipes (\<^verbatim>\<open>pipe.c\<close>). The counters are 32-bit and wrap; \<^verbatim>\<open>data\<close> is a ring of 512 bytes.
  A call of \<^verbatim>\<open>pipewrite\<close> or \<^verbatim>\<open>piperead\<close> runs with the pipe's lock held until it
  returns or sleeps, so a call is a sequence of runs; a run ends in \<open>Ret n\<close> or in
  \<open>Sleep ch\<close> with the bytes still to be written, and after being woken the caller
  runs again from the test of its loop. The channels woken by a run are part of its
  result, and \<open>killed\<close> is that flag of the calling process.
\<close>

abbreviation PIPESIZE :: nat where "PIPESIZE \<equiv> 512"

record pipe =
  data :: "nat \<Rightarrow> byte"
  nread :: u32
  nwrite :: u32
  readopen :: bool
  writeopen :: bool

datatype pipe_chan = Chan_nread | Chan_nwrite

datatype 'a outcome = Ret int | Sleep pipe_chan 'a

text \<open>The fields that \<^verbatim>\<open>pipealloc\<close> sets; the bytes of the new page are what they are.\<close>

definition new_pipe :: "(nat \<Rightarrow> byte) \<Rightarrow> pipe" where
  "new_pipe junk = \<lparr>data = junk, nread = 0, nwrite = 0, readopen = True, writeopen = True\<rparr>"

definition pipe_put :: "byte \<Rightarrow> pipe \<Rightarrow> pipe" where
  "pipe_put x p = p\<lparr>data := (data p)(unat (nwrite p mod 512) := x), nwrite := nwrite p + 1\<rparr>"

fun pipewrite :: "bool \<Rightarrow> int \<Rightarrow> byte list \<Rightarrow> pipe \<Rightarrow> byte list outcome \<times> pipe_chan list \<times> pipe" where
  "pipewrite killed n [] p = (Ret n, [Chan_nread], p)"
| "pipewrite killed n (x # xs) p =
     (if nwrite p = nread p + 512
      then if \<not> readopen p \<or> killed then (Ret (- 1), [], p)
           else (Sleep Chan_nwrite (x # xs), [Chan_nread], p)
      else pipewrite killed n xs (pipe_put x p))"

text \<open>The copying loop of \<^verbatim>\<open>piperead\<close>: the bytes stored at \<^verbatim>\<open>addr\<close>.\<close>

fun piperead_copy :: "nat \<Rightarrow> pipe \<Rightarrow> byte list \<times> pipe" where
  "piperead_copy 0 p = ([], p)"
| "piperead_copy (Suc k) p =
     (if nread p = nwrite p then ([], p)
      else let x = data p (unat (nread p mod 512));
               (xs, p1) = piperead_copy k (p\<lparr>nread := nread p + 1\<rparr>)
           in (x # xs, p1))"

definition piperead :: "bool \<Rightarrow> int \<Rightarrow> pipe \<Rightarrow> unit outcome \<times> byte list \<times> pipe_chan list \<times> pipe" where
  "piperead killed n p =
     (if nread p = nwrite p \<and> writeopen p
      then if killed then (Ret (- 1), [], [], p) else (Sleep Chan_nread (), [], [], p)
      else let (xs, p1) = piperead_copy (nat n) p in (Ret (int (length xs)), xs, [Chan_nwrite], p1))"

text \<open>\<^verbatim>\<open>pipeclose\<close>: whether the page is freed, the channel woken, and the pipe.\<close>

definition pipeclose :: "bool \<Rightarrow> pipe \<Rightarrow> bool \<times> pipe_chan \<times> pipe" where
  "pipeclose writable p =
     (let p1 = (if writable then p\<lparr>writeopen := False\<rparr> else p\<lparr>readopen := False\<rparr>)
      in (\<not> readopen p1 \<and> \<not> writeopen p1, if writable then Chan_nread else Chan_nwrite, p1))"

section \<open>The bytes in flight\<close>

definition slot :: "u32 \<Rightarrow> nat \<Rightarrow> nat" where
  "slot a i = unat ((a + of_nat i) mod 512)"

lemma slot_eq: "slot a i = (unat a + i) mod 512"
proof -
  have "unat (a + of_nat i :: u32) = (unat a + i) mod 4294967296"
    by (simp add: unat_word_ariths unat_of_nat mod_add_right_eq)
  then have "slot a i = (unat a + i) mod 4294967296 mod 512" by (simp add: slot_def unat_mod)
  also have "\<dots> = (unat a + i) mod 512" by (rule mod_mod_cancel) simp
  finally show ?thesis .
qed

lemma mod_shift_inj:
  fixes m i j n :: nat
  assumes "i < n" "j < n" and "(m + i) mod n = (m + j) mod n"
  shows "i = j"
proof (rule ccontr)
  assume ij: "i \<noteq> j"
  have "int (m + i) mod int n = int (m + j) mod int n" using arg_cong [OF assms(3), of int] by (simp only: zmod_int)
  then have "int n dvd int (m + i) - int (m + j)" by (simp only: mod_eq_dvd_iff)
  then have "int n dvd int i - int j" by simp
  then have "\<bar>int n\<bar> \<le> \<bar>int i - int j\<bar>" using ij by (intro dvd_imp_le_int) simp_all
  then show False using assms(1,2) by linarith
qed

lemma ring_slot_inj:
  assumes "i < 512" "j < 512"
  shows "slot a i = slot a j \<longleftrightarrow> i = j"
  using mod_shift_inj [OF assms, of "unat a"] by (auto simp: slot_eq)

definition pipe_rep :: "pipe \<Rightarrow> byte list \<Rightarrow> bool" where
  "pipe_rep p q \<longleftrightarrow> length q \<le> 512 \<and> nwrite p = nread p + of_nat (length q) \<and>
     (\<forall>i < length q. data p (slot (nread p) i) = q ! i)"

lemma pipe_rep_new: "pipe_rep (new_pipe junk) []"
  by (simp add: pipe_rep_def new_pipe_def)

lemma pipe_full: "pipe_rep p q \<Longrightarrow> nwrite p = nread p + 512 \<longleftrightarrow> length q = 512"
proof -
  assume "pipe_rep p q"
  then have q: "length q \<le> 512" "nwrite p = nread p + of_nat (length q)" by (simp_all add: pipe_rep_def)
  have "(of_nat (length q) :: u32) = 512 \<longleftrightarrow> length q = 512"
    using q(1) by (auto simp: word_unat_eq_iff unat_of_nat)
  then show ?thesis using q(2) by simp
qed

lemma pipe_empty: "pipe_rep p q \<Longrightarrow> nread p = nwrite p \<longleftrightarrow> q = []"
proof -
  assume "pipe_rep p q"
  then have q: "length q \<le> 512" "nwrite p = nread p + of_nat (length q)" by (simp_all add: pipe_rep_def)
  have "(of_nat (length q) :: u32) = 0 \<longleftrightarrow> length q = 0"
    using q(1) by (auto simp: word_unat_eq_iff unat_of_nat)
  then show ?thesis using q(2) by simp
qed

lemma pipe_rep_put:
  assumes r: "pipe_rep p q" and l: "length q < 512"
  shows "pipe_rep (pipe_put x p) (q @ [x])"
proof -
  have nw: "nwrite p = nread p + of_nat (length q)" using r by (simp add: pipe_rep_def)
  then have s: "unat (nwrite p mod 512) = slot (nread p) (length q)" by (simp add: slot_def)
  have "data (pipe_put x p) (slot (nread p) i) = (q @ [x]) ! i" if "i < length (q @ [x])" for i
  proof (cases "i = length q")
    case True
    then show ?thesis by (simp add: pipe_put_def s)
  next
    case False
    then have i: "i < length q" using that by simp
    then have "slot (nread p) i \<noteq> slot (nread p) (length q)" using ring_slot_inj [of i "length q" "nread p"] l by simp
    moreover have "data p (slot (nread p) i) = q ! i" using r i by (simp add: pipe_rep_def)
    ultimately show ?thesis using i by (simp add: pipe_put_def s nth_append)
  qed
  then show ?thesis using l nw by (simp add: pipe_rep_def pipe_put_def)
qed

lemma pipe_rep_get:
  assumes "pipe_rep p (x # q)"
  shows "data p (unat (nread p mod 512)) = x" "pipe_rep (p\<lparr>nread := nread p + 1\<rparr>) q"
proof -
  have r: "length q < 512" "nwrite p = nread p + of_nat (length (x # q))" "\<forall>i < length (x # q). data p (slot (nread p) i) = (x # q) ! i"
    using assms by (simp_all add: pipe_rep_def)
  show "data p (unat (nread p mod 512)) = x" using r(3) [rule_format, of 0] by (simp add: slot_def)
  have "slot (nread p + 1) i = slot (nread p) (Suc i)" for i by (simp add: slot_def add.assoc)
  then show "pipe_rep (p\<lparr>nread := nread p + 1\<rparr>) q" using r(1,2) r(3) [rule_format, of "Suc i" for i] by (simp add: pipe_rep_def add.assoc)
qed

lemma pipe_rep_flags [simp]: "pipe_rep (p\<lparr>writeopen := a\<rparr>) q = pipe_rep p q" "pipe_rep (p\<lparr>readopen := b\<rparr>) q = pipe_rep p q"
  by (simp_all add: pipe_rep_def)

lemma pipe_put_flags [simp]: "readopen (pipe_put x p) = readopen p" "writeopen (pipe_put x p) = writeopen p"
  "nread (pipe_put x p) = nread p"
  by (simp_all add: pipe_put_def)

section \<open>Runs\<close>

text \<open>
  A run of \<^verbatim>\<open>pipewrite\<close> stores a prefix of its bytes behind those in flight: all of them
  when it returns \<open>n\<close>, and otherwise as many as fit.
\<close>

definition write_outcome :: "bool \<Rightarrow> int \<Rightarrow> byte list \<Rightarrow> nat \<Rightarrow> bool \<Rightarrow> byte list outcome \<times> pipe_chan list" where
  "write_outcome killed n xs room ropen =
     (if length xs \<le> room then (Ret n, [Chan_nread])
      else if ropen \<and> \<not> killed then (Sleep Chan_nwrite (drop room xs), [Chan_nread])
      else (Ret (- 1), []))"

lemma pipewrite_spec:
  assumes "pipe_rep p q"
  shows "\<exists>p'. pipewrite killed n xs p =
      (fst (write_outcome killed n xs (512 - length q) (readopen p)), snd (write_outcome killed n xs (512 - length q) (readopen p)), p') \<and>
    pipe_rep p' (q @ take (512 - length q) xs) \<and> nread p' = nread p \<and> readopen p' = readopen p \<and> writeopen p' = writeopen p"
  using assms
proof (induction xs arbitrary: p q)
  case Nil
  then show ?case by (simp add: write_outcome_def)
next
  case (Cons x xs)
  show ?case
  proof (cases "length q = 512")
    case True
    then have "nwrite p = nread p + 512" using pipe_full [OF Cons.prems] by simp
    then show ?thesis using Cons.prems True by (auto simp: write_outcome_def)
  next
    case False
    then have l: "length q < 512" "nwrite p \<noteq> nread p + 512" using Cons.prems pipe_full [OF Cons.prems] by (auto simp: pipe_rep_def)
    then obtain k where k: "512 - length q = Suc k" "512 - length (q @ [x]) = k" by (cases "512 - length q") auto
    note IH = Cons.IH [OF pipe_rep_put [OF Cons.prems l(1), of x], unfolded pipe_put_flags k(2)]
    have "write_outcome killed n (x # xs) (Suc k) b = write_outcome killed n xs k b" for b by (simp add: write_outcome_def)
    then show ?thesis unfolding k(1) using IH l(2) by simp
  qed
qed

lemma piperead_copy_spec:
  "pipe_rep p q \<Longrightarrow> \<exists>p'. piperead_copy k p = (take k q, p') \<and> pipe_rep p' (drop k q) \<and>
    readopen p' = readopen p \<and> writeopen p' = writeopen p"
proof (induction k arbitrary: p q)
  case (Suc k)
  show ?case
  proof (cases q)
    case Nil
    then show ?thesis using Suc.prems pipe_empty [OF Suc.prems] by simp
  next
    case (Cons x ys)
    note g = pipe_rep_get [OF Suc.prems [unfolded Cons]]
    from Suc.IH [OF g(2)] obtain p' where
      "piperead_copy k (p\<lparr>nread := nread p + 1\<rparr>) = (take k ys, p')" "pipe_rep p' (drop k ys)"
      "readopen p' = readopen p" "writeopen p' = writeopen p" by auto
    then show ?thesis using g(1) Cons pipe_empty [OF Suc.prems] by simp
  qed
qed simp

lemma piperead_spec:
  assumes "pipe_rep p q"
  shows "\<exists>r xs ws p'. piperead killed n p = (r, xs, ws, p') \<and> pipe_rep p' (drop (length xs) q) \<and> xs = take (length xs) q \<and>
    readopen p' = readopen p \<and> writeopen p' = writeopen p \<and>
    (if q = [] \<and> writeopen p then xs = [] \<and> r = (if killed then Ret (- 1) else Sleep Chan_nread ())
     else xs = take (nat n) q \<and> r = Ret (int (length xs)) \<and> ws = [Chan_nwrite])"
proof (cases "q = [] \<and> writeopen p")
  case True
  then show ?thesis using assms pipe_empty [OF assms] by (auto simp: piperead_def)
next
  case False
  from piperead_copy_spec [OF assms, of "nat n"] obtain p' where
    "piperead_copy (nat n) p = (take (nat n) q, p')" "pipe_rep p' (drop (nat n) q)"
    "readopen p' = readopen p" "writeopen p' = writeopen p" by blast
  moreover have "drop (min (length q) (nat n)) q = drop (nat n) q" "take (min (length q) (nat n)) q = take (nat n) q"
    by (simp_all add: min_def)
  ultimately show ?thesis using False pipe_empty [OF assms] by (auto simp: piperead_def min.commute)
qed

section \<open>Histories\<close>

text \<open>
  The pipe with the bytes accepted from writers so far and the bytes delivered to
  readers so far, under runs of any callers in any order.
\<close>

type_synonym pipe_hist = "pipe \<times> byte list \<times> byte list"

inductive pipe_step :: "pipe_hist \<Rightarrow> pipe_hist \<Rightarrow> bool" where
  ps_write: "pipewrite killed n xs p = (r, ws, p') \<Longrightarrow>
    pipe_step (p, W, R) (p', W @ take (unat (nwrite p' - nwrite p)) xs, R)"
| ps_read: "piperead killed n p = (r, xs, ws, p') \<Longrightarrow> pipe_step (p, W, R) (p', W, R @ xs)"
| ps_close: "pipeclose writable p = (f, ch, p') \<Longrightarrow> pipe_step (p, W, R) (p', W, R)"

inductive_cases pipe_stepE: "pipe_step (p, W, R) h"

definition pipe_inv :: "pipe_hist \<Rightarrow> bool" where
  "pipe_inv h = (case h of (p, W, R) \<Rightarrow> \<exists>q. pipe_rep p q \<and> W = R @ q)"

lemma pipewrite_accepts:
  assumes "pipe_rep p q" and "pipewrite killed n xs p = (r, ws, p')"
  shows "pipe_rep p' (q @ take (unat (nwrite p' - nwrite p)) xs)"
proof -
  let ?ys = "take (512 - length q) xs"
  from pipewrite_spec [OF assms(1), of killed n xs] assms(2) have
    y: "pipe_rep p' (q @ ?ys)" "nread p' = nread p" by auto
  then have "nwrite p' - nwrite p = of_nat (length ?ys)" using assms(1) by (simp add: pipe_rep_def)
  moreover have "length ?ys \<le> 512" by simp
  ultimately have "unat (nwrite p' - nwrite p) = length ?ys" by (simp add: unat_of_nat)
  then have "take (unat (nwrite p' - nwrite p)) xs = ?ys" by (simp add: min_def)
  then show ?thesis using y by simp
qed

lemma pipe_step_inv:
  assumes "pipe_step h h'" and "pipe_inv h"
  shows "pipe_inv h'"
  using assms
proof (induction rule: pipe_step.induct)
  case (ps_write killed n xs p r ws p' W R)
  then show ?case using pipewrite_accepts [OF _ ps_write(1)] by (auto simp: pipe_inv_def)
next
  case (ps_read killed n p r xs ws p' W R)
  then obtain q where q: "pipe_rep p q" "W = R @ q" by (auto simp: pipe_inv_def)
  from piperead_spec [OF q(1), of killed n] ps_read(1) have
    "pipe_rep p' (drop (length xs) q)" "xs = take (length xs) q" by auto
  then have "pipe_rep p' (drop (length xs) q) \<and> W = (R @ xs) @ drop (length xs) q"
    using q(2) append_take_drop_id [of "length xs" q] by simp
  then show ?case unfolding pipe_inv_def by blast
next
  case (ps_close writable p f ch p' W R)
  then show ?case by (auto simp: pipe_inv_def pipeclose_def Let_def split: if_splits)
qed

lemma pipe_reach_inv: "pipe_step\<^sup>*\<^sup>* h h' \<Longrightarrow> pipe_inv h \<Longrightarrow> pipe_inv h'"
  by (induction rule: rtranclp_induct) (auto intro: pipe_step_inv)

text \<open>C25. A pipe is a byte stream: whatever writers, readers and closers do in any order, and
  although the counters wrap, the bytes delivered are a prefix of the bytes accepted, in
  order, and at most 512 bytes are in flight.\<close>

theorem pipe_is_stream:
  assumes "pipe_step\<^sup>*\<^sup>* (new_pipe junk, [], []) (p, W, R)"
  shows "\<exists>q. W = R @ q \<and> length q \<le> 512"
proof -
  have "pipe_inv (new_pipe junk, [], [])" using pipe_rep_new by (auto simp: pipe_inv_def)
  from pipe_reach_inv [OF assms this] show ?thesis by (auto simp: pipe_inv_def pipe_rep_def)
qed

theorem pipe_is_stream_witness:
  "\<exists>p R q. pipe_step\<^sup>*\<^sup>* (new_pipe (\<lambda>_. 0), [], []) (p, [1, 2, 3], R) \<and> R = [1, 2] \<and> [1, 2, 3] = R @ q"
proof -
  let ?p1 = "pipe_put 3 (pipe_put 2 (pipe_put 1 (new_pipe (\<lambda>_. 0))))"
  have nw: "nwrite ?p1 = 3" "nread ?p1 = 0" by (simp_all add: pipe_put_def new_pipe_def)
  have "pipewrite False 3 [1, 2, 3] (new_pipe (\<lambda>_. 0)) = (Ret 3, [Chan_nread], ?p1)" by (simp add: pipe_put_def new_pipe_def)
  from ps_write [OF this, of "[]" "[]"] have 1: "pipe_step (new_pipe (\<lambda>_. 0), [], []) (?p1, [1, 2, 3], [])"
    using nw by (simp add: new_pipe_def)
  have rep: "pipe_rep ?p1 (([] @ [1]) @ [2] @ [3])"
    using pipe_rep_put [OF pipe_rep_put [OF pipe_rep_put [OF pipe_rep_new]]] by simp
  from piperead_spec [OF rep, of False 2] obtain r ws p' where "piperead False 2 ?p1 = (r, [1, 2], ws, p')" by auto
  from ps_read [OF this, of "[1, 2, 3]" "[]"] have 2: "pipe_step (?p1, [1, 2, 3], []) (p', [1, 2, 3], [1, 2])" by simp
  have "pipe_step\<^sup>*\<^sup>* (new_pipe (\<lambda>_. 0), [], []) (p', [1, 2, 3], [1, 2])"
    using 1 2 by (meson rtranclp.rtrancl_into_rtrancl rtranclp.rtrancl_refl)
  with pipe_is_stream [OF this] show ?thesis by blast
qed

text \<open>C26. A writer waits only when 512 bytes are in flight and a reader only when none is and
  the write end is open; a write that returns its count has stored all its bytes, and a
  read with the write end closed returns what is left, then 0.\<close>

theorem pipe_blocks_exactly:
  assumes "pipe_rep p q"
  shows "\<exists>p' p''. pipewrite killed n xs p =
      (if length q + length xs \<le> 512 then (Ret n, [Chan_nread], p')
       else if readopen p \<and> \<not> killed then (Sleep Chan_nwrite (drop (512 - length q) xs), [Chan_nread], p')
       else (Ret (- 1), [], p')) \<and>
    pipe_rep p' (q @ take (512 - length q) xs) \<and>
    piperead killed n' p =
      (if q = [] \<and> writeopen p then (if killed then Ret (- 1) else Sleep Chan_nread (), [], [], p)
       else (Ret (int (length (take (nat n') q))), take (nat n') q, [Chan_nwrite], p'')) \<and>
    (q = [] \<and> writeopen p \<or> pipe_rep p'' (drop (nat n') q))"
proof -
  from pipewrite_spec [OF assms, of killed n xs] obtain p' where
    w: "pipewrite killed n xs p =
      (fst (write_outcome killed n xs (512 - length q) (readopen p)), snd (write_outcome killed n xs (512 - length q) (readopen p)), p')"
    "pipe_rep p' (q @ take (512 - length q) xs)" by blast
  have "length q + length xs \<le> 512 \<longleftrightarrow> length xs \<le> 512 - length q" using assms by (auto simp: pipe_rep_def)
  then have "pipewrite killed n xs p =
      (if length q + length xs \<le> 512 then (Ret n, [Chan_nread], p')
       else if readopen p \<and> \<not> killed then (Sleep Chan_nwrite (drop (512 - length q) xs), [Chan_nread], p')
       else (Ret (- 1), [], p'))" using w(1) by (simp add: write_outcome_def)
  moreover from piperead_copy_spec [OF assms, of "nat n'"] obtain p'' where
    "piperead_copy (nat n') p = (take (nat n') q, p'')" "pipe_rep p'' (drop (nat n') q)" by blast
  moreover have "piperead killed n' p =
      (if q = [] \<and> writeopen p then (if killed then Ret (- 1) else Sleep Chan_nread (), [], [], p)
       else (Ret (int (length (take (nat n') q))), take (nat n') q, [Chan_nwrite], p''))"
    using calculation(2) pipe_empty [OF assms] by (simp add: piperead_def)
  ultimately show ?thesis using w(2) by blast
qed

theorem pipe_blocks_exactly_witness:
  "\<exists>r xs' ws' p''. piperead False 1 (new_pipe (\<lambda>_. 0)) = (r, xs', ws', p'') \<and> r = Sleep Chan_nread ()"
  using pipe_blocks_exactly [OF pipe_rep_new, of False 0 "[]" "\<lambda>_. 0" 1] by (auto simp: new_pipe_def)

end
