(* ===== verification/Bio.thy ===== *)
theory Bio
  imports Kprelude
begin

text \<open>
  Sleep locks (\<^verbatim>\<open>sleeplock.c\<close>), the buffer cache (\<^verbatim>\<open>bio.c\<close>) and the disk in memory
  (\<^verbatim>\<open>memide.c\<close>). A run of \<^verbatim>\<open>acquiresleep\<close> that finds the lock taken ends asleep; this is
  the result \<open>Spin\<close>. The spin locks around each operation are taken and released inside
  it and are not part of this state. \<open>me\<close> is the pid of the calling process.

  The cache is linked against one of two drivers, \<^verbatim>\<open>ide.c\<close> or \<^verbatim>\<open>memide.c\<close>, so \<^verbatim>\<open>iderw\<close>
  is an argument of its operations; the locale \<open>disk_driver\<close> is what they rely on.
\<close>

section \<open>Sleep locks\<close>

record sleeplock =
  sl_locked :: bool
  sl_pid :: int

definition initsleeplock :: sleeplock where
  "initsleeplock = \<lparr>sl_locked = False, sl_pid = 0\<rparr>"

definition acquiresleep :: "int \<Rightarrow> sleeplock \<Rightarrow> sleeplock kres" where
  "acquiresleep me lk = (if sl_locked lk then Inl Spin else Inr \<lparr>sl_locked = True, sl_pid = me\<rparr>)"

definition releasesleep :: "sleeplock \<Rightarrow> sleeplock" where
  "releasesleep lk = lk\<lparr>sl_locked := False, sl_pid := 0\<rparr>"

definition holdingsleep :: "int \<Rightarrow> sleeplock \<Rightarrow> bool" where
  "holdingsleep me lk \<longleftrightarrow> sl_locked lk \<and> sl_pid lk = me"

section \<open>Blocks and buffers\<close>

text \<open>
  A block is its \<^verbatim>\<open>BSIZE\<close> = 512 bytes; the values from index 512 on mean nothing. A buffer
  pointer is 0 for \<^verbatim>\<open>&bcache.head\<close> and \<open>i + 1\<close> for \<^verbatim>\<open>&bcache.buf[i]\<close>. The two bits of
  \<^verbatim>\<open>flags\<close> are two fields. \<open>trace\<close> records the disk after each write, the last one first:
  these are the disks that a crash can leave behind.
\<close>

type_synonym block = "nat \<Rightarrow> byte"
type_synonym bufp = addr

abbreviation NBUF :: nat where "NBUF \<equiv> 30"

record buf =
  b_valid :: bool
  b_dirty :: bool
  b_dev :: u32
  b_blockno :: u32
  b_lock :: sleeplock
  b_refcnt :: u32
  b_prev :: bufp
  b_next :: bufp
  b_data :: block

record bio =
  bufs :: "bufp \<Rightarrow> buf"
  disk :: "u32 \<Rightarrow> block"
  disksize :: u32
  trace :: "(u32 \<Rightarrow> block) list"

type_synonym 'a driver = "int \<Rightarrow> bufp \<Rightarrow> 'a bio_scheme \<Rightarrow> 'a bio_scheme kres"

definition set_buf :: "bufp \<Rightarrow> (buf \<Rightarrow> buf) \<Rightarrow> 'a bio_scheme \<Rightarrow> 'a bio_scheme" where
  "set_buf b f s = s\<lparr>bufs := (bufs s)(b := f (bufs s b))\<rparr>"

definition put_disk :: "u32 \<Rightarrow> block \<Rightarrow> 'a bio_scheme \<Rightarrow> 'a bio_scheme" where
  "put_disk n d s = s\<lparr>disk := (disk s)(n := d), trace := (disk s)(n := d) # trace s\<rparr>"

section \<open>The disk in memory\<close>

definition iderw :: "'a driver" where
  "iderw me b s =
     (let x = bufs s b in
      if \<not> holdingsleep me (b_lock x) then Inl (Panic ''iderw: buf not locked'')
      else if b_valid x \<and> \<not> b_dirty x then Inl (Panic ''iderw: nothing to do'')
      else if b_dev x \<noteq> 1 then Inl (Panic ''iderw: request not for disk 1'')
      else if disksize s \<le> b_blockno x then Inl (Panic ''iderw: block out of range'')
      else if b_dirty x
      then Inr (set_buf b (\<lambda>x. x\<lparr>b_dirty := False, b_valid := True\<rparr>) (put_disk (b_blockno x) (b_data x) s))
      else Inr (set_buf b (\<lambda>x. x\<lparr>b_data := disk s (b_blockno x), b_valid := True\<rparr>) s))"

section \<open>The buffer cache\<close>

definition buf_ids :: "bufp list" where
  "buf_ids = map of_nat [1..<31]"

definition binit_one :: "bufp \<Rightarrow> 'a bio_scheme \<Rightarrow> 'a bio_scheme" where
  "binit_one b s =
     (let s1 = set_buf b (\<lambda>x. x\<lparr>b_next := b_next (bufs s 0), b_prev := 0, b_lock := initsleeplock\<rparr>) s;
          s2 = set_buf (b_next (bufs s1 0)) (\<lambda>x. x\<lparr>b_prev := b\<rparr>) s1
      in set_buf 0 (\<lambda>x. x\<lparr>b_next := b\<rparr>) s2)"

definition binit :: "'a bio_scheme \<Rightarrow> 'a bio_scheme" where
  "binit s = fold binit_one buf_ids (set_buf 0 (\<lambda>x. x\<lparr>b_prev := 0, b_next := 0\<rparr>) s)"

partial_function (option) find_cached :: "u32 \<Rightarrow> u32 \<Rightarrow> (bufp \<Rightarrow> buf) \<Rightarrow> bufp \<Rightarrow> bufp option" where
  "find_cached dv bn B p =
     (if p = 0 then Some 0
      else if b_dev (B p) = dv \<and> b_blockno (B p) = bn then Some p
      else find_cached dv bn B (b_next (B p)))"

partial_function (option) find_unused :: "(bufp \<Rightarrow> buf) \<Rightarrow> bufp \<Rightarrow> bufp option" where
  "find_unused B p =
     (if p = 0 then Some 0
      else if b_refcnt (B p) = 0 \<and> \<not> b_dirty (B p) then Some p
      else find_unused B (b_prev (B p)))"

text \<open>\<^verbatim>\<open>bget\<close> up to \<^verbatim>\<open>acquiresleep\<close>, and with it.\<close>

definition bget_find :: "u32 \<Rightarrow> u32 \<Rightarrow> 'a bio_scheme \<Rightarrow> (bufp \<times> 'a bio_scheme) kres" where
  "bget_find dv bn s =
     kbind (returns (find_cached dv bn (bufs s) (b_next (bufs s 0)))) (\<lambda>p.
     if p \<noteq> 0 then Inr (p, set_buf p (\<lambda>x. x\<lparr>b_refcnt := b_refcnt x + 1\<rparr>) s)
     else kbind (returns (find_unused (bufs s) (b_prev (bufs s 0)))) (\<lambda>q.
       if q = 0 then Inl (Panic ''bget: no buffers'')
       else Inr (q, set_buf q (\<lambda>x. x\<lparr>b_dev := dv, b_blockno := bn, b_valid := False, b_dirty := False, b_refcnt := 1\<rparr>) s)))"

definition lock_buf :: "int \<Rightarrow> bufp \<Rightarrow> 'a bio_scheme \<Rightarrow> 'a bio_scheme kres" where
  "lock_buf me b s = kbind (acquiresleep me (b_lock (bufs s b))) (\<lambda>l. Inr (set_buf b (\<lambda>x. x\<lparr>b_lock := l\<rparr>) s))"

definition bget :: "int \<Rightarrow> u32 \<Rightarrow> u32 \<Rightarrow> 'a bio_scheme \<Rightarrow> (bufp \<times> 'a bio_scheme) kres" where
  "bget me dv bn s = kbind (bget_find dv bn s) (\<lambda>(b, s1). kbind (lock_buf me b s1) (\<lambda>s2. Inr (b, s2)))"

definition bread :: "'a driver \<Rightarrow> int \<Rightarrow> u32 \<Rightarrow> u32 \<Rightarrow> 'a bio_scheme \<Rightarrow> (bufp \<times> 'a bio_scheme) kres" where
  "bread rw me dv bn s = kbind (bget me dv bn s) (\<lambda>(b, s1).
     if \<not> b_valid (bufs s1 b) then kbind (rw me b s1) (\<lambda>s2. Inr (b, s2)) else Inr (b, s1))"

definition bwrite :: "'a driver \<Rightarrow> int \<Rightarrow> bufp \<Rightarrow> 'a bio_scheme \<Rightarrow> 'a bio_scheme kres" where
  "bwrite rw me b s =
     (if \<not> holdingsleep me (b_lock (bufs s b)) then Inl (Panic ''bwrite'')
      else rw me b (set_buf b (\<lambda>x. x\<lparr>b_dirty := True\<rparr>) s))"

text \<open>The buffer becomes the most recently used one: unlinked, then linked behind the head.\<close>

definition move_front :: "bufp \<Rightarrow> 'a bio_scheme \<Rightarrow> 'a bio_scheme" where
  "move_front b s =
     (let s1 = set_buf (b_next (bufs s b)) (\<lambda>x. x\<lparr>b_prev := b_prev (bufs s b)\<rparr>) s;
          s2 = set_buf (b_prev (bufs s1 b)) (\<lambda>x. x\<lparr>b_next := b_next (bufs s1 b)\<rparr>) s1;
          s3 = set_buf b (\<lambda>x. x\<lparr>b_next := b_next (bufs s2 0), b_prev := 0\<rparr>) s2;
          s4 = set_buf (b_next (bufs s3 0)) (\<lambda>x. x\<lparr>b_prev := b\<rparr>) s3
      in set_buf 0 (\<lambda>x. x\<lparr>b_next := b\<rparr>) s4)"

definition brelse :: "int \<Rightarrow> bufp \<Rightarrow> 'a bio_scheme \<Rightarrow> 'a bio_scheme kres" where
  "brelse me b s =
     (if \<not> holdingsleep me (b_lock (bufs s b)) then Inl (Panic ''brelse'')
      else let s1 = set_buf b (\<lambda>x. x\<lparr>b_lock := releasesleep (b_lock x)\<rparr>) s;
               s2 = set_buf b (\<lambda>x. x\<lparr>b_refcnt := b_refcnt x - 1\<rparr>) s1
           in Inr (if b_refcnt (bufs s2 b) = 0 then move_front b s2 else s2))"

end
