(* ===== verification/BioRing.thy ===== *)
theory BioRing
  imports Bio
begin

text \<open>
  The list of buffers through \<^verbatim>\<open>prev\<close> and \<^verbatim>\<open>next\<close>: two rings through the head, one the
  reverse of the other, and what the search loops and \<open>move_front\<close> do with them.
\<close>

section \<open>Rings\<close>

definition ring :: "(addr \<Rightarrow> addr) \<Rightarrow> addr list \<Rightarrow> bool" where
  "ring f xs \<longleftrightarrow> chain f (f 0) xs"

lemma last_Cons_rev: "last (0 # rev zs) = hd (zs @ [0])"
  by (cases zs) auto

lemma ring_first: "ring f xs \<Longrightarrow> f 0 = hd (xs @ [0])"
  by (cases xs) (auto simp: ring_def)

lemma ring_next: "ring f (xs @ b # ys) \<Longrightarrow> f b = hd (ys @ [0])"
  unfolding ring_def by (drule chain_append_next, cases ys) auto

lemma ring_distinct: "ring f xs \<Longrightarrow> distinct (0 # xs)"
  by (auto simp: ring_def dest: chain_distinct chain_mem_nonnull)

lemma ring_remove:
  assumes "ring f (xs @ b # ys)"
  shows "ring (f(last (0 # xs) := f b)) (xs @ ys)"
proof (cases xs rule: rev_cases)
  case Nil
  then show ?thesis using assms ring_distinct [OF assms] by (auto simp: ring_def)
next
  case (snoc zs a)
  then have "a \<noteq> 0" using ring_distinct [OF assms] by simp
  moreover have "chain (f(a := f b)) (f 0) (zs @ a # ys)"
    by (rule chain_unlink) (use assms snoc in \<open>simp add: ring_def\<close>)
  ultimately show ?thesis using snoc by (simp add: ring_def)
qed

lemma ring_push: "ring f xs \<Longrightarrow> b \<noteq> 0 \<Longrightarrow> b \<notin> set xs \<Longrightarrow> ring (f(b := f 0, 0 := b)) (b # xs)"
  using ring_distinct [of f xs] by (simp add: ring_def)

lemma ring_append:
  assumes "ring f xs" "b \<noteq> 0" "b \<notin> set xs"
  shows "ring (f(b := 0, last (0 # xs) := b)) (xs @ [b])"
proof (cases "xs = []")
  case True
  then show ?thesis using assms by (simp add: ring_def)
next
  case False
  then have "last xs \<noteq> 0" using ring_distinct [OF assms(1)] last_in_set [OF False] by (metis distinct.simps(2))
  moreover have "chain ((f(b := 0))(last xs := b)) (f 0) (xs @ [b])"
    by (rule chain_link_last) (use assms False in \<open>simp_all add: ring_def\<close>)
  ultimately show ?thesis using False assms(2) by (simp add: ring_def)
qed

section \<open>The list of buffers\<close>

definition lru :: "(bufp \<Rightarrow> buf) \<Rightarrow> bufp list \<Rightarrow> bool" where
  "lru B xs \<longleftrightarrow> ring (\<lambda>p. b_next (B p)) xs \<and> ring (\<lambda>p. b_prev (B p)) (rev xs)"

lemma lru_distinct: "lru B xs \<Longrightarrow> distinct (0 # xs)"
  by (auto simp: lru_def dest: ring_distinct)

lemma lru_cong: "(\<And>p. b_next (B' p) = b_next (B p)) \<Longrightarrow> (\<And>p. b_prev (B' p) = b_prev (B p)) \<Longrightarrow> lru B' xs = lru B xs"
  by (simp add: lru_def)

lemma set_buf_simps [simp]:
  "bufs (set_buf b f s) = (bufs s)(b := f (bufs s b))" "disk (set_buf b f s) = disk s"
  "disksize (set_buf b f s) = disksize s" "trace (set_buf b f s) = trace s" "bio.more (set_buf b f s) = bio.more s"
  by (simp_all add: set_buf_def)

lemma put_disk_simps [simp]:
  "bufs (put_disk n d s) = bufs s" "disk (put_disk n d s) = (disk s)(n := d)"
  "disksize (put_disk n d s) = disksize s" "trace (put_disk n d s) = (disk s)(n := d) # trace s"
  "bio.more (put_disk n d s) = bio.more s"
  by (simp_all add: put_disk_def)

definition unlinked :: "buf \<Rightarrow> buf" where
  "unlinked x = x\<lparr>b_next := 0, b_prev := 0\<rparr>"

lemma unlinked_upd [simp]:
  "unlinked (x\<lparr>b_next := p\<rparr>) = unlinked x" "unlinked (x\<lparr>b_prev := p\<rparr>) = unlinked x"
  by (simp_all add: unlinked_def)

lemma unlinked_fields:
  "unlinked x = unlinked y \<Longrightarrow> b_valid x = b_valid y \<and> b_dirty x = b_dirty y \<and> b_dev x = b_dev y \<and> b_blockno x = b_blockno y \<and>
    b_lock x = b_lock y \<and> b_refcnt x = b_refcnt y \<and> b_data x = b_data y"
  by (cases x; cases y) (simp add: unlinked_def)

lemma unlinked_set_buf:
  "(\<And>x. unlinked (f x) = unlinked x) \<Longrightarrow> unlinked (bufs (set_buf b f s) p) = unlinked (bufs s p)"
  by simp

lemma move_front_frame [simp]:
  "disk (move_front b s) = disk s" "disksize (move_front b s) = disksize s" "trace (move_front b s) = trace s"
  "bio.more (move_front b s) = bio.more s"
  by (simp_all add: move_front_def Let_def del: set_buf_simps(1))

lemma move_front_unlinked: "unlinked (bufs (move_front b s) p) = unlinked (bufs s p)"
  unfolding move_front_def Let_def by (simp add: unlinked_set_buf del: set_buf_simps(1))

definition nx :: "'a bio_scheme \<Rightarrow> bufp \<Rightarrow> bufp" where "nx s p = b_next (bufs s p)"
definition pv :: "'a bio_scheme \<Rightarrow> bufp \<Rightarrow> bufp" where "pv s p = b_prev (bufs s p)"

lemma nx_pv_set:
  "nx (set_buf b (\<lambda>x. x\<lparr>b_next := v\<rparr>) s) = (nx s)(b := v)" "pv (set_buf b (\<lambda>x. x\<lparr>b_next := v\<rparr>) s) = pv s"
  "nx (set_buf b (\<lambda>x. x\<lparr>b_prev := v\<rparr>) s) = nx s" "pv (set_buf b (\<lambda>x. x\<lparr>b_prev := v\<rparr>) s) = (pv s)(b := v)"
  "nx (set_buf b (\<lambda>x. x\<lparr>b_next := v, b_prev := w\<rparr>) s) = (nx s)(b := v)"
  "pv (set_buf b (\<lambda>x. x\<lparr>b_next := v, b_prev := w\<rparr>) s) = (pv s)(b := w)"
  by (auto simp: nx_def pv_def fun_eq_iff)

lemma move_front_links:
  assumes "b \<noteq> 0" "nx s b \<noteq> b"
  shows "nx (move_front b s) = (nx s)(pv s b := nx s b, b := ((nx s)(pv s b := nx s b)) 0, 0 := b)"
    and "pv (move_front b s) = (pv s)(nx s b := pv s b, b := 0, ((nx s)(pv s b := nx s b)) 0 := b)"
  unfolding move_front_def Let_def nx_def [symmetric] pv_def [symmetric] nx_pv_set using assms by simp_all

lemma lru_nx_pv: "lru (bufs s) xs \<longleftrightarrow> ring (nx s) xs \<and> ring (pv s) (rev xs)"
  by (simp add: lru_def nx_def [abs_def] pv_def [abs_def])

lemma move_front_lru:
  assumes l: "lru (bufs s) (xs @ b # ys)"
  shows "lru (bufs (move_front b s)) (b # xs @ ys)"
proof -
  have n: "ring (nx s) (xs @ b # ys)" and p: "ring (pv s) (rev ys @ b # rev xs)" using l by (simp_all add: lru_nx_pv)
  have d: "b \<noteq> 0" "b \<notin> set (xs @ ys)" "0 \<notin> set (xs @ ys)" using lru_distinct [OF l] by auto
  have nb: "nx s b = last (0 # rev ys)" using ring_next [OF n] last_Cons_rev [of ys] by simp
  have pb: "pv s b = last (0 # xs)" using ring_next [OF p] last_Cons_rev [of "rev xs"] by simp
  have "last (0 # rev ys) \<in> insert 0 (set ys)" using last_in_set [of "0 # rev ys"] by simp
  then have "nx s b \<noteq> b" unfolding nb using d by auto
  note L = move_front_links [OF d(1) this]
  note n1 = ring_remove [OF n, folded pb] and p1 = ring_remove [OF p, folded nb]
  let ?f = "(nx s)(pv s b := nx s b)" and ?g = "(pv s)(nx s b := pv s b)"
  have f0: "?f 0 = last (0 # rev ys @ rev xs)" using ring_first [OF n1] last_Cons_rev [of "xs @ ys"] by (simp only: rev_append)
  have "ring (?f(b := ?f 0, 0 := b)) (b # xs @ ys)" by (rule ring_push) (use n1 d in simp_all)
  moreover have "ring (?g(b := 0, last (0 # rev ys @ rev xs) := b)) ((rev ys @ rev xs) @ [b])"
    by (rule ring_append) (use p1 d in simp_all)
  ultimately show ?thesis unfolding lru_nx_pv L f0 [symmetric] by simp
qed

section \<open>The search loops\<close>

lemma find_cached_ring:
  "chain (\<lambda>p. b_next (B p)) p xs \<Longrightarrow>
    find_cached dv bn B p = Some (case find (\<lambda>p. b_dev (B p) = dv \<and> b_blockno (B p) = bn) xs of None \<Rightarrow> 0 | Some q \<Rightarrow> q)"
proof (induction xs arbitrary: p)
  case Nil
  then show ?case by (simp add: find_cached.simps)
next
  case (Cons x xs)
  then show ?case by (subst find_cached.simps) simp
qed

lemma find_unused_ring:
  "chain (\<lambda>p. b_prev (B p)) p xs \<Longrightarrow>
    find_unused B p = Some (case find (\<lambda>p. b_refcnt (B p) = 0 \<and> \<not> b_dirty (B p)) xs of None \<Rightarrow> 0 | Some q \<Rightarrow> q)"
proof (induction xs arbitrary: p)
  case Nil
  then show ?case by (simp add: find_unused.simps)
next
  case (Cons x xs)
  then show ?case by (subst find_unused.simps) simp
qed

lemma bget_find_eq:
  assumes "lru (bufs s) xs"
  shows "bget_find dv bn s =
    (case find (\<lambda>p. b_dev (bufs s p) = dv \<and> b_blockno (bufs s p) = bn) xs of
       Some p \<Rightarrow> Inr (p, set_buf p (\<lambda>x. x\<lparr>b_refcnt := b_refcnt x + 1\<rparr>) s)
     | None \<Rightarrow> (case find (\<lambda>p. b_refcnt (bufs s p) = 0 \<and> \<not> b_dirty (bufs s p)) (rev xs) of
          None \<Rightarrow> Inl (Panic ''bget: no buffers'')
        | Some q \<Rightarrow> Inr (q, set_buf q (\<lambda>x. x\<lparr>b_dev := dv, b_blockno := bn, b_valid := False, b_dirty := False, b_refcnt := 1\<rparr>) s)))"
proof -
  have "chain (\<lambda>p. b_next (bufs s p)) (b_next (bufs s 0)) xs" "chain (\<lambda>p. b_prev (bufs s p)) (b_prev (bufs s 0)) (rev xs)"
    using assms by (simp_all add: lru_def ring_def)
  note f = find_cached_ring [OF this(1), of dv bn] find_unused_ring [OF this(2)]
  have "p \<noteq> 0" if "find Q ys = Some p" "set ys = set xs" for Q p ys
    using lru_distinct [OF assms] that by (auto simp: find_Some_iff) (metis nth_mem)
  then show ?thesis unfolding bget_find_def f by (auto split: option.split)
qed

end
