(* ===== verification/BioRep.thy ===== *)
theory BioRep
  imports BioRing
begin

text \<open>
  The contract of the buffer cache. Abstractly, disk 1 has for each block the bytes its
  users see (\<open>vol\<close>) and those on the platter (\<open>dsk\<close>), the blocks that \<^verbatim>\<open>log_write\<close> has
  pinned, and the blocks held by processes, with their buffers. A buffer is held by one
  process and nobody waits for it: processes that would wait are not running.
\<close>

section \<open>The contract\<close>

record cache =
  vol :: "u32 \<Rightarrow> block"
  dsk :: "u32 \<Rightarrow> block"
  pinned :: "u32 set"
  held :: "u32 \<Rightarrow> (int \<times> bufp) option"

definition owns :: "(bufp \<Rightarrow> buf) \<Rightarrow> bufp \<Rightarrow> u32 \<Rightarrow> bool" where
  "owns B p n \<longleftrightarrow> p \<in> set buf_ids \<and> b_dev (B p) = 1 \<and> b_blockno (B p) = n"

text \<open>One buffer: whether it is referenced is whether it is locked; what it caches of \<open>A\<close>.\<close>

definition buf_ok :: "buf \<Rightarrow> bufp \<Rightarrow> cache \<Rightarrow> bool" where
  "buf_ok x p A \<longleftrightarrow>
     b_refcnt x = (if sl_locked (b_lock x) then 1 else 0) \<and>
     (b_dev x = 1 \<longrightarrow>
       (if b_valid x then b_data x = vol A (b_blockno x) else \<not> b_dirty x \<and> \<not> sl_locked (b_lock x)) \<and>
       (b_dirty x \<longleftrightarrow> b_blockno x \<in> pinned A) \<and>
       held A (b_blockno x) = (if sl_locked (b_lock x) then Some (sl_pid (b_lock x), p) else None)) \<and>
     (b_dev x \<noteq> 1 \<longrightarrow> \<not> sl_locked (b_lock x) \<and> \<not> b_dirty x)"

definition cache_rep :: "'a bio_scheme \<Rightarrow> cache \<Rightarrow> bool" where
  "cache_rep s A \<longleftrightarrow>
     (\<exists>xs. lru (bufs s) xs \<and> set xs = set buf_ids) \<and> disk s = dsk A \<and>
     (\<forall>p \<in> set buf_ids. buf_ok (bufs s p) p A) \<and>
     (\<forall>p q n. owns (bufs s) p n \<longrightarrow> owns (bufs s) q n \<longrightarrow> p = q) \<and>
     (\<forall>n. (\<exists>p. owns (bufs s) p n) \<or> n \<notin> pinned A \<and> held A n = None) \<and>
     (\<forall>n. n \<notin> pinned A \<longrightarrow> held A n = None \<longrightarrow> vol A n = dsk A n)"

lemma cache_repI:
  assumes "lru (bufs s) xs" "set xs = set buf_ids" "disk s = dsk A"
    and "\<And>p. p \<in> set buf_ids \<Longrightarrow> buf_ok (bufs s p) p A"
    and "\<And>p q n. owns (bufs s) p n \<Longrightarrow> owns (bufs s) q n \<Longrightarrow> p = q"
    and "\<And>n. \<not> (\<exists>p. owns (bufs s) p n) \<Longrightarrow> n \<notin> pinned A \<and> held A n = None"
    and "\<And>n. n \<notin> pinned A \<Longrightarrow> held A n = None \<Longrightarrow> vol A n = dsk A n"
  shows "cache_rep s A"
  unfolding cache_rep_def using assms by blast

lemma cache_repD:
  assumes "cache_rep s A"
  shows "\<exists>xs. lru (bufs s) xs \<and> set xs = set buf_ids" "disk s = dsk A"
    "p \<in> set buf_ids \<Longrightarrow> buf_ok (bufs s p) p A"
    "owns (bufs s) p n \<Longrightarrow> owns (bufs s) q n \<Longrightarrow> p = q"
    "(\<And>p. \<not> owns (bufs s) p n) \<Longrightarrow> n \<notin> pinned A \<and> held A n = None"
    "n \<notin> pinned A \<Longrightarrow> held A n = None \<Longrightarrow> vol A n = dsk A n"
  using assms unfolding cache_rep_def by blast+

lemma zero_not_buf: "0 \<notin> set buf_ids"
  by (auto simp: buf_ids_def word_unat_eq_iff unat_of_nat)

lemma distinct_buf_ids: "distinct buf_ids"
  by (auto simp: buf_ids_def distinct_map inj_on_def word_unat_eq_iff unat_of_nat)

lemma length_buf_ids: "length buf_ids = NBUF"
  by (simp add: buf_ids_def)

text \<open>A held block: its buffer.\<close>

lemma held_buf:
  assumes "cache_rep s A" "held A n = Some (me, h)"
  shows "owns (bufs s) h n" "b_valid (bufs s h)" "sl_locked (b_lock (bufs s h))" "sl_pid (b_lock (bufs s h)) = me"
    "b_data (bufs s h) = vol A n" "b_refcnt (bufs s h) = 1" "holdingsleep me (b_lock (bufs s h))"
proof -
  obtain p where p: "owns (bufs s) p n" using cache_repD(5) [OF assms(1), of n] assms(2) by auto
  then have ok: "buf_ok (bufs s p) p A" "b_dev (bufs s p) = 1" "b_blockno (bufs s p) = n" using cache_repD(3) [OF assms(1)] by (auto simp: owns_def)
  then have "held A n = (if sl_locked (b_lock (bufs s p)) then Some (sl_pid (b_lock (bufs s p)), p) else None)" by (simp add: buf_ok_def)
  then have h: "p = h" "sl_locked (b_lock (bufs s p))" "sl_pid (b_lock (bufs s p)) = me" using assms(2) by (auto split: if_splits)
  with p ok show "owns (bufs s) h n" "b_valid (bufs s h)" "sl_locked (b_lock (bufs s h))" "sl_pid (b_lock (bufs s h)) = me"
    "b_data (bufs s h) = vol A n" "b_refcnt (bufs s h) = 1" "holdingsleep me (b_lock (bufs s h))"
    by (auto simp: buf_ok_def holdingsleep_def split: if_splits)
qed

lemma lru_set_buf: "(\<And>x. b_next (f x) = b_next x) \<Longrightarrow> (\<And>x. b_prev (f x) = b_prev x) \<Longrightarrow> lru (bufs (set_buf b f s)) xs = lru (bufs s) xs"
  by (rule lru_cong) simp_all

text \<open>
  Changing one buffer that stays in its place: the other buffers keep their facts when the
  abstract state changes at that buffer's block only.
\<close>

definition same_at :: "u32 \<Rightarrow> cache \<Rightarrow> cache \<Rightarrow> bool" where
  "same_at n A A' \<longleftrightarrow> vol A' n = vol A n \<and> held A' n = held A n \<and> (n \<in> pinned A' \<longleftrightarrow> n \<in> pinned A)"

lemma buf_ok_other:
  assumes "buf_ok x p A" "b_dev x = 1 \<Longrightarrow> same_at (b_blockno x) A A'"
  shows "buf_ok x p A'"
  using assms by (auto simp: buf_ok_def same_at_def)

lemma cache_rep_change:
  assumes r: "cache_rep s A" and o: "owns (bufs s) h n"
    and f: "\<And>x. b_next (f x) = b_next x" "\<And>x. b_prev (f x) = b_prev x" "\<And>x. b_dev (f x) = b_dev x" "\<And>x. b_blockno (f x) = b_blockno x"
    and ok: "buf_ok (f (bufs s h)) h A'" and A': "\<And>m. m \<noteq> n \<Longrightarrow> same_at m A A' \<and> dsk A' m = dsk A m"
    and n: "n \<notin> pinned A' \<Longrightarrow> held A' n = None \<Longrightarrow> vol A' n = dsk A' n"
    and s': "bufs s' = bufs (set_buf h f s)" "disk s' = dsk A'"
  shows "cache_rep s' A'"
proof -
  from cache_repD(1) [OF r] obtain xs where "lru (bufs s) xs" "set xs = set buf_ids" by blast
  moreover have ow: "owns (bufs s') p m = owns (bufs s) p m" for p m by (simp add: s' owns_def f)
  moreover have "buf_ok (bufs s' p) p A'" if "p \<in> set buf_ids" for p
  proof (cases "p = h")
    case True
    then show ?thesis using ok by (simp add: s')
  next
    case False
    then have "b_dev (bufs s p) = 1 \<Longrightarrow> b_blockno (bufs s p) \<noteq> n"
      using cache_repD(4) [OF r _ o, of p] that by (auto simp: owns_def)
    then show ?thesis using buf_ok_other [OF cache_repD(3) [OF r that], of A'] A' False by (simp add: s')
  qed
  moreover have "m \<notin> pinned A' \<and> held A' m = None" if "\<not> (\<exists>p. owns (bufs s) p m)" for m
    using cache_repD(5) [OF r, of m] that A' [of m] o by (auto simp: same_at_def)
  moreover have "vol A' m = dsk A' m" if "m \<notin> pinned A'" "held A' m = None" for m
    using cache_repD(6) [OF r, of m] that A' [of m] n by (cases "m = n") (auto simp: same_at_def)
  ultimately show ?thesis
    by (intro cache_repI [of s' xs]) (use cache_repD(4) [OF r] lru_set_buf [OF f(1,2), of h s xs] s' in auto)
qed

section \<open>Changing, pinning, writing and releasing a held buffer\<close>

definition set_data :: "bufp \<Rightarrow> block \<Rightarrow> 'a bio_scheme \<Rightarrow> 'a bio_scheme" where
  "set_data h d = set_buf h (\<lambda>x. x\<lparr>b_data := d\<rparr>)"

lemma set_data_frame [simp]:
  "disk (set_data h d s) = disk s" "disksize (set_data h d s) = disksize s" "trace (set_data h d s) = trace s"
  "bio.more (set_data h d s) = bio.more s" "b_data (bufs (set_data h d s) p) = (if p = h then d else b_data (bufs s p))"
  by (simp_all add: set_data_def)

lemma set_data_rep:
  assumes "cache_rep s A" "held A n = Some (me, h)"
  shows "cache_rep (set_data h d s) (A\<lparr>vol := (vol A)(n := d)\<rparr>)"
  unfolding set_data_def
  by (rule cache_rep_change [OF assms(1) held_buf(1) [OF assms]])
    (use held_buf [OF assms] cache_repD(2,3) [OF assms(1)] assms(2) in \<open>auto simp: buf_ok_def owns_def same_at_def\<close>)

lemma pin_rep:
  assumes "cache_rep s A" "held A n = Some (me, h)"
  shows "cache_rep (set_buf h (\<lambda>x. x\<lparr>b_dirty := True\<rparr>) s) (A\<lparr>pinned := insert n (pinned A)\<rparr>)"
  by (rule cache_rep_change [OF assms(1) held_buf(1) [OF assms]])
    (use held_buf [OF assms] cache_repD(2,3) [OF assms(1)] assms(2) in \<open>auto simp: buf_ok_def owns_def same_at_def\<close>)

definition synced :: "bufp \<Rightarrow> 'a bio_scheme \<Rightarrow> 'a bio_scheme" where
  "synced b s =
     (let x = bufs s b in
      if b_dirty x then set_buf b (\<lambda>x. x\<lparr>b_dirty := False, b_valid := True\<rparr>) (put_disk (b_blockno x) (b_data x) s)
      else set_buf b (\<lambda>x. x\<lparr>b_data := disk s (b_blockno x), b_valid := True\<rparr>) s)"

text \<open>What the cache relies on: \<^verbatim>\<open>iderw\<close> on a locked buffer with work to do synchronises it with the disk.\<close>

locale disk_driver =
  fixes rw :: "'a driver"
  assumes rw_synced: "holdingsleep me (b_lock (bufs s b)) \<Longrightarrow> b_dirty (bufs s b) \<or> \<not> b_valid (bufs s b) \<Longrightarrow>
    b_dev (bufs s b) = 1 \<Longrightarrow> b_blockno (bufs s b) < disksize s \<Longrightarrow> rw me b s = Inr (synced b s)"

interpretation memide: disk_driver iderw
  by unfold_locales (auto simp: iderw_def synced_def Let_def linorder_not_le)

lemma move_front_rep:
  assumes r: "cache_rep s A" and b: "b \<in> set buf_ids"
  shows "cache_rep (move_front b s) A"
proof -
  from cache_repD(1) [OF r] obtain xs where xs: "lru (bufs s) xs" "set xs = set buf_ids" by blast
  then obtain ys zs where "xs = ys @ b # zs" using b split_list [of b xs] by auto
  with move_front_lru [of s ys b zs] xs have l: "lru (bufs (move_front b s)) (b # ys @ zs)" "set (b # ys @ zs) = set buf_ids" by auto
  note f = unlinked_fields [OF move_front_unlinked [of b s]]
  have "owns (bufs (move_front b s)) p n = owns (bufs s) p n" for p n by (simp add: owns_def f)
  moreover have "buf_ok (bufs (move_front b s) p) p A = buf_ok (bufs s p) p A" for p by (simp add: buf_ok_def f)
  ultimately show ?thesis by (intro cache_repI [OF l]) (use cache_repD(2-6) [OF r] in auto)
qed

lemma brelse_rep:
  assumes r: "cache_rep s A" and h: "held A n = Some (me, h)" and n: "vol A n = dsk A n \<or> n \<in> pinned A"
  shows "\<exists>s'. brelse me h s = Inr s' \<and> cache_rep s' (A\<lparr>held := (held A)(n := None)\<rparr>) \<and>
    disksize s' = disksize s \<and> trace s' = trace s \<and> bio.more s' = bio.more s \<and> b_data (bufs s' p) = b_data (bufs s p)"
proof -
  let ?f = "\<lambda>x. x\<lparr>b_lock := releasesleep (b_lock x), b_refcnt := b_refcnt x - 1\<rparr>"
  note b = held_buf [OF r h]
  have e: "set_buf h (\<lambda>x. x\<lparr>b_refcnt := b_refcnt x - 1\<rparr>) (set_buf h (\<lambda>x. x\<lparr>b_lock := releasesleep (b_lock x)\<rparr>) s) = set_buf h ?f s"
    by (simp add: set_buf_def)
  have "cache_rep (set_buf h ?f s) (A\<lparr>held := (held A)(n := None)\<rparr>)"
    by (rule cache_rep_change [OF r b(1), of ?f])
      (use b n cache_repD(2,3) [OF r] h in \<open>auto simp: buf_ok_def owns_def same_at_def releasesleep_def\<close>)
  then have "cache_rep (move_front h (set_buf h ?f s)) (A\<lparr>held := (held A)(n := None)\<rparr>)"
    by (rule move_front_rep) (use b(1) in \<open>simp add: owns_def\<close>)
  moreover have "brelse me h s = Inr (move_front h (set_buf h ?f s))"
    unfolding brelse_def Let_def e using b by simp
  moreover have "b_data (bufs (move_front h (set_buf h ?f s)) p) = b_data (bufs s p)"
    using unlinked_fields [OF move_front_unlinked [of h "set_buf h ?f s" p]] by simp
  ultimately show ?thesis by simp
qed

section \<open>Getting a buffer\<close>

lemma unused_buffer:
  assumes r: "cache_rep s A" and c: "card (pinned A \<union> dom (held A)) < NBUF"
  shows "\<exists>p \<in> set buf_ids. b_refcnt (bufs s p) = 0 \<and> \<not> b_dirty (bufs s p)"
proof (rule ccontr)
  assume "\<not> ?thesis"
  then have all: "b_dev (bufs s p) = 1 \<and> b_blockno (bufs s p) \<in> pinned A \<union> dom (held A)" if "p \<in> set buf_ids" for p
    using cache_repD(3) [OF r that] that by (auto simp: buf_ok_def split: if_splits)
  have inj: "inj_on (\<lambda>p. b_blockno (bufs s p)) (set buf_ids)"
    using all cache_repD(4) [OF r] unfolding inj_on_def owns_def by blast
  have "\<exists>p. owns (bufs s) p n" if "n \<in> pinned A \<union> dom (held A)" for n using cache_repD(5) [OF r, of n] that by blast
  then have "pinned A \<union> dom (held A) \<subseteq> (\<lambda>p. b_blockno (bufs s p)) ` set buf_ids" unfolding owns_def by blast
  moreover have "(\<lambda>p. b_blockno (bufs s p)) ` set buf_ids \<subseteq> pinned A \<union> dom (held A)" using all by blast
  ultimately have "pinned A \<union> dom (held A) = (\<lambda>p. b_blockno (bufs s p)) ` set buf_ids" by (rule subset_antisym)
  then have "card (set buf_ids) = card (pinned A \<union> dom (held A))" using card_image [OF inj] by simp
  then show False using c distinct_card [OF distinct_buf_ids] length_buf_ids by simp
qed

text \<open>The buffer that \<^verbatim>\<open>bget\<close> returns for a block nobody holds: the one that caches it, or a recycled one.\<close>

lemma bget_find_rep:
  assumes r: "cache_rep s A" and n: "held A n = None" "n \<in> pinned A \<or> card (pinned A \<union> dom (held A)) < NBUF"
  shows "\<exists>h. owns (bufs s) h n \<and> bget_find 1 n s = Inr (h, set_buf h (\<lambda>x. x\<lparr>b_refcnt := 1\<rparr>) s) \<or>
    h \<in> set buf_ids \<and> (\<nexists>p. owns (bufs s) p n) \<and> b_refcnt (bufs s h) = 0 \<and> \<not> b_dirty (bufs s h) \<and>
    bget_find 1 n s = Inr (h, set_buf h (\<lambda>x. x\<lparr>b_dev := 1, b_blockno := n, b_valid := False, b_dirty := False, b_refcnt := 1\<rparr>) s)"
proof -
  from cache_repD(1) [OF r] obtain xs where xs: "lru (bufs s) xs" "set xs = set buf_ids" by blast
  show ?thesis
  proof (cases "find (\<lambda>p. b_dev (bufs s p) = 1 \<and> b_blockno (bufs s p) = n) xs")
    case (Some p)
    then have o: "owns (bufs s) p n" using xs(2) by (auto simp: find_Some_iff owns_def)
    then have "b_refcnt (bufs s p) = 0" using cache_repD(3) [OF r, of p] n(1) by (auto simp: buf_ok_def owns_def split: if_splits)
    then have "set_buf p (\<lambda>x. x\<lparr>b_refcnt := b_refcnt x + 1\<rparr>) s = set_buf p (\<lambda>x. x\<lparr>b_refcnt := 1\<rparr>) s" by (simp add: set_buf_def)
    then have "bget_find 1 n s = Inr (p, set_buf p (\<lambda>x. x\<lparr>b_refcnt := 1\<rparr>) s)" unfolding bget_find_eq [OF xs(1)] Some by simp
    with o show ?thesis by blast
  next
    case None
    then have no: "\<nexists>p. owns (bufs s) p n" using xs(2) by (auto simp: find_None_iff owns_def)
    then have "card (pinned A \<union> dom (held A)) < NBUF" using n(2) cache_repD(5) [OF r, of n] by blast
    from unused_buffer [OF r this] have "find (\<lambda>p. b_refcnt (bufs s p) = 0 \<and> \<not> b_dirty (bufs s p)) (rev xs) \<noteq> None"
      using xs(2) by (auto simp: find_None_iff)
    then obtain q where q: "find (\<lambda>p. b_refcnt (bufs s p) = 0 \<and> \<not> b_dirty (bufs s p)) (rev xs) = Some q" by blast
    then have "q \<in> set (rev xs) \<and> b_refcnt (bufs s q) = 0 \<and> \<not> b_dirty (bufs s q)" by (metis (mono_tags, lifting) find_Some_iff length_rev nth_mem)
    moreover have "bget_find 1 n s = Inr (q, set_buf q (\<lambda>x. x\<lparr>b_dev := 1, b_blockno := n, b_valid := False, b_dirty := False, b_refcnt := 1\<rparr>) s)"
      unfolding bget_find_eq [OF xs(1)] None q by simp
    ultimately show ?thesis using no xs(2) by (metis set_rev)
  qed
qed

lemma recycle_rep:
  assumes r: "cache_rep s A" and h: "h \<in> set buf_ids" "b_refcnt (bufs s h) = 0" "\<not> b_dirty (bufs s h)" and n: "\<nexists>p. owns (bufs s) p n"
    and x: "b_next x = b_next (bufs s h)" "b_prev x = b_prev (bufs s h)" "b_dev x = 1" "b_blockno x = n" "b_valid x" "\<not> b_dirty x"
      "b_refcnt x = 1" "b_lock x = \<lparr>sl_locked = True, sl_pid = me\<rparr>" "b_data x = dsk A n"
    and s': "bufs s' = (bufs s)(h := x)" "disk s' = disk s"
  shows "cache_rep s' (A\<lparr>held := (held A)(n \<mapsto> (me, h))\<rparr>)"
proof -
  let ?A = "A\<lparr>held := (held A)(n \<mapsto> (me, h))\<rparr>"
  from cache_repD(1) [OF r] obtain xs where xs: "lru (bufs s) xs" "set xs = set buf_ids" by blast
  have n0: "n \<notin> pinned A" "held A n = None" "vol A n = dsk A n" using cache_repD(5) [OF r, of n] n cache_repD(6) [OF r, of n] by auto
  have hok: "b_dev (bufs s h) = 1 \<Longrightarrow> b_blockno (bufs s h) \<notin> pinned A \<and> held A (b_blockno (bufs s h)) = None"
    using cache_repD(3) [OF r h(1)] h by (auto simp: buf_ok_def split: if_splits)
  have ow: "owns (bufs s') p m \<longleftrightarrow> (if p = h then m = n else owns (bufs s) p m)" for p m
    using h(1) x by (auto simp: owns_def s')
  have ok: "buf_ok (bufs s' p) p ?A" if "p \<in> set buf_ids" for p
  proof (cases "p = h")
    case True
    then show ?thesis using x n0 by (simp add: s' buf_ok_def)
  next
    case False
    then have "b_dev (bufs s p) = 1 \<Longrightarrow> b_blockno (bufs s p) \<noteq> n" using n that by (auto simp: owns_def)
    then show ?thesis using buf_ok_other [OF cache_repD(3) [OF r that], of ?A] False by (simp add: s' same_at_def)
  qed
  have un: "m \<notin> pinned ?A \<and> held ?A m = None" if no: "\<not> (\<exists>p. owns (bufs s') p m)" for m
  proof (cases "\<exists>p. owns (bufs s) p m")
    case True
    then have "owns (bufs s) h m" "m \<noteq> n" using no ow by (metis, metis)
    then show ?thesis using hok by (simp add: owns_def)
  next
    case False
    moreover have "m \<noteq> n" using no ow by metis
    ultimately show ?thesis using cache_repD(5) [OF r, of m] by simp
  qed
  have "lru (bufs s') xs" using xs(1) x by (subst lru_cong [where B = "bufs s"]) (auto simp: s')
  then show ?thesis
    by (rule cache_repI [OF _ xs(2) _ ok _ un]) (use cache_repD(2,4,6) [OF r] s' n0 ow n in \<open>auto split: if_splits\<close>)
qed

context disk_driver
begin

lemma bwrite_rep:
  assumes r: "cache_rep s A" and h: "held A n = Some (me, h)" and n: "n < disksize s"
  shows "\<exists>s'. bwrite rw me h s = Inr s' \<and>
    cache_rep s' (A\<lparr>dsk := (dsk A)(n := vol A n), pinned := pinned A - {n}\<rparr>) \<and>
    disksize s' = disksize s \<and> trace s' = (dsk A)(n := vol A n) # trace s \<and> bio.more s' = bio.more s \<and> b_data (bufs s' p) = b_data (bufs s p)"
proof -
  let ?s = "set_buf h (\<lambda>x. x\<lparr>b_dirty := True\<rparr>) s"
  note b = held_buf [OF r h]
  have w: "bwrite rw me h s = Inr (synced h ?s)"
    unfolding bwrite_def using b n rw_synced [of me ?s h] by (auto simp: owns_def)
  have "cache_rep (synced h ?s) (A\<lparr>dsk := (dsk A)(n := vol A n), pinned := pinned A - {n}\<rparr>)"
    by (rule cache_rep_change [OF r b(1), of "\<lambda>x. x\<lparr>b_dirty := False, b_valid := True\<rparr>"])
      (use b cache_repD(2,3) [OF r] h in \<open>auto simp: synced_def Let_def buf_ok_def owns_def same_at_def fun_eq_iff\<close>)
  then show ?thesis using w b cache_repD(2) [OF r] by (auto simp: synced_def Let_def owns_def)
qed

lemma bread_cached:
  assumes r: "cache_rep s A" and n: "held A n = None" and d: "n < disksize s"
    and o: "owns (bufs s) h n" and b: "bget_find 1 n s = Inr (h, set_buf h (\<lambda>x. x\<lparr>b_refcnt := 1\<rparr>) s)"
  shows "\<exists>s'. bread rw me 1 n s = Inr (h, s') \<and> cache_rep s' (A\<lparr>held := (held A)(n \<mapsto> (me, h))\<rparr>) \<and> b_data (bufs s' h) = vol A n \<and>
    disksize s' = disksize s \<and> trace s' = trace s \<and> bio.more s' = bio.more s"
proof -
  let ?l = "\<lparr>sl_locked = True, sl_pid = me\<rparr>"
  let ?s = "set_buf h (\<lambda>x. x\<lparr>b_refcnt := 1, b_lock := ?l\<rparr>) s"
  have ok: "buf_ok (bufs s h) h A" "b_dev (bufs s h) = 1" "b_blockno (bufs s h) = n" using o cache_repD(3) [OF r] by (auto simp: owns_def)
  then have ul: "\<not> sl_locked (b_lock (bufs s h))" using n by (auto simp: buf_ok_def split: if_splits)
  show ?thesis
  proof (cases "b_valid (bufs s h)")
    case True
    have "bread rw me 1 n s = Inr (h, ?s)"
      using b ul True by (simp add: bread_def bget_def lock_buf_def acquiresleep_def set_buf_def)
    moreover have "cache_rep ?s (A\<lparr>held := (held A)(n \<mapsto> (me, h))\<rparr>)"
      by (rule cache_rep_change [OF r o]) (use ok True cache_repD(2) [OF r] in \<open>auto simp: buf_ok_def same_at_def\<close>)
    ultimately show ?thesis using ok True by (simp add: buf_ok_def)
  next
    case False
    have v: "\<not> b_dirty (bufs s h)" "n \<notin> pinned A" "vol A n = dsk A n" using ok False n cache_repD(6) [OF r, of n] by (auto simp: buf_ok_def)
    have "rw me h ?s = Inr (synced h ?s)" by (rule rw_synced) (use ok v False d in \<open>simp_all add: holdingsleep_def\<close>)
    then have "bread rw me 1 n s = Inr (h, synced h ?s)"
      using b ul False by (simp add: bread_def bget_def lock_buf_def acquiresleep_def set_buf_def)
    moreover have "cache_rep (synced h ?s) (A\<lparr>held := (held A)(n \<mapsto> (me, h))\<rparr>)"
      by (rule cache_rep_change [OF r o, of "\<lambda>x. x\<lparr>b_refcnt := 1, b_lock := ?l, b_data := dsk A n, b_valid := True\<rparr>"])
        (use ok v cache_repD(2) [OF r] in \<open>auto simp: buf_ok_def same_at_def synced_def Let_def\<close>)
    ultimately show ?thesis using ok v cache_repD(2) [OF r] by (simp add: synced_def Let_def)
  qed
qed

lemma bread_recycled:
  assumes r: "cache_rep s A" and d: "n < disksize s"
    and h: "h \<in> set buf_ids" "\<nexists>p. owns (bufs s) p n" "b_refcnt (bufs s h) = 0" "\<not> b_dirty (bufs s h)"
    and b: "bget_find 1 n s = Inr (h, set_buf h (\<lambda>x. x\<lparr>b_dev := 1, b_blockno := n, b_valid := False, b_dirty := False, b_refcnt := 1\<rparr>) s)"
  shows "\<exists>s'. bread rw me 1 n s = Inr (h, s') \<and> cache_rep s' (A\<lparr>held := (held A)(n \<mapsto> (me, h))\<rparr>) \<and> b_data (bufs s' h) = vol A n \<and>
    disksize s' = disksize s \<and> trace s' = trace s \<and> bio.more s' = bio.more s"
proof -
  let ?l = "\<lparr>sl_locked = True, sl_pid = me\<rparr>"
  let ?s = "set_buf h (\<lambda>x. x\<lparr>b_dev := 1, b_blockno := n, b_valid := False, b_dirty := False, b_refcnt := 1, b_lock := ?l\<rparr>) s"
  have ul: "\<not> sl_locked (b_lock (bufs s h))" using h cache_repD(3) [OF r, of h] by (auto simp: buf_ok_def split: if_splits)
  have v: "vol A n = dsk A n" using cache_repD(5) [OF r, of n] h cache_repD(6) [OF r, of n] by blast
  have "rw me h ?s = Inr (synced h ?s)" by (rule rw_synced) (use h d in \<open>simp_all add: holdingsleep_def\<close>)
  then have "bread rw me 1 n s = Inr (h, synced h ?s)"
    using b ul by (simp add: bread_def bget_def lock_buf_def acquiresleep_def set_buf_def)
  moreover have "cache_rep (synced h ?s) (A\<lparr>held := (held A)(n \<mapsto> (me, h))\<rparr>)"
    by (rule recycle_rep [OF r h(1,3,4,2), of "bufs (synced h ?s) h"]) (use h cache_repD(2) [OF r] in \<open>auto simp: synced_def Let_def\<close>)
  ultimately show ?thesis using v cache_repD(2) [OF r] by (simp add: synced_def Let_def)
qed

lemma bread_rep:
  assumes r: "cache_rep s A" and n: "held A n = None" "n \<in> pinned A \<or> card (pinned A \<union> dom (held A)) < NBUF" and d: "n < disksize s"
  shows "\<exists>h s'. bread rw me 1 n s = Inr (h, s') \<and> cache_rep s' (A\<lparr>held := (held A)(n \<mapsto> (me, h))\<rparr>) \<and> b_data (bufs s' h) = vol A n \<and>
    disksize s' = disksize s \<and> trace s' = trace s \<and> bio.more s' = bio.more s"
  using bget_find_rep [OF r n] bread_cached [OF r n(1) d] bread_recycled [OF r d] by blast

end

section \<open>The initial cache\<close>

lemma binit_one_lru:
  assumes "lru (bufs s) xs" "b \<noteq> 0" "b \<notin> set xs"
  shows "lru (bufs (binit_one b s)) (b # xs)"
proof -
  have r: "ring (nx s) xs" "ring (pv s) (rev xs)" using assms(1) by (simp_all add: lru_nx_pv)
  have set3: "nx (set_buf b (\<lambda>x. x\<lparr>b_next := v, b_prev := w, b_lock := l\<rparr>) s) = (nx s)(b := v)"
    "pv (set_buf b (\<lambda>x. x\<lparr>b_next := v, b_prev := w, b_lock := l\<rparr>) s) = (pv s)(b := w)" for v w l
    by (auto simp: nx_def pv_def)
  have "nx (binit_one b s) = (nx s)(b := nx s 0, 0 := b)" "pv (binit_one b s) = (pv s)(b := 0, nx s 0 := b)"
    unfolding binit_one_def Let_def nx_def [symmetric] pv_def [symmetric] nx_pv_set set3 using assms(2) by simp_all
  moreover have "nx s 0 = last (0 # rev xs)" using ring_first [OF r(1)] last_Cons_rev [of xs] by simp
  ultimately show ?thesis using ring_push [OF r(1) assms(2,3)] ring_append [OF r(2), of b] assms by (simp add: lru_nx_pv)
qed

definition relocked :: "buf \<Rightarrow> buf" where
  "relocked x = x\<lparr>b_next := 0, b_prev := 0, b_lock := initsleeplock\<rparr>"

lemma relocked_upd [simp]:
  "relocked (x\<lparr>b_next := p\<rparr>) = relocked x" "relocked (x\<lparr>b_prev := p\<rparr>) = relocked x" "relocked (x\<lparr>b_lock := l\<rparr>) = relocked x"
  by (simp_all add: relocked_def)

lemma relocked_set_buf:
  "(\<And>x. relocked (f x) = relocked x) \<Longrightarrow> relocked (bufs (set_buf b f s) p) = relocked (bufs s p)"
  by simp

lemma binit_one_rest:
  "relocked (bufs (binit_one b s) p) = relocked (bufs s p)" "disk (binit_one b s) = disk s"
  "disksize (binit_one b s) = disksize s" "trace (binit_one b s) = trace s" "bio.more (binit_one b s) = bio.more s"
  "b_lock (bufs (binit_one b s) p) = (if p = b then initsleeplock else b_lock (bufs s p))"
proof -
  show "relocked (bufs (binit_one b s) p) = relocked (bufs s p)"
    unfolding binit_one_def Let_def by (simp add: relocked_set_buf del: set_buf_simps(1))
  show "b_lock (bufs (binit_one b s) p) = (if p = b then initsleeplock else b_lock (bufs s p))"
    by (simp add: binit_one_def Let_def)
qed (simp_all add: binit_one_def Let_def del: set_buf_simps(1))

lemma fold_binit_lru:
  "lru (bufs s) xs \<Longrightarrow> 0 \<notin> set bs \<Longrightarrow> distinct bs \<Longrightarrow> set bs \<inter> set xs = {} \<Longrightarrow> lru (bufs (fold binit_one bs s)) (rev bs @ xs)"
proof (induction bs arbitrary: s xs)
  case (Cons b bs)
  have "lru (bufs (binit_one b s)) (b # xs)" by (rule binit_one_lru) (use Cons.prems in auto)
  from Cons.IH [OF this] show ?case using Cons.prems by auto
qed simp

lemma fold_binit_rest:
  "relocked (bufs (fold binit_one bs s) p) = relocked (bufs s p)"
  "disk (fold binit_one bs s) = disk s" "disksize (fold binit_one bs s) = disksize s" "trace (fold binit_one bs s) = trace s"
  "bio.more (fold binit_one bs s) = bio.more s"
  "b_lock (bufs (fold binit_one bs s) p) = (if p \<in> set bs then initsleeplock else b_lock (bufs s p))"
  by (induction bs arbitrary: s) (simp_all add: binit_one_rest)

lemma relocked_fields:
  "relocked x = relocked y \<Longrightarrow> b_valid x = b_valid y \<and> b_dirty x = b_dirty y \<and> b_dev x = b_dev y \<and> b_blockno x = b_blockno y \<and>
    b_refcnt x = b_refcnt y"
  by (cases x; cases y) (simp add: relocked_def)

text \<open>At boot the buffers are zero: no device, no references, no flags.\<close>

definition zeroed :: "buf \<Rightarrow> bool" where
  "zeroed x \<longleftrightarrow> \<not> b_valid x \<and> \<not> b_dirty x \<and> b_dev x = 0 \<and> b_refcnt x = 0"

lemma binit_rep:
  assumes "\<And>p. zeroed (bufs s p)"
  shows "cache_rep (binit s) \<lparr>vol = disk s, dsk = disk s, pinned = {}, held = Map.empty\<rparr>"
    "disksize (binit s) = disksize s" "trace (binit s) = trace s" "bio.more (binit s) = bio.more s"
proof -
  let ?s = "set_buf 0 (\<lambda>x. x\<lparr>b_prev := 0, b_next := 0\<rparr>) s"
  have "lru (bufs ?s) []" by (simp add: lru_def ring_def)
  from fold_binit_lru [OF this zero_not_buf distinct_buf_ids] have l: "lru (bufs (binit s)) (rev buf_ids)" by (simp add: binit_def)
  note f = fold_binit_rest [of buf_ids ?s, folded binit_def]
  have z: "zeroed (bufs (binit s) p)" for p
  proof -
    have "relocked (bufs ?s p) = relocked (bufs s p)" by simp
    then show ?thesis using relocked_fields [of "bufs (binit s) p" "bufs s p"] f(1) [of p] assms [of p] by (simp add: zeroed_def)
  qed
  have lk: "b_lock (bufs (binit s) p) = initsleeplock" if "p \<in> set buf_ids" for p using f(6) [of p] that by simp
  show "cache_rep (binit s) \<lparr>vol = disk s, dsk = disk s, pinned = {}, held = Map.empty\<rparr>"
  proof (rule cache_repI [OF l])
    show "disk (binit s) = dsk \<lparr>vol = disk s, dsk = disk s, pinned = {}, held = Map.empty\<rparr>" using f(2) by simp
    show "buf_ok (bufs (binit s) p) p \<lparr>vol = disk s, dsk = disk s, pinned = {}, held = Map.empty\<rparr>" if "p \<in> set buf_ids" for p
      using z [of p] lk [OF that] by (simp add: buf_ok_def zeroed_def initsleeplock_def)
    show "p = q" if "owns (bufs (binit s)) p n" for p q n using that z [of p] by (simp add: owns_def zeroed_def)
  qed simp_all
  show "disksize (binit s) = disksize s" "trace (binit s) = trace s" "bio.more (binit s) = bio.more s" using f(3-5) by simp_all
qed

end
