(* ===== verification/Log.thy ===== *)
theory Log
  imports BioRep
begin

text \<open>
  The write-ahead log (\<^verbatim>\<open>log.c\<close>) on top of the buffer cache, with \<^verbatim>\<open>readsb\<close> of \<^verbatim>\<open>fs.c\<close>.
  An operation that has to wait is the result \<open>Spin\<close>; \<^verbatim>\<open>wakeup\<close> calls change nothing here.
  Reading or writing \<^verbatim>\<open>log.lh.block\<close> beyond its \<^verbatim>\<open>LOGSIZE\<close> = 30 entries is \<open>Fault\<close>.
\<close>

unbundle bit_operations_syntax

abbreviation LOGSIZE :: nat where "LOGSIZE \<equiv> 30"
abbreviation MAXOPBLOCKS :: int where "MAXOPBLOCKS \<equiv> 10"

section \<open>Words in blocks\<close>

text \<open>A 32-bit field of a structure laid over the bytes of a block, least byte first.\<close>

definition get32 :: "block \<Rightarrow> nat \<Rightarrow> u32" where
  "get32 d i = ucast (d i) OR push_bit 8 (ucast (d (i + 1))) OR push_bit 16 (ucast (d (i + 2))) OR push_bit 24 (ucast (d (i + 3)))"

definition put32 :: "nat \<Rightarrow> u32 \<Rightarrow> block \<Rightarrow> block" where
  "put32 i w d = d(i := ucast w, i + 1 := ucast (drop_bit 8 w), i + 2 := ucast (drop_bit 16 w), i + 3 := ucast (drop_bit 24 w))"

lemma get32_put32_same [simp]: "get32 (put32 i w d) i = w"
proof (rule bit_word_eqI)
  fix k assume "k < LENGTH(32)"
  then show "bit (get32 (put32 i w d) i) k = bit w k"
    by (auto simp: get32_def put32_def bit_simps not_less) (auto simp: less_Suc_eq numeral_eq_Suc)
qed

lemma get32_put32_other [simp]: "i + 4 \<le> j \<or> j + 4 \<le> i \<Longrightarrow> get32 (put32 i w d) j = get32 d j"
  by (auto simp: get32_def put32_def)

section \<open>The log\<close>

record log =
  l_start :: u32
  l_size :: int
  outstanding :: int
  committing :: bool
  l_dev :: u32
  lh_n :: int
  lh_block :: "nat \<Rightarrow> u32"

record fsys = bio +
  lg :: log

type_synonym 'a fs_driver = "int \<Rightarrow> bufp \<Rightarrow> 'a fsys_scheme \<Rightarrow> 'a fsys_scheme kres"

definition set_log :: "(log \<Rightarrow> log) \<Rightarrow> 'a fsys_scheme \<Rightarrow> 'a fsys_scheme" where
  "set_log f s = s\<lparr>lg := f (lg s)\<rparr>"

text \<open>\<^verbatim>\<open>install_trans\<close> and \<^verbatim>\<open>write_log\<close>, with the loop over the listed tails.\<close>

fun install_loop :: "'a fs_driver \<Rightarrow> int \<Rightarrow> nat list \<Rightarrow> 'a fsys_scheme \<Rightarrow> 'a fsys_scheme kres" where
  "install_loop rw me [] s = Inr s"
| "install_loop rw me (t # ts) s =
     kbind (bread rw me (l_dev (lg s)) (l_start (lg s) + of_nat t + 1) s) (\<lambda>(lbuf, s1).
     kbind (bread rw me (l_dev (lg s1)) (lh_block (lg s1) t) s1) (\<lambda>(dbuf, s2).
     kbind (bwrite rw me dbuf (set_data dbuf (b_data (bufs s2 lbuf)) s2)) (\<lambda>s3.
     kbind (brelse me lbuf s3) (\<lambda>s4.
     kbind (brelse me dbuf s4) (\<lambda>s5. install_loop rw me ts s5)))))"

definition install_trans :: "'a fs_driver \<Rightarrow> int \<Rightarrow> 'a fsys_scheme \<Rightarrow> 'a fsys_scheme kres" where
  "install_trans rw me s = install_loop rw me [0..<nat (lh_n (lg s))] s"

fun write_log_loop :: "'a fs_driver \<Rightarrow> int \<Rightarrow> nat list \<Rightarrow> 'a fsys_scheme \<Rightarrow> 'a fsys_scheme kres" where
  "write_log_loop rw me [] s = Inr s"
| "write_log_loop rw me (t # ts) s =
     kbind (bread rw me (l_dev (lg s)) (l_start (lg s) + of_nat t + 1) s) (\<lambda>(to, s1).
     kbind (bread rw me (l_dev (lg s1)) (lh_block (lg s1) t) s1) (\<lambda>(from, s2).
     kbind (bwrite rw me to (set_data to (b_data (bufs s2 from)) s2)) (\<lambda>s3.
     kbind (brelse me from s3) (\<lambda>s4.
     kbind (brelse me to s4) (\<lambda>s5. write_log_loop rw me ts s5)))))"

definition write_log :: "'a fs_driver \<Rightarrow> int \<Rightarrow> 'a fsys_scheme \<Rightarrow> 'a fsys_scheme kres" where
  "write_log rw me s = write_log_loop rw me [0..<nat (lh_n (lg s))] s"

text \<open>The header block: the count, then the block numbers.\<close>

definition read_head :: "'a fs_driver \<Rightarrow> int \<Rightarrow> 'a fsys_scheme \<Rightarrow> 'a fsys_scheme kres" where
  "read_head rw me s =
     kbind (bread rw me (l_dev (lg s)) (l_start (lg s)) s) (\<lambda>(b, s1).
     let d = b_data (bufs s1 b); n = sint (get32 d 0) in
     if int LOGSIZE < n then Inl Fault
     else brelse me b (set_log (\<lambda>l. l\<lparr>lh_n := n,
            lh_block := (\<lambda>i. if int i < n then get32 d (4 + 4 * i) else lh_block l i)\<rparr>) s1))"

definition head_block :: "int \<Rightarrow> (nat \<Rightarrow> u32) \<Rightarrow> block \<Rightarrow> block" where
  "head_block n bl d = fold (\<lambda>i. put32 (4 + 4 * i) (bl i)) [0..<nat n] (put32 0 (of_int n) d)"

definition write_head :: "'a fs_driver \<Rightarrow> int \<Rightarrow> 'a fsys_scheme \<Rightarrow> 'a fsys_scheme kres" where
  "write_head rw me s =
     kbind (bread rw me (l_dev (lg s)) (l_start (lg s)) s) (\<lambda>(b, s1).
     if int LOGSIZE < lh_n (lg s1) then Inl Fault
     else kbind (bwrite rw me b (set_data b (head_block (lh_n (lg s1)) (lh_block (lg s1)) (b_data (bufs s1 b))) s1)) (\<lambda>s2.
          brelse me b s2))"

definition recover_from_log :: "'a fs_driver \<Rightarrow> int \<Rightarrow> 'a fsys_scheme \<Rightarrow> 'a fsys_scheme kres" where
  "recover_from_log rw me s =
     kbind (read_head rw me s) (\<lambda>s1.
     kbind (install_trans rw me s1) (\<lambda>s2.
     write_head rw me (set_log (\<lambda>l. l\<lparr>lh_n := 0\<rparr>) s2)))"

text \<open>The superblock and \<^verbatim>\<open>initlog\<close>.\<close>

record superblock =
  sb_size :: u32
  sb_nblocks :: u32
  sb_ninodes :: u32
  sb_nlog :: u32
  sb_logstart :: u32
  sb_inodestart :: u32
  sb_bmapstart :: u32

definition sb_of :: "block \<Rightarrow> superblock" where
  "sb_of d = \<lparr>sb_size = get32 d 0, sb_nblocks = get32 d 4, sb_ninodes = get32 d 8, sb_nlog = get32 d 12,
     sb_logstart = get32 d 16, sb_inodestart = get32 d 20, sb_bmapstart = get32 d 24\<rparr>"

definition readsb :: "'a fs_driver \<Rightarrow> int \<Rightarrow> u32 \<Rightarrow> 'a fsys_scheme \<Rightarrow> (superblock \<times> 'a fsys_scheme) kres" where
  "readsb rw me dv s =
     kbind (bread rw me dv 1 s) (\<lambda>(b, s1).
     kbind (brelse me b s1) (\<lambda>s2. Inr (sb_of (b_data (bufs s1 b)), s2)))"

definition initlog :: "'a fs_driver \<Rightarrow> int \<Rightarrow> u32 \<Rightarrow> 'a fsys_scheme \<Rightarrow> 'a fsys_scheme kres" where
  "initlog rw me dv s =
     (if 512 \<le> 4 + 4 * LOGSIZE then Inl (Panic ''initlog: too big logheader'')
      else kbind (readsb rw me dv s) (\<lambda>(sb, s1).
        recover_from_log rw me (set_log (\<lambda>l. l\<lparr>l_start := sb_logstart sb, l_size := sint (sb_nlog sb), l_dev := dv\<rparr>) s1)))"

definition commit :: "'a fs_driver \<Rightarrow> int \<Rightarrow> 'a fsys_scheme \<Rightarrow> 'a fsys_scheme kres" where
  "commit rw me s =
     (if 0 < lh_n (lg s)
      then kbind (write_log rw me s) (\<lambda>s1.
           kbind (write_head rw me s1) (\<lambda>s2.
           kbind (install_trans rw me s2) (\<lambda>s3.
           write_head rw me (set_log (\<lambda>l. l\<lparr>lh_n := 0\<rparr>) s3))))
      else Inr s)"

section \<open>Operations\<close>

definition begin_op :: "log \<Rightarrow> log kres" where
  "begin_op l =
     (if committing l then Inl Spin
      else if int LOGSIZE < lh_n l + (outstanding l + 1) * MAXOPBLOCKS then Inl Spin
      else Inr (l\<lparr>outstanding := outstanding l + 1\<rparr>))"

text \<open>The first locked section of \<^verbatim>\<open>end_op\<close>: whether the caller commits.\<close>

definition end_op_section :: "log \<Rightarrow> (bool \<times> log) kres" where
  "end_op_section l =
     (let l1 = l\<lparr>outstanding := outstanding l - 1\<rparr> in
      if committing l1 then Inl (Panic ''log.committing'')
      else if outstanding l1 = 0 then Inr (True, l1\<lparr>committing := True\<rparr>)
      else Inr (False, l1))"

definition end_op :: "'a fs_driver \<Rightarrow> int \<Rightarrow> 'a fsys_scheme \<Rightarrow> 'a fsys_scheme kres" where
  "end_op rw me s =
     kbind (end_op_section (lg s)) (\<lambda>(do_commit, l1).
     if do_commit
     then kbind (commit rw me (s\<lparr>lg := l1\<rparr>)) (\<lambda>s1. Inr (set_log (\<lambda>l. l\<lparr>committing := False\<rparr>) s1))
     else Inr (s\<lparr>lg := l1\<rparr>))"

text \<open>\<^verbatim>\<open>log_write\<close>: the entry in the header, then the pin of the buffer.\<close>

definition log_entry :: "u32 \<Rightarrow> log \<Rightarrow> log kres" where
  "log_entry bn l =
     (if int LOGSIZE \<le> lh_n l \<or> l_size l - 1 \<le> lh_n l then Inl (Panic ''too big a transaction'')
      else if outstanding l < 1 then Inl (Panic ''log_write outside of trans'')
      else let i = (case find (\<lambda>i. lh_block l i = bn) [0..<nat (lh_n l)] of Some i \<Rightarrow> i | None \<Rightarrow> nat (lh_n l))
           in Inr (l\<lparr>lh_block := (lh_block l)(i := bn), lh_n := (if int i = lh_n l then lh_n l + 1 else lh_n l)\<rparr>))"

definition log_write :: "bufp \<Rightarrow> 'a fsys_scheme \<Rightarrow> 'a fsys_scheme kres" where
  "log_write b s =
     kbind (log_entry (b_blockno (bufs s b)) (lg s)) (\<lambda>l1.
     Inr (set_buf b (\<lambda>x. x\<lparr>b_dirty := True\<rparr>) (s\<lparr>lg := l1\<rparr>)))"

text \<open>One update the way the comment of \<^verbatim>\<open>log_write\<close> describes it, and a system call that makes several.\<close>

definition update_logged :: "'a fs_driver \<Rightarrow> int \<Rightarrow> u32 \<times> block \<Rightarrow> 'a fsys_scheme \<Rightarrow> 'a fsys_scheme kres" where
  "update_logged rw me u s =
     kbind (bread rw me (l_dev (lg s)) (fst u) s) (\<lambda>(bp, s1).
     kbind (log_write bp (set_data bp (snd u) s1)) (\<lambda>s2. brelse me bp s2))"

fun updates_logged :: "'a fs_driver \<Rightarrow> int \<Rightarrow> (u32 \<times> block) list \<Rightarrow> 'a fsys_scheme \<Rightarrow> 'a fsys_scheme kres" where
  "updates_logged rw me [] s = Inr s"
| "updates_logged rw me (u # us) s = kbind (update_logged rw me u s) (updates_logged rw me us)"

definition transaction :: "'a fs_driver \<Rightarrow> int \<Rightarrow> (u32 \<times> block) list \<Rightarrow> 'a fsys_scheme \<Rightarrow> 'a fsys_scheme kres" where
  "transaction rw me us s =
     kbind (begin_op (lg s)) (\<lambda>l.
     kbind (updates_logged rw me us (s\<lparr>lg := l\<rparr>)) (end_op rw me))"

end
