(* ===== verification/LogRep.thy ===== *)
theory LogRep
  imports Log
begin

text \<open>
  The log functions on the contract of the buffer cache: what each of them does to the
  blocks as seen (\<open>vol\<close>), to the disk (\<open>dsk\<close>) and to the trace of disks.
\<close>

lemma set_log_simps [simp]:
  "bufs (set_log f s) = bufs s" "disk (set_log f s) = disk s" "disksize (set_log f s) = disksize s"
  "trace (set_log f s) = trace s" "lg (set_log f s) = f (lg s)" "fsys.more (set_log f s) = fsys.more s"
  by (simp_all add: set_log_def)

lemma cache_rep_cong: "bufs s' = bufs s \<Longrightarrow> disk s' = disk s \<Longrightarrow> cache_rep s A \<Longrightarrow> cache_rep s' A"
  by (simp add: cache_rep_def)

lemma cache_rep_set_log [simp]: "cache_rep (set_log f s) A = cache_rep s A"
  by (simp add: cache_rep_def)

lemma lg_more: "bio.more s' = bio.more s \<Longrightarrow> lg s' = lg s \<and> fsys.more s' = fsys.more s"
  by (cases s; cases s') simp

abbreviation cch :: "(u32 \<Rightarrow> block) \<Rightarrow> (u32 \<Rightarrow> block) \<Rightarrow> u32 set \<Rightarrow> (u32 \<Rightarrow> (int \<times> bufp) option) \<Rightarrow> cache" where
  "cch V D P H \<equiv> \<lparr>vol = V, dsk = D, pinned = P, held = H\<rparr>"

text \<open>Nobody holds a buffer.\<close>

abbreviation quiet :: "(u32 \<Rightarrow> block) \<Rightarrow> (u32 \<Rightarrow> block) \<Rightarrow> u32 set \<Rightarrow> cache" where
  "quiet V D P \<equiv> cch V D P Map.empty"

context disk_driver
begin

text \<open>Reading, changing and writing one block.\<close>

lemma update_block:
  assumes r: "cache_rep s (quiet V D P)" and n: "n \<in> P \<or> card P < NBUF" "n < disksize s"
  shows "\<exists>b s1. bread rw me 1 n s = Inr (b, s1) \<and> b_data (bufs s1 b) = V n \<and> bio.more s1 = bio.more s \<and>
    (\<forall>d. \<exists>s2 s3. bwrite rw me b (set_data b d s1) = Inr s2 \<and> brelse me b s2 = Inr s3 \<and>
      cache_rep s3 (quiet (V(n := d)) (D(n := d)) (P - {n})) \<and>
      disksize s3 = disksize s \<and> trace s3 = D(n := d) # trace s \<and> bio.more s3 = bio.more s)"
proof -
  from bread_rep [OF r, of n me] n obtain b s1 where
    b: "bread rw me 1 n s = Inr (b, s1)" "cache_rep s1 (cch V D P [n \<mapsto> (me, b)])" "b_data (bufs s1 b) = V n"
    "disksize s1 = disksize s" "trace s1 = trace s" "bio.more s1 = bio.more s" by auto
  have "\<exists>s2 s3. bwrite rw me b (set_data b d s1) = Inr s2 \<and> brelse me b s2 = Inr s3 \<and>
      cache_rep s3 (quiet (V(n := d)) (D(n := d)) (P - {n})) \<and>
      disksize s3 = disksize s \<and> trace s3 = D(n := d) # trace s \<and> bio.more s3 = bio.more s" for d
  proof -
    from set_data_rep [OF b(2), of n me b d] have 1: "cache_rep (set_data b d s1) (cch (V(n := d)) D P [n \<mapsto> (me, b)])" by simp
    from bwrite_rep [OF 1, of n me b] b(4) n(2) obtain s2 where
      2: "bwrite rw me b (set_data b d s1) = Inr s2" "disksize s2 = disksize s" "trace s2 = D(n := d) # trace s" "bio.more s2 = bio.more s"
      "cache_rep s2 (cch (V(n := d)) (D(n := d)) (P - {n}) [n \<mapsto> (me, b)])"
      using b by auto
    from brelse_rep [OF 2(5), of n me b] show ?thesis using 2 by auto
  qed
  with b show ?thesis by blast
qed

text \<open>Copying the block \<open>sn\<close> over the block \<open>dn\<close>, both read in either order.\<close>

lemma copy_block:
  assumes r: "cache_rep s (quiet V D P)" and n: "sn \<noteq> dn" "{m, n} = {sn, dn}" "m < disksize s" "n < disksize s"
    and room: "m \<in> P \<or> card P < NBUF" "n \<in> P \<or> card (insert m P) < NBUF"
  shows "\<exists>b1 s1 b2 s2. bread rw me 1 m s = Inr (b1, s1) \<and> bread rw me 1 n s1 = Inr (b2, s2) \<and> bio.more s1 = bio.more s \<and>
    (let sb = (if m = sn then b1 else b2); db = (if m = sn then b2 else b1) in
     \<exists>s3 s4 s5. bwrite rw me db (set_data db (b_data (bufs s2 sb)) s2) = Inr s3 \<and> brelse me sb s3 = Inr s4 \<and> brelse me db s4 = Inr s5 \<and>
       cache_rep s5 (quiet (V(dn := V sn)) (D(dn := V sn)) (P - {dn})) \<and>
       disksize s5 = disksize s \<and> trace s5 = D(dn := V sn) # trace s \<and> bio.more s5 = bio.more s)"
proof -
  have mn: "m \<noteq> n" and dn: "dn < disksize s" using n by auto
  from bread_rep [OF r, of m me] n(3) room(1) obtain b1 s1 where
    1: "bread rw me 1 m s = Inr (b1, s1)" "cache_rep s1 (cch V D P [m \<mapsto> (me, b1)])"
    "disksize s1 = disksize s" "trace s1 = trace s" "bio.more s1 = bio.more s" by auto
  from bread_rep [OF 1(2), of n me] mn n(4) room(2) 1(3) obtain b2 s2 where
    2: "bread rw me 1 n s1 = Inr (b2, s2)" "cache_rep s2 (cch V D P [m \<mapsto> (me, b1), n \<mapsto> (me, b2)])"
    "disksize s2 = disksize s" "trace s2 = trace s" "bio.more s2 = bio.more s" using 1 by auto
  define sb db where "sb = (if m = sn then b1 else b2)" and "db = (if m = sn then b2 else b1)"
  have h: "[m \<mapsto> (me, b1), n \<mapsto> (me, b2)] = [sn \<mapsto> (me, sb), dn \<mapsto> (me, db)]"
    using n(1,2) by (auto simp: sb_def db_def doubleton_eq_iff fun_upd_twist)
  have rep: "cache_rep s2 (cch V D P [sn \<mapsto> (me, sb), dn \<mapsto> (me, db)])" using 2(2) unfolding h .
  from held_buf(5) [OF rep, of sn me sb] n(1) have sd: "b_data (bufs s2 sb) = V sn" by simp
  from set_data_rep [OF rep, of dn me db "V sn"] have
    3: "cache_rep (set_data db (V sn) s2) (cch (V(dn := V sn)) D P [sn \<mapsto> (me, sb), dn \<mapsto> (me, db)])" by simp
  from bwrite_rep [OF 3, of dn me db] 2 dn obtain s3 where
    4: "bwrite rw me db (set_data db (V sn) s2) = Inr s3" "disksize s3 = disksize s" "trace s3 = D(dn := V sn) # trace s"
    "bio.more s3 = bio.more s" "cache_rep s3 (cch (V(dn := V sn)) (D(dn := V sn)) (P - {dn}) [sn \<mapsto> (me, sb), dn \<mapsto> (me, db)])" by auto
  have h2: "[sn \<mapsto> (me, sb), dn \<mapsto> (me, db)](sn := None) = [dn \<mapsto> (me, db)]" using n(1) by auto
  have "V sn = D sn \<or> sn \<in> P" using cache_repD(6) [OF r, of sn] by auto
  with brelse_rep [OF 4(5), of sn me sb] n(1) obtain s4 where
    5: "brelse me sb s3 = Inr s4" "disksize s4 = disksize s" "trace s4 = D(dn := V sn) # trace s" "bio.more s4 = bio.more s"
    "cache_rep s4 (cch (V(dn := V sn)) (D(dn := V sn)) (P - {dn}) [dn \<mapsto> (me, db)])"
    using 4 h2 by auto
  from brelse_rep [OF 5(5), of dn me db] obtain s5 where
    6: "brelse me db s4 = Inr s5" "disksize s5 = disksize s" "trace s5 = D(dn := V sn) # trace s" "bio.more s5 = bio.more s"
    "cache_rep s5 (quiet (V(dn := V sn)) (D(dn := V sn)) (P - {dn}))"
    using 5 by auto
  show ?thesis unfolding Let_def
    using 1(1,5) 2(1) 4(1) [folded sd] 5(1) 6 unfolding sb_def db_def by blast
qed

end

end
