(* ===== verification/LogCrash.thy ===== *)
theory LogCrash
  imports LogRep
begin

text \<open>
  Commit and recovery as functions on disks, and the disks that a crash can leave behind.
\<close>

section \<open>The log area\<close>

definition log_area :: "u32 \<Rightarrow> nat \<Rightarrow> u32 set" where
  "log_area st n = (\<lambda>i. st + of_nat i) ` {..n}"

text \<open>A log with \<open>n\<close> entries fits the disk, and its blocks have their homes outside the log.\<close>

definition log_fits :: "u32 \<Rightarrow> nat \<Rightarrow> (nat \<Rightarrow> u32) \<Rightarrow> u32 \<Rightarrow> bool" where
  "log_fits st n bl dz \<longleftrightarrow> unat st + n < unat dz \<and> (\<forall>t < n. bl t < dz \<and> bl t \<notin> log_area st n)"

lemma log_slot: "st + of_nat t + 1 = st + (of_nat (Suc t) :: u32)"
  by simp

lemma log_area_less:
  assumes "unat st + n < unat (dz :: u32)" "i \<le> n"
  shows "st + of_nat i < dz"
proof -
  have "unat st + n < 2 ^ 32" using assms(1) unsigned_less [of dz, where 'a = nat] by simp
  then have "unat (st + of_nat i) = unat st + i" using assms(2) by (simp add: unat_word_ariths unat_of_nat)
  then show ?thesis using assms by (simp add: word_less_nat_alt)
qed

lemma log_area_inj:
  assumes "unat st + n < unat (dz :: u32)" "i \<le> n" "j \<le> n"
  shows "st + of_nat i = st + (of_nat j :: u32) \<longleftrightarrow> i = j"
proof -
  have "i < 2 ^ 32" "j < 2 ^ 32" using assms unsigned_less [of dz, where 'a = nat] by simp_all
  then have "(of_nat i :: u32) = of_nat j \<longleftrightarrow> i = j" by (auto simp: word_unat_eq_iff unat_of_nat)
  then show ?thesis by simp
qed

lemma in_log_area: "i \<le> n \<Longrightarrow> st + of_nat i \<in> log_area st n"
  by (auto simp: log_area_def)

lemma log_fits_slot:
  assumes "log_fits st n bl dz" "Suc k \<le> n"
  shows "st + of_nat (Suc k) \<in> log_area st n" "st + of_nat (Suc k) < dz" "bl k < dz" "bl k \<notin> log_area st n" "bl k \<noteq> st + of_nat (Suc k)"
proof -
  show "st + of_nat (Suc k) \<in> log_area st n" using assms(2) by (rule in_log_area)
  moreover show "st + of_nat (Suc k) < dz" by (rule log_area_less) (use assms in \<open>auto simp: log_fits_def\<close>)
  moreover show "bl k < dz" "bl k \<notin> log_area st n" using assms by (simp_all add: log_fits_def)
  ultimately show "bl k \<noteq> st + of_nat (Suc k)" by metis
qed

section \<open>Installing and logging, on disks\<close>

definition installed :: "u32 \<Rightarrow> (nat \<Rightarrow> u32) \<Rightarrow> nat \<Rightarrow> (u32 \<Rightarrow> block) \<Rightarrow> u32 \<Rightarrow> block" where
  "installed st bl k d = fold (\<lambda>t d. d(bl t := d (st + of_nat (Suc t)))) [0..<k] d"

definition logged :: "u32 \<Rightarrow> (nat \<Rightarrow> u32) \<Rightarrow> nat \<Rightarrow> (u32 \<Rightarrow> block) \<Rightarrow> (u32 \<Rightarrow> block) \<Rightarrow> u32 \<Rightarrow> block" where
  "logged st bl k V d = fold (\<lambda>t d. d(st + of_nat (Suc t) := V (bl t))) [0..<k] d"

lemma installed_simps [simp]:
  "installed st bl 0 d = d"
  "installed st bl (Suc k) d = (installed st bl k d)(bl k := installed st bl k d (st + of_nat (Suc k)))"
  by (simp_all add: installed_def)

lemma logged_simps [simp]:
  "logged st bl 0 V d = d"
  "logged st bl (Suc k) V d = (logged st bl k V d)(st + of_nat (Suc k) := V (bl k))"
  by (simp_all add: logged_def)

lemma installed_other: "(\<And>t. t < k \<Longrightarrow> bl t \<noteq> b) \<Longrightarrow> installed st bl k d b = d b"
  by (induction k) auto

lemma installed_log:
  assumes "log_fits st n bl dz" "k \<le> n" "b \<in> log_area st n"
  shows "installed st bl k d b = d b"
  by (rule installed_other) (use assms in \<open>auto simp: log_fits_def\<close>)

lemma installed_home:
  assumes "log_fits st n bl dz" "k \<le> n" and "\<And>t. t < n \<Longrightarrow> d (st + of_nat (Suc t)) = V (bl t)"
  shows "installed st bl k d b = (if b \<in> bl ` {..<k} then V b else d b)"
  using assms(2)
proof (induction k)
  case (Suc k)
  then have "installed st bl k d (st + of_nat (Suc k)) = V (bl k)"
    using installed_log [OF assms(1), of k "st + of_nat (Suc k)" d] in_log_area [of "Suc k" n st] assms(3) [of k] by auto
  then show ?case using Suc by (auto simp: less_Suc_eq)
qed simp

lemma logged_other: "(\<And>t. t < k \<Longrightarrow> b \<noteq> st + of_nat (Suc t)) \<Longrightarrow> logged st bl k V d b = d b"
  by (induction k) (simp_all only: logged_simps fun_upd_apply, auto)

lemma logged_home: "b \<notin> log_area st n \<Longrightarrow> k \<le> n \<Longrightarrow> logged st bl k V d b = d b"
  by (rule logged_other) (metis in_log_area Suc_leI order_trans)

lemma logged_at:
  assumes "unat st + n < unat (dz :: u32)" "k \<le> n" "t < k"
  shows "logged st bl k V d (st + of_nat (Suc t)) = V (bl t)"
  using assms(2,3)
proof (induction k)
  case (Suc k)
  then have "st + of_nat (Suc t) = st + (of_nat (Suc k) :: u32) \<longleftrightarrow> t = k" using log_area_inj [OF assms(1), of "Suc t" "Suc k"] by simp
  with Suc show ?case by (simp only: logged_simps) (auto simp: less_Suc_eq)
qed simp

lemma logged_head:
  assumes "unat st + n < unat (dz :: u32)" "k \<le> n"
  shows "logged st bl k V d st = d st"
proof (rule logged_other)
  show "st \<noteq> st + of_nat (Suc t)" if "t < k" for t using log_area_inj [OF assms(1), of 0 "Suc t"] assms(2) that by simp
qed

section \<open>The loops\<close>

definition room :: "u32 set \<Rightarrow> (nat \<Rightarrow> u32) \<Rightarrow> nat \<Rightarrow> bool" where
  "room P bl n \<longleftrightarrow> finite P \<and> card P < NBUF \<and> (\<forall>t < n. bl t \<in> P \<or> card P < 29)"

lemma room_minus: "room P bl n \<Longrightarrow> k < n \<Longrightarrow> room (P - bl ` {..<k}) bl n"
proof (induction k)
  case (Suc k)
  let ?P = "P - bl ` {..<k}"
  have r: "room ?P bl n" using Suc by simp
  have e: "P - bl ` {..<Suc k} = ?P - {bl k}" by (auto simp: less_Suc_eq)
  have "card (?P - {bl k}) \<le> card ?P" "bl k \<in> ?P \<Longrightarrow> card (?P - {bl k}) < card ?P"
    using r by (auto simp only: room_def intro: card_Diff1_le card_Diff1_less)
  then show ?case unfolding e using r by (force simp: room_def)
qed simp

lemma room_insert: "room P bl n \<Longrightarrow> t < n \<Longrightarrow> bl t \<in> P \<or> card (insert m P) < NBUF"
  using card_insert_le_m1 [of 30 P m] by (auto simp: room_def card_insert_if)

lemma rev_upt_Suc: "rev [1..<Suc (Suc k)] = Suc k # rev [1..<Suc k]"
  by simp

lemma loop_append:
  "install_loop rw me (xs @ ys) s = kbind (install_loop rw me xs s) (install_loop rw me ys)"
  "write_log_loop rw me (xs @ ys) s = kbind (write_log_loop rw me xs s) (write_log_loop rw me ys)"
  by (induction xs arbitrary: s) (auto simp: kbind_def split: sum.split)

text \<open>The driver, on the state with the log.\<close>

locale log_driver = disk_driver rw for rw :: "'a fs_driver"

interpretation memlog: log_driver iderw
  by unfold_locales

context log_driver
begin

lemma install_loop_rep:
  assumes r: "cache_rep s (quiet V D P)" and l: "l_dev (lg s) = 1" "l_start (lg s) = st" "\<And>t. t < n \<Longrightarrow> lh_block (lg s) t = bl t"
    and f: "log_fits st n bl (disksize s)" and P: "room P bl n" "P \<inter> log_area st n = {}" and k: "k \<le> n"
  shows "\<exists>s'. install_loop rw me [0..<k] s = Inr s' \<and>
    cache_rep s' (quiet (installed st bl k V) (installed st bl k D) (P - bl ` {..<k})) \<and>
    disksize s' = disksize s \<and> bio.more s' = bio.more s \<and> trace s' = map (\<lambda>j. installed st bl j D) (rev [1..<Suc k]) @ trace s"
  using k
proof (induction k)
  case 0
  then show ?case using r by simp
next
  case (Suc k)
  let ?V = "installed st bl k V" and ?D = "installed st bl k D" and ?P = "P - bl ` {..<k}" and ?L = "st + of_nat (Suc k)"
  from Suc obtain s1 where 1: "install_loop rw me [0..<k] s = Inr s1" "cache_rep s1 (quiet ?V ?D ?P)"
    "disksize s1 = disksize s" "bio.more s1 = bio.more s" "trace s1 = map (\<lambda>j. installed st bl j D) (rev [1..<Suc k]) @ trace s" by auto
  note L = log_fits_slot [OF f Suc.prems]
  have rm: "room ?P bl n" using room_minus [OF P(1), of k] Suc.prems by simp
  have e: "?V ?L = ?D ?L" using cache_repD(6) [OF 1(2), of ?L] P(2) L(1) by (metis (no_types, lifting) DiffD1 cache.select_convs disjoint_iff)
  from copy_block [OF 1(2), of ?L "bl k" ?L "bl k" me] L 1(3) rm room_insert [OF rm, of k ?L] Suc.prems
  obtain b1 s2 b2 s3 s4 s5 s6 where 2: "bread rw me 1 ?L s1 = Inr (b1, s2)" "bread rw me 1 (bl k) s2 = Inr (b2, s3)" "bio.more s2 = bio.more s1"
    "bwrite rw me b2 (set_data b2 (b_data (bufs s3 b1)) s3) = Inr s4" "brelse me b1 s4 = Inr s5" "brelse me b2 s5 = Inr s6"
    and 3: "cache_rep s6 (quiet (?V(bl k := ?V ?L)) (?D(bl k := ?V ?L)) (?P - {bl k}))" "disksize s6 = disksize s1"
    "trace s6 = ?D(bl k := ?V ?L) # trace s1" "bio.more s6 = bio.more s1"
    by (auto simp: Let_def room_def)
  have "install_loop rw me [0..<Suc k] s = Inr s6"
    using 1(1,4) 2 l lg_more [of s1 s] lg_more [of s2 s1] Suc.prems by (simp add: loop_append log_slot del: of_nat_Suc)
  moreover have p: "?P - {bl k} = P - bl ` {..<Suc k}" by (auto simp: less_Suc_eq)
  have "cache_rep s6 (quiet (installed st bl (Suc k) V) (installed st bl (Suc k) D) (P - bl ` {..<Suc k}))"
    unfolding installed_simps e p [symmetric] using 3(1) [unfolded e] .
  moreover have "trace s6 = map (\<lambda>j. installed st bl j D) (rev [1..<Suc (Suc k)]) @ trace s"
    unfolding rev_upt_Suc list.map installed_simps append.simps using 3(3) [unfolded e 1(5)] .
  moreover have "disksize s6 = disksize s" "bio.more s6 = bio.more s" using 3(2,4) 1(3,4) by simp_all
  ultimately show ?case by blast
qed

lemma write_log_rep:
  assumes r: "cache_rep s (quiet V D P)" and l: "l_dev (lg s) = 1" "l_start (lg s) = st" "\<And>t. t < n \<Longrightarrow> lh_block (lg s) t = bl t"
    and f: "log_fits st n bl (disksize s)" and P: "finite P" "card P < NBUF" "bl ` {..<n} \<subseteq> P" "P \<inter> log_area st n = {}" and k: "k \<le> n"
  shows "\<exists>s'. write_log_loop rw me [0..<k] s = Inr s' \<and> cache_rep s' (quiet (logged st bl k V V) (logged st bl k V D) P) \<and>
    disksize s' = disksize s \<and> bio.more s' = bio.more s \<and> trace s' = map (\<lambda>j. logged st bl j V D) (rev [1..<Suc k]) @ trace s"
  using k
proof (induction k)
  case 0
  then show ?case using r by simp
next
  case (Suc k)
  let ?V = "logged st bl k V V" and ?D = "logged st bl k V D" and ?L = "st + of_nat (Suc k)"
  from Suc obtain s1 where 1: "write_log_loop rw me [0..<k] s = Inr s1" "cache_rep s1 (quiet ?V ?D P)"
    "disksize s1 = disksize s" "bio.more s1 = bio.more s" "trace s1 = map (\<lambda>j. logged st bl j V D) (rev [1..<Suc k]) @ trace s" by auto
  note L = log_fits_slot [OF f Suc.prems]
  have e: "?V (bl k) = V (bl k)" by (rule logged_home [OF L(4)]) (use Suc.prems in simp)
  have P': "bl k \<in> P" "?L \<notin> P" using P(3,4) Suc.prems L(1) by auto
  from copy_block [OF 1(2), of "bl k" ?L ?L "bl k" me] L P' 1(3) P(2)
  obtain b1 s2 b2 s3 s4 s5 s6 where 2: "bread rw me 1 ?L s1 = Inr (b1, s2)" "bread rw me 1 (bl k) s2 = Inr (b2, s3)" "bio.more s2 = bio.more s1"
    "bwrite rw me b1 (set_data b1 (b_data (bufs s3 b2)) s3) = Inr s4" "brelse me b2 s4 = Inr s5" "brelse me b1 s5 = Inr s6"
    and 3: "cache_rep s6 (quiet (?V(?L := ?V (bl k))) (?D(?L := ?V (bl k))) (P - {?L}))" "disksize s6 = disksize s1"
    "trace s6 = ?D(?L := ?V (bl k)) # trace s1" "bio.more s6 = bio.more s1"
    by (auto simp: Let_def insert_commute)
  have "write_log_loop rw me [0..<Suc k] s = Inr s6"
    using 1(1,4) 2 l lg_more [of s1 s] lg_more [of s2 s1] Suc.prems by (simp add: loop_append log_slot del: of_nat_Suc)
  moreover have p: "P - {?L} = P" using P'(2) by blast
  have "cache_rep s6 (quiet (logged st bl (Suc k) V V) (logged st bl (Suc k) V D) P)"
    unfolding logged_simps using 3(1) [unfolded e p] .
  moreover have "trace s6 = map (\<lambda>j. logged st bl j V D) (rev [1..<Suc (Suc k)]) @ trace s"
    unfolding rev_upt_Suc list.map logged_simps append.simps using 3(3) [unfolded e 1(5)] .
  moreover have "disksize s6 = disksize s" "bio.more s6 = bio.more s" using 3(2,4) 1(3,4) by simp_all
  ultimately show ?case by blast
qed

section \<open>The header\<close>

lemma write_head_rep:
  assumes r: "cache_rep s (quiet V D P)" and l: "l_dev (lg s) = 1" "l_start (lg s) = st" "lh_n (lg s) \<le> 30"
    and P: "card P < NBUF" "st \<notin> P" "st < disksize s"
  shows "\<exists>s'. write_head rw me s = Inr s' \<and>
    (let h = head_block (lh_n (lg s)) (lh_block (lg s)) (V st) in
     cache_rep s' (quiet (V(st := h)) (D(st := h)) P) \<and> trace s' = D(st := h) # trace s) \<and>
    disksize s' = disksize s \<and> bio.more s' = bio.more s"
proof -
  from update_block [OF r, of st me] P obtain b s1 where
    b: "bread rw me 1 st s = Inr (b, s1)" "b_data (bufs s1 b) = V st" "bio.more s1 = bio.more s"
    and w: "\<forall>d. \<exists>s2 s3. bwrite rw me b (set_data b d s1) = Inr s2 \<and> brelse me b s2 = Inr s3 \<and>
      cache_rep s3 (quiet (V(st := d)) (D(st := d)) (P - {st})) \<and>
      disksize s3 = disksize s \<and> trace s3 = D(st := d) # trace s \<and> bio.more s3 = bio.more s" by blast
  from w obtain s2 s3 where "bwrite rw me b (set_data b (head_block (lh_n (lg s)) (lh_block (lg s)) (V st)) s1) = Inr s2" "brelse me b s2 = Inr s3"
    "cache_rep s3 (quiet (V(st := head_block (lh_n (lg s)) (lh_block (lg s)) (V st))) (D(st := head_block (lh_n (lg s)) (lh_block (lg s)) (V st))) (P - {st}))"
    "disksize s3 = disksize s" "trace s3 = D(st := head_block (lh_n (lg s)) (lh_block (lg s)) (V st)) # trace s" "bio.more s3 = bio.more s" by blast
  moreover have "P - {st} = P" using P(2) by blast
  ultimately show ?thesis using b l lg_more [of s1 s] by (simp add: write_head_def Let_def)
qed

lemma read_block:
  assumes r: "cache_rep s (quiet V D P)" and n: "n \<in> P \<or> card P < NBUF" "n < disksize s"
  shows "\<exists>b s1. bread rw me 1 n s = Inr (b, s1) \<and> b_data (bufs s1 b) = V n \<and> bio.more s1 = bio.more s \<and>
    (\<forall>s1' :: 'a fsys_scheme. bufs s1' = bufs s1 \<longrightarrow> disk s1' = disk s1 \<longrightarrow>
      (\<exists>s2. brelse me b s1' = Inr s2 \<and> cache_rep s2 (quiet V D P) \<and> disksize s2 = disksize s1' \<and> trace s2 = trace s1' \<and> bio.more s2 = bio.more s1')) \<and>
    disksize s1 = disksize s \<and> trace s1 = trace s"
proof -
  from bread_rep [OF r, of n me] n obtain b s1 where
    b: "bread rw me 1 n s = Inr (b, s1)" "cache_rep s1 (cch V D P [n \<mapsto> (me, b)])" "b_data (bufs s1 b) = V n"
    "disksize s1 = disksize s" "trace s1 = trace s" "bio.more s1 = bio.more s" by auto
  have v: "V n = D n \<or> n \<in> P" using cache_repD(6) [OF r, of n] by auto
  have "\<exists>s2. brelse me b s1' = Inr s2 \<and> cache_rep s2 (quiet V D P) \<and> disksize s2 = disksize s1' \<and> trace s2 = trace s1' \<and> bio.more s2 = bio.more s1'"
    if "bufs s1' = bufs s1" "disk s1' = disk s1" for s1' :: "'a fsys_scheme"
    using brelse_rep [OF cache_rep_cong [OF that b(2)], of n me b] v by auto
  with b show ?thesis by blast
qed

end

end
