(* ===== verification/LogAtomic.thy ===== *)
theory LogAtomic
  imports LogCrash
begin

text \<open>
  Crash safety of the log: the disks that \<^verbatim>\<open>commit\<close> and \<^verbatim>\<open>recover_from_log\<close> go through,
  and what a recovery started on each of them makes of the blocks outside the log.
\<close>

section \<open>The header block\<close>

lemma sint_small: "0 \<le> n \<Longrightarrow> n < 2 ^ 31 \<Longrightarrow> sint (of_int n :: u32) = n"
  by (simp add: sint_sbintrunc' signed_take_bit_int_eq_self)

definition hdr_n :: "block \<Rightarrow> int" where "hdr_n d = sint (get32 d 0)"
definition hdr_block :: "block \<Rightarrow> nat \<Rightarrow> u32" where "hdr_block d i = get32 d (4 + 4 * i)"

lemma head_fold:
  "hdr_n (fold (\<lambda>i. put32 (4 + 4 * i) (bl i)) [0..<k] d) = hdr_n d"
  "hdr_block (fold (\<lambda>i. put32 (4 + 4 * i) (bl i)) [0..<k] d) i = (if i < k then bl i else hdr_block d i)"
proof (induction k)
  case (Suc k)
  case 1 show ?case using Suc by (simp add: hdr_n_def)
  case 2
  have "i = k \<or> 4 + 4 * k + 4 \<le> 4 + 4 * i \<or> 4 + 4 * i + 4 \<le> 4 + 4 * k" by arith
  then show ?case using Suc(2) by (auto simp: hdr_block_def less_Suc_eq)
qed simp_all

lemma head_block_n: "0 \<le> n \<Longrightarrow> n \<le> 30 \<Longrightarrow> hdr_n (head_block n bl d) = n"
  unfolding head_block_def head_fold by (simp add: hdr_n_def sint_small)

lemma head_block_bl: "int i < n \<Longrightarrow> hdr_block (head_block n bl d) i = bl i"
  unfolding head_block_def head_fold by (simp add: zless_nat_eq_int_zless)

section \<open>What a recovery makes of a disk\<close>

definition recovered :: "u32 \<Rightarrow> (u32 \<Rightarrow> block) \<Rightarrow> u32 \<Rightarrow> block" where
  "recovered st d = installed st (hdr_block (d st)) (nat (hdr_n (d st))) d"

lemma installed_cong: "(\<And>t. t < k \<Longrightarrow> bl t = bl' t) \<Longrightarrow> installed st bl k d = installed st bl' k d"
  by (induction k) simp_all

lemma recovered_empty: "hdr_n (d st) = 0 \<Longrightarrow> recovered st d = d"
  by (simp add: recovered_def)

lemma recovered_full:
  assumes "log_fits st n bl dz" "hdr_n (d st) = int n" "\<And>t. t < n \<Longrightarrow> hdr_block (d st) t = bl t"
    and "\<And>t. t < n \<Longrightarrow> d (st + of_nat (Suc t)) = V (bl t)"
  shows "recovered st d b = (if b \<in> bl ` {..<n} then V b else d b)"
proof -
  have n: "nat (hdr_n (d st)) = n" using assms(2) by simp
  have "recovered st d = installed st bl n d" unfolding recovered_def n by (rule installed_cong) (rule assms(3))
  then show ?thesis using installed_home [OF assms(1) order_refl, of d V b] assms(4) by simp
qed

lemma installed_head: "log_fits st n bl dz \<Longrightarrow> k \<le> n \<Longrightarrow> installed st bl k d st = d st"
  by (rule installed_log) (use in_log_area [of 0 n st] in simp_all)

lemma installed_agree:
  assumes f: "log_fits st n bl dz" and d: "\<And>t. t < n \<Longrightarrow> d (st + of_nat (Suc t)) = d' (st + of_nat (Suc t))"
  shows "k \<le> n \<Longrightarrow> b \<in> bl ` {..<k} \<Longrightarrow> installed st bl k d b = installed st bl k d' b"
proof (induction k)
  case (Suc k)
  have "installed st bl k e (st + of_nat (Suc k)) = e (st + of_nat (Suc k))" for e
    by (rule installed_log [OF f]) (use Suc.prems in_log_area [of "Suc k" n st] in simp_all)
  moreover have "b = bl k \<or> b \<in> bl ` {..<k}" using Suc.prems by (auto simp: less_Suc_eq)
  ultimately show ?case using Suc d [of k] unfolding installed_simps by auto
qed simp

text \<open>A recovery that was cut short is repeated with the same result.\<close>

lemma recovered_installed:
  assumes f: "log_fits st n bl dz" and b: "bl = hdr_block (d st)" and k: "k \<le> n" and n: "n = nat (hdr_n (d st))"
  shows "recovered st (installed st bl k d) = recovered st d"
proof
  fix x
  have "installed st bl k d (st + of_nat (Suc t)) = d (st + of_nat (Suc t))" if "t < n" for t
    by (rule installed_log [OF f k]) (use that in_log_area [of "Suc t" n st] in simp)
  note agree = installed_agree [where d = "installed st bl k d" and d' = d, OF f this order_refl, of x]
  have "installed st bl n (installed st bl k d) x = installed st bl n d x"
  proof (cases "x \<in> bl ` {..<n}")
    case False
    then have "\<And>t. t < n \<Longrightarrow> bl t \<noteq> x" "\<And>t. t < k \<Longrightarrow> bl t \<noteq> x" using k by auto
    then show ?thesis by (simp add: installed_other)
  qed (rule agree)
  moreover have "installed st bl k d st = d st" by (rule installed_head [OF f k])
  ultimately show "recovered st (installed st bl k d) x = recovered st d x" unfolding recovered_def by (simp only: b [symmetric] n [symmetric])
qed

text \<open>A disk that a recovery can start from.\<close>

definition log_sane :: "u32 \<Rightarrow> u32 \<Rightarrow> (u32 \<Rightarrow> block) \<Rightarrow> bool" where
  "log_sane st dz d \<longleftrightarrow> 0 \<le> hdr_n (d st) \<and> hdr_n (d st) \<le> 30 \<and> log_fits st (nat (hdr_n (d st))) (hdr_block (d st)) dz"

lemma log_fits_cong: "(\<And>t. t < n \<Longrightarrow> bl t = bl' t) \<Longrightarrow> log_fits st n bl dz \<Longrightarrow> log_fits st n bl' dz"
  by (simp add: log_fits_def)

lemma st_in_area: "st \<in> log_area st n"
  using in_log_area [of 0 n st] by simp

lemma st_less: "log_fits st n bl dz \<Longrightarrow> st < dz"
  using log_area_less [of st n dz 0] by (simp add: log_fits_def)

section \<open>The disks of a commit\<close>

text \<open>
  \<open>D\<close> is the disk, \<open>V\<close> what the users of the cache see. The first phase leaves the header
  alone; from the second on the header lists the blocks and the log holds their new bytes.
\<close>

definition committed :: "u32 \<Rightarrow> nat \<Rightarrow> (nat \<Rightarrow> u32) \<Rightarrow> (u32 \<Rightarrow> block) \<Rightarrow> (u32 \<Rightarrow> block) \<Rightarrow> u32 \<Rightarrow> block" where
  "committed st n bl V D = (logged st bl n V D)(st := head_block (int n) bl (D st))"

definition commit_ready :: "u32 \<Rightarrow> nat \<Rightarrow> (nat \<Rightarrow> u32) \<Rightarrow> u32 \<Rightarrow> (u32 \<Rightarrow> block) \<Rightarrow> (u32 \<Rightarrow> block) \<Rightarrow> bool" where
  "commit_ready st n bl dz V D \<longleftrightarrow> log_fits st n bl dz \<and> n \<le> 29 \<and> hdr_n (D st) = 0 \<and> (\<forall>b. b \<notin> bl ` {..<n} \<longrightarrow> V b = D b)"

lemma commit_readyD:
  assumes "commit_ready st n bl dz V D"
  shows "log_fits st n bl dz" "n \<le> 29" "hdr_n (D st) = 0" "b \<notin> bl ` {..<n} \<Longrightarrow> V b = D b" "unat st + n < unat dz"
  using assms by (simp_all add: commit_ready_def log_fits_def)

lemma slot_not_head:
  assumes "log_fits st n bl dz" "t < n"
  shows "st + of_nat (Suc t) \<noteq> st"
  using log_area_inj [of st n dz "Suc t" 0] assms by (simp add: log_fits_def)

lemma phase1:
  assumes c: "commit_ready st n bl dz V D" and "j \<le> n"
  shows "log_sane st dz (logged st bl j V D)" "b \<notin> log_area st n \<Longrightarrow> recovered st (logged st bl j V D) b = D b"
proof -
  note c = commit_readyD [OF c]
  have "logged st bl j V D st = D st" by (rule logged_head [OF c(5) assms(2)])
  then show "log_sane st dz (logged st bl j V D)" "b \<notin> log_area st n \<Longrightarrow> recovered st (logged st bl j V D) b = D b"
    using c logged_home [of b st n j] assms(2) by (simp_all add: log_sane_def log_fits_def recovered_empty)
qed

lemma committed_facts:
  assumes c: "commit_ready st n bl dz V D"
  shows "hdr_n (committed st n bl V D st) = int n" "t < n \<Longrightarrow> hdr_block (committed st n bl V D st) t = bl t"
    "t < n \<Longrightarrow> committed st n bl V D (st + of_nat (Suc t)) = V (bl t)"
    "b \<notin> log_area st n \<Longrightarrow> committed st n bl V D b = D b"
proof -
  note c = commit_readyD [OF c]
  show "hdr_n (committed st n bl V D st) = int n" "t < n \<Longrightarrow> hdr_block (committed st n bl V D st) t = bl t"
    using c(2) by (simp_all add: committed_def head_block_n head_block_bl)
  show "committed st n bl V D (st + of_nat (Suc t)) = V (bl t)" if "t < n"
    unfolding committed_def fun_upd_other [OF slot_not_head [OF c(1) that]] by (rule logged_at [OF c(5) order_refl that])
  show "committed st n bl V D b = D b" if "b \<notin> log_area st n"
    unfolding committed_def using st_in_area [of st n] logged_home [OF that order_refl] that by auto
qed

lemma phase2:
  assumes c: "commit_ready st n bl dz V D" and j: "j \<le> n" and d: "d = installed st bl j (committed st n bl V D)"
  shows "log_sane st dz d" "b \<notin> log_area st n \<Longrightarrow> recovered st d b = V b" "d st = committed st n bl V D st"
proof -
  note f = committed_facts [OF c] and c = commit_readyD [OF c]
  have a: "d b = committed st n bl V D b" if "b \<in> log_area st n" for b
    unfolding d by (rule installed_log [OF c(1) j that])
  have h: "hdr_n (d st) = int n" "\<And>t. t < n \<Longrightarrow> hdr_block (d st) t = bl t" using a [OF st_in_area] f(1,2) by simp_all
  have sl: "d (st + of_nat (Suc t)) = V (bl t)" if "t < n" for t
    using a [OF in_log_area [of "Suc t" n st]] f(3) [OF that] that by simp
  note r = recovered_full [of st n bl dz d V, OF c(1) h sl]
  have "d b = V b" if "b \<notin> log_area st n" "b \<notin> bl ` {..<n}" for b
  proof -
    have "d b = committed st n bl V D b" unfolding d by (rule installed_other) (use that j in auto)
    then show ?thesis using f(4) [OF that(1)] c(4) [OF that(2)] by simp
  qed
  then show "b \<notin> log_area st n \<Longrightarrow> recovered st d b = V b" using r by simp
  show "log_sane st dz d" using h c(2) log_fits_cong [OF h(2) [symmetric] c(1)] by (simp add: log_sane_def)
  show "d st = committed st n bl V D st" by (rule a [OF st_in_area])
qed

lemma phase3:
  assumes c: "commit_ready st n bl dz V D" and d: "d = installed st bl n (committed st n bl V D)"
  shows "b \<notin> log_area st n \<Longrightarrow> d b = V b" "log_sane st dz (d(st := head_block 0 bl h))"
    "b \<notin> log_area st n \<Longrightarrow> recovered st (d(st := head_block 0 bl h)) b = V b"
proof -
  note f = committed_facts [OF c] and c = commit_readyD [OF c]
  show v: "d b = V b" if "b \<notin> log_area st n" for b
    unfolding d using installed_home [OF c(1) order_refl, of "committed st n bl V D" V b] f(3) f(4) [OF that] c(4) [of b] by auto
  have h: "hdr_n ((d(st := head_block 0 bl h)) st) = 0" by (simp add: head_block_n)
  moreover have "log_fits st 0 bl' dz" for bl' using c(5) by (simp add: log_fits_def)
  ultimately show "log_sane st dz (d(st := head_block 0 bl h))" by (simp add: log_sane_def)
  show "recovered st (d(st := head_block 0 bl h)) b = V b" if "b \<notin> log_area st n"
    unfolding recovered_empty [of "d(st := head_block 0 bl h)" st, OF h] using v [OF that] st_in_area [of st n] that by auto
qed

text \<open>The disks of a commit, the last one first; \<open>h\<close> is the header block when the log is erased.\<close>

definition commit_disks :: "u32 \<Rightarrow> nat \<Rightarrow> (nat \<Rightarrow> u32) \<Rightarrow> (u32 \<Rightarrow> block) \<Rightarrow> (u32 \<Rightarrow> block) \<Rightarrow> block \<Rightarrow> (u32 \<Rightarrow> block) list" where
  "commit_disks st n bl V D h =
     (installed st bl n (committed st n bl V D))(st := head_block 0 bl h) #
     map (\<lambda>j. installed st bl j (committed st n bl V D)) (rev [1..<Suc n]) @
     committed st n bl V D # map (\<lambda>j. logged st bl j V D) (rev [1..<Suc n])"

lemma set_commit_disks:
  "set (commit_disks st n bl V D h) =
    {(installed st bl n (committed st n bl V D))(st := head_block 0 bl h), committed st n bl V D} \<union>
    (\<lambda>j. installed st bl j (committed st n bl V D)) ` {1..n} \<union> (\<lambda>j. logged st bl j V D) ` {1..n}"
  unfolding commit_disks_def by (simp only: set_append set_map set_rev set_upt list.set atLeastLessThanSuc_atLeastAtMost) blast

text \<open>Every one of them recovers to the old or to the new blocks.\<close>

definition old_or_new :: "u32 \<Rightarrow> nat \<Rightarrow> u32 \<Rightarrow> (u32 \<Rightarrow> block) \<Rightarrow> (u32 \<Rightarrow> block) \<Rightarrow> (u32 \<Rightarrow> block) \<Rightarrow> bool" where
  "old_or_new st n dz V D d \<longleftrightarrow> log_sane st dz d \<and>
     ((\<forall>b. b \<notin> log_area st n \<longrightarrow> recovered st d b = D b) \<or> (\<forall>b. b \<notin> log_area st n \<longrightarrow> recovered st d b = V b))"

lemma commit_disks_sane:
  assumes c: "commit_ready st n bl dz V D" and d: "d \<in> set (commit_disks st n bl V D h)"
  shows "old_or_new st n dz V D d"
proof -
  have 1: "old_or_new st n dz V D (logged st bl j V D)" if "j \<in> {1..n}" for j
    using phase1 [OF c, of j] that by (simp add: old_or_new_def)
  have 2: "old_or_new st n dz V D (installed st bl j (committed st n bl V D))" if "j \<le> n" for j
    using phase2(1,2) [OF c that refl] by (simp add: old_or_new_def)
  have 3: "old_or_new st n dz V D ((installed st bl n (committed st n bl V D))(st := head_block 0 bl h))"
    unfolding old_or_new_def using phase3(2,3) [OF c refl] by blast
  from d show ?thesis unfolding set_commit_disks
    by (elim UnE insertE imageE emptyE) (simp_all only: 1 2 3 2 [OF le0, unfolded installed_simps] atLeastAtMost_iff)
qed

lemma commit_disks_other:
  assumes c: "commit_ready st n bl dz V D" and d: "d \<in> set (commit_disks st n bl V D h)" and b: "b \<notin> log_area st n" "b \<notin> bl ` {..<n}"
  shows "d b = D b"
proof -
  have st: "b \<noteq> st" using b(1) st_in_area [of st n] by auto
  note cb = committed_facts(4) [OF c b(1)]
  have i: "installed st bl j (committed st n bl V D) b = D b" if "j \<le> n" for j
  proof -
    have "installed st bl j (committed st n bl V D) b = committed st n bl V D b" by (rule installed_other) (use that b(2) in auto)
    then show ?thesis using cb by simp
  qed
  have l: "logged st bl j V D b = D b" if "1 \<le> j \<and> j \<le> n" for j using logged_home [OF b(1), of j bl V D] that by simp
  from d show ?thesis unfolding set_commit_disks
    by (elim UnE insertE imageE emptyE) (simp_all only: i l cb fun_upd_other [OF st] order_refl atLeastAtMost_iff)
qed

end
