(* ===== verification/LogRun.thy ===== *)
theory LogRun
  imports LogAtomic
begin

text \<open>
  The runs of \<^verbatim>\<open>commit\<close>, \<^verbatim>\<open>recover_from_log\<close> and \<^verbatim>\<open>initlog\<close>: they return, and the disks
  they go through.
\<close>

text \<open>A recovery from \<open>d\<close> has the result of one from \<open>D\<close>, from which \<open>d\<close> differs in the header and in listed blocks.\<close>

definition recovers_as :: "u32 \<Rightarrow> u32 \<Rightarrow> (u32 \<Rightarrow> block) \<Rightarrow> (u32 \<Rightarrow> block) \<Rightarrow> bool" where
  "recovers_as st dz D d \<longleftrightarrow> log_sane st dz d \<and> (\<forall>b. b \<noteq> st \<longrightarrow> recovered st d b = recovered st D b) \<and>
     (\<forall>b. b \<noteq> st \<longrightarrow> b \<notin> hdr_block (D st) ` {..<nat (hdr_n (D st))} \<longrightarrow> d b = D b)"

context log_driver
begin

lemma commit_rep:
  assumes r: "cache_rep s (quiet V D P)" and l: "l_dev (lg s) = 1" "l_start (lg s) = st" "lh_n (lg s) = int n" "0 < n" "lh_block (lg s) = bl"
    and c: "commit_ready st n bl (disksize s) V D" and P: "P = bl ` {..<n}"
  shows "\<exists>s' h V' D'. commit rw me s = Inr s' \<and> lg s' = (lg s)\<lparr>lh_n := 0\<rparr> \<and> fsys.more s' = fsys.more s \<and> disksize s' = disksize s \<and>
    cache_rep s' (quiet V' D' {}) \<and> (\<forall>b. b \<notin> log_area st n \<longrightarrow> V' b = V b \<and> D' b = V b) \<and> hdr_n (D' st) = 0 \<and> trace s' = commit_disks st n bl V D h @ trace s"
proof -
  note cr = commit_readyD [OF c]
  have Pa: "P \<inter> log_area st n = {}" "st \<notin> P" using cr(1) st_in_area [of st n] by (auto simp: P log_fits_def)
  have "card P \<le> n" unfolding P by (metis card_image_le card_lessThan finite_lessThan)
  then have Pc: "finite P" "card P < NBUF" "room P bl n" using cr(2) by (auto simp: P room_def)
  have vst: "V st = D st" using cr(4) [of st] Pa(2) P by simp
  have stz: "st < disksize s" by (rule st_less [OF cr(1)])
  have cV: "commit_ready st n bl (disksize s) V V" using c vst by (simp add: commit_ready_def)
  from write_log_rep [OF r l(1,2) _ cr(1) Pc(1,2) _ Pa(1), of n me] l(5) P obtain s1 where
    1: "write_log_loop rw me [0..<n] s = Inr s1" "cache_rep s1 (quiet (logged st bl n V V) (logged st bl n V D) P)" "disksize s1 = disksize s"
    "bio.more s1 = bio.more s" "trace s1 = map (\<lambda>j. logged st bl j V D) (rev [1..<Suc n]) @ trace s" by auto
  have lg1: "lg s1 = lg s" "fsys.more s1 = fsys.more s" using lg_more [OF 1(4)] by simp_all
  have hd: "logged st bl n V V st = D st" using logged_head [OF cr(5) order_refl] vst by simp
  from write_head_rep [OF 1(2), of st me] lg1 l cr(2) Pc(2) Pa(2) stz 1(3) obtain s2 where
    2: "write_head rw me s1 = Inr s2" "disksize s2 = disksize s" "bio.more s2 = bio.more s1"
    "cache_rep s2 (quiet (committed st n bl V V) (committed st n bl V D) P)" "trace s2 = committed st n bl V D # trace s1"
    unfolding committed_def vst by (auto simp: Let_def hd)
  have lg2: "lg s2 = lg s" "fsys.more s2 = fsys.more s" using lg_more [OF 2(3)] lg1 by simp_all
  let ?V = "installed st bl n (committed st n bl V V)" and ?D = "installed st bl n (committed st n bl V D)"
  from install_loop_rep [OF 2(4), of st n bl n me] lg2 l cr(1) Pc(3) Pa(1) 2(2) P obtain s3 where
    3: "install_loop rw me [0..<n] s2 = Inr s3" "cache_rep s3 (quiet ?V ?D {})" "disksize s3 = disksize s" "bio.more s3 = bio.more s2"
    "trace s3 = map (\<lambda>j. installed st bl j (committed st n bl V D)) (rev [1..<Suc n]) @ trace s2" by auto
  let ?h = "head_block 0 bl (?V st)" and ?s3 = "set_log (\<lambda>l. l\<lparr>lh_n := 0\<rparr>) s3"
  have lg3: "lg s3 = lg s" "fsys.more s3 = fsys.more s" using lg_more [OF 3(4)] lg2 by simp_all
  from write_head_rep [of ?s3 ?V ?D "{}" st me] 3(2,3) lg3 l stz obtain s4 where
    4: "write_head rw me ?s3 = Inr s4" "disksize s4 = disksize s" "bio.more s4 = bio.more ?s3"
    "cache_rep s4 (quiet (?V(st := ?h)) (?D(st := ?h)) {})" "trace s4 = ?D(st := ?h) # trace s3" by (auto simp: Let_def)
  have run: "commit rw me s = Inr s4"
    using 1(1) 2(1) 3(1) 4(1) l lg2 by (simp add: commit_def write_log_def install_trans_def)
  have lg4: "lg s4 = (lg s)\<lparr>lh_n := 0\<rparr>" "fsys.more s4 = fsys.more s" using lg_more [OF 4(3)] lg3 by simp_all
  have t: "trace s4 = commit_disks st n bl V D (?V st) @ trace s" unfolding commit_disks_def 4(5) 3(5) 2(5) 1(5) by simp
  have "(?V(st := ?h)) b = V b \<and> (?D(st := ?h)) b = V b" if "b \<notin> log_area st n" for b
    using phase3(1) [OF c refl that] phase3(1) [OF cV refl that] st_in_area [of st n] that by auto
  moreover have "hdr_n ((?D(st := ?h)) st) = 0" by (simp add: head_block_n)
  ultimately show ?thesis using run lg4 4(2,4) t by blast
qed

lemma read_head_rep:
  assumes r: "cache_rep s (quiet V D P)" and l: "l_dev (lg s) = 1" "l_start (lg s) = st" "hdr_n (V st) \<le> 30"
    and P: "card P < NBUF" "st < disksize s"
  shows "\<exists>s'. read_head rw me s = Inr s' \<and> cache_rep s' (quiet V D P) \<and> disksize s' = disksize s \<and> trace s' = trace s \<and>
    lh_n (lg s') = hdr_n (V st) \<and> (\<forall>i. int i < hdr_n (V st) \<longrightarrow> lh_block (lg s') i = hdr_block (V st) i) \<and>
    l_dev (lg s') = 1 \<and> l_start (lg s') = st \<and> l_size (lg s') = l_size (lg s) \<and> fsys.more s' = fsys.more s"
proof -
  from read_block [OF r, of st me] P obtain b s1 where
    b: "bread rw me 1 st s = Inr (b, s1)" "b_data (bufs s1 b) = V st" "bio.more s1 = bio.more s" "disksize s1 = disksize s" "trace s1 = trace s"
    and w: "\<And>s1' :: 'a fsys_scheme. bufs s1' = bufs s1 \<Longrightarrow> disk s1' = disk s1 \<Longrightarrow>
      \<exists>s2. brelse me b s1' = Inr s2 \<and> cache_rep s2 (quiet V D P) \<and> disksize s2 = disksize s1' \<and> trace s2 = trace s1' \<and> bio.more s2 = bio.more s1'" by blast
  let ?f = "\<lambda>l. l\<lparr>lh_n := hdr_n (V st), lh_block := (\<lambda>i. if int i < hdr_n (V st) then hdr_block (V st) i else lh_block l i)\<rparr>"
  from w [of "set_log ?f s1"] obtain s2 where
    2: "brelse me b (set_log ?f s1) = Inr s2" "cache_rep s2 (quiet V D P)" "disksize s2 = disksize s1" "trace s2 = trace s1" "bio.more s2 = bio.more (set_log ?f s1)"
    by auto
  have "read_head rw me s = Inr s2"
    using b 2(1) l unfolding read_head_def hdr_n_def hdr_block_def by (simp add: Let_def cong: if_cong)
  moreover have "lg s2 = ?f (lg s)" "fsys.more s2 = fsys.more s" using lg_more [OF 2(5)] lg_more [OF b(3)] by (simp_all cong: if_cong)
  ultimately show ?thesis using 2 b l by simp
qed

lemma recover_rep:
  assumes r: "cache_rep s (quiet D D {})" and l: "l_dev (lg s) = 1" "l_start (lg s) = st" and sane: "log_sane st (disksize s) D"
  shows "\<exists>s' tr D'. recover_from_log rw me s = Inr s' \<and> cache_rep s' (quiet D' D' {}) \<and> disksize s' = disksize s \<and>
    lh_n (lg s') = 0 \<and> l_dev (lg s') = 1 \<and> l_start (lg s') = st \<and> l_size (lg s') = l_size (lg s) \<and> fsys.more s' = fsys.more s \<and> hdr_n (D' st) = 0 \<and>
    trace s' = tr @ trace s \<and> (\<forall>d \<in> insert D' (set tr). recovers_as st (disksize s) D d) \<and>
    (\<forall>b. b \<noteq> st \<longrightarrow> D' b = recovered st D b)"
proof -
  let ?n = "nat (hdr_n (D st))" and ?bl = "hdr_block (D st)"
  have f: "log_fits st ?n ?bl (disksize s)" "0 \<le> hdr_n (D st)" "hdr_n (D st) \<le> 30" using sane by (simp_all add: log_sane_def)
  note stz = st_less [OF f(1)]
  from read_head_rep [OF r l, of me] f(3) stz obtain s1 where
    1: "read_head rw me s = Inr s1" "cache_rep s1 (quiet D D {})" "disksize s1 = disksize s" "trace s1 = trace s" "lh_n (lg s1) = hdr_n (D st)"
    "\<forall>i. int i < hdr_n (D st) \<longrightarrow> lh_block (lg s1) i = ?bl i" "l_dev (lg s1) = 1" "l_start (lg s1) = st" "l_size (lg s1) = l_size (lg s)" "fsys.more s1 = fsys.more s"
    by auto
  have "room {} ?bl ?n" by (simp add: room_def)
  with install_loop_rep [OF 1(2,7,8), of ?n ?bl ?n me] 1(3,4,6) f obtain s2 where
    2: "install_loop rw me [0..<?n] s1 = Inr s2" "cache_rep s2 (quiet (installed st ?bl ?n D) (installed st ?bl ?n D) {})" "disksize s2 = disksize s"
    "bio.more s2 = bio.more s1" "trace s2 = map (\<lambda>j. installed st ?bl j D) (rev [1..<Suc ?n]) @ trace s" by auto
  have lg2: "lg s2 = lg s1" "fsys.more s2 = fsys.more s1" using lg_more [OF 2(4)] by simp_all
  let ?R = "installed st ?bl ?n D" and ?s2 = "set_log (\<lambda>l. l\<lparr>lh_n := 0\<rparr>) s2"
  let ?h = "head_block 0 (lh_block (lg s2)) (?R st)"
  from write_head_rep [of ?s2 ?R ?R "{}" st me] 2(2,3) lg2 1 stz obtain s3 where
    3: "write_head rw me ?s2 = Inr s3" "disksize s3 = disksize s" "bio.more s3 = bio.more ?s2"
    "cache_rep s3 (quiet (?R(st := ?h)) (?R(st := ?h)) {})" "trace s3 = ?R(st := ?h) # trace s2" by (auto simp: Let_def)
  have run: "recover_from_log rw me s = Inr s3" using 1 2(1) 3(1) by (simp add: recover_from_log_def install_trans_def)
  have lg3: "lg s3 = (lg s1)\<lparr>lh_n := 0\<rparr>" "fsys.more s3 = fsys.more s" using lg_more [OF 3(3)] lg2 1(10) by simp_all
  have hz: "hdr_n ((?R(st := ?h)) st) = 0" by (simp add: head_block_n)
  have other: "installed st ?bl j D b = D b" if "b \<notin> ?bl ` {..<?n}" "j \<le> ?n" for b j
    by (rule installed_other) (use that in auto)
  have fin: "recovers_as st (disksize s) D (?R(st := ?h))"
    using f(1) recovered_empty [of "?R(st := ?h)" st, OF hz] hz other [OF _ order_refl] by (simp add: recovers_as_def log_sane_def log_fits_def recovered_def)
  have mid: "recovers_as st (disksize s) D d" if "d = installed st ?bl j D" "j \<le> ?n" for d j
    using recovered_installed [of st ?n ?bl _ D, OF f(1) refl that(2) refl] f sane that(1) other [OF _ that(2)] by (simp add: recovers_as_def log_sane_def installed_head [OF f(1) that(2)])
  let ?tr = "?R(st := ?h) # map (\<lambda>j. installed st ?bl j D) (rev [1..<Suc ?n])"
  have tr: "trace s3 = ?tr @ trace s" using 3(5) 2(5) by simp
  have "set ?tr = insert (?R(st := ?h)) ((\<lambda>j. installed st ?bl j D) ` {1..?n})"
    by (simp only: set_map set_rev set_upt list.set atLeastLessThanSuc_atLeastAtMost)
  then have all: "\<forall>d \<in> insert (?R(st := ?h)) (set ?tr). recovers_as st (disksize s) D d"
    using fin mid [OF refl] by (simp only: ball_simps atLeastAtMost_iff insert_absorb2) simp
  have home: "\<forall>b. b \<noteq> st \<longrightarrow> (?R(st := ?h)) b = recovered st D b" by (simp add: recovered_def)
  have "lh_n (lg s3) = 0" "l_dev (lg s3) = 1" "l_start (lg s3) = st" "l_size (lg s3) = l_size (lg s)" using lg3(1) 1(7-9) by simp_all
  then show ?thesis
    by (intro exI [of _ s3] exI [of _ ?tr] exI [of _ "?R(st := ?h)"] conjI run 3(2,4) lg3(2) hz tr all home)
qed

end

end
