(* ===== verification/LogProps.thy ===== *)
theory LogProps
  imports LogRun
begin

text \<open>
  Transactions: a system call that updates blocks through the log and ends is atomic with
  respect to crashes, recovery can itself be interrupted, and the space that \<^verbatim>\<open>begin_op\<close>
  reserves.
\<close>

section \<open>Updates inside a transaction\<close>

definition log_inv :: "log \<Rightarrow> u32 set \<Rightarrow> bool" where
  "log_inv l P \<longleftrightarrow> 0 \<le> lh_n l \<and> lh_n l \<le> 29 \<and> l_size l = 30 \<and> l_dev l = 1 \<and> P = lh_block l ` {..<nat (lh_n l)}"

lemma log_inv_card: "log_inv l P \<Longrightarrow> finite P \<and> card P \<le> nat (lh_n l)"
  unfolding log_inv_def by (metis card_image_le card_lessThan finite_imageI finite_lessThan)

lemma log_entry_inv:
  assumes l: "log_inv l P" "lh_n l < 29" "1 \<le> outstanding l"
  shows "\<exists>l'. log_entry b l = Inr l' \<and> log_inv l' (insert b P) \<and> lh_n l' \<le> lh_n l + 1 \<and>
    l_start l' = l_start l \<and> outstanding l' = outstanding l \<and> committing l' = committing l"
proof (cases "find (\<lambda>i. lh_block l i = b) [0..<nat (lh_n l)]")
  case None
  then have "log_entry b l = Inr (l\<lparr>lh_block := (lh_block l)(nat (lh_n l) := b), lh_n := lh_n l + 1\<rparr>)"
    using l by (simp add: log_entry_def log_inv_def)
  moreover have "nat (lh_n l + 1) = Suc (nat (lh_n l))" using l unfolding log_inv_def by linarith
  ultimately show ?thesis using l by (auto simp: log_inv_def lessThan_Suc fun_upd_image)
next
  case (Some i)
  then have i: "i < nat (lh_n l)" "lh_block l i = b" by (auto simp: find_Some_iff)
  then have "log_entry b l = Inr l"
    using l Some by (simp add: log_entry_def log_inv_def fun_upd_idem)
  moreover have "insert b P = P" using l i by (auto simp: log_inv_def)
  ultimately show ?thesis using l by auto
qed

text \<open>The blocks after a list of updates.\<close>

fun applied :: "(u32 \<times> block) list \<Rightarrow> (u32 \<Rightarrow> block) \<Rightarrow> u32 \<Rightarrow> block" where
  "applied [] V = V"
| "applied (u # us) V = applied us (V(fst u := snd u))"

lemma applied_other: "b \<notin> fst ` set us \<Longrightarrow> applied us V b = V b"
  by (induction us arbitrary: V) auto

context log_driver
begin

lemma update_logged_rep:
  assumes r: "cache_rep s (quiet V D P)" and l: "log_inv (lg s) P" "lh_n (lg s) < 29" "1 \<le> outstanding (lg s)" and b: "b < disksize s"
  shows "\<exists>s'. update_logged rw me (b, d) s = Inr s' \<and> cache_rep s' (quiet (V(b := d)) D (insert b P)) \<and> log_inv (lg s') (insert b P) \<and>
    lh_n (lg s') \<le> lh_n (lg s) + 1 \<and> l_start (lg s') = l_start (lg s) \<and> outstanding (lg s') = outstanding (lg s) \<and>
    committing (lg s') = committing (lg s) \<and> disksize s' = disksize s \<and> trace s' = trace s \<and> fsys.more s' = fsys.more s"
proof -
  have "card P < NBUF" using log_inv_card [OF l(1)] l(2) by auto
  with bread_rep [OF r, of b me] b obtain h s1 where
    1: "bread rw me 1 b s = Inr (h, s1)" "cache_rep s1 (cch V D P [b \<mapsto> (me, h)])" "disksize s1 = disksize s" "trace s1 = trace s" "bio.more s1 = bio.more s" by auto
  have lg1: "lg s1 = lg s" "fsys.more s1 = fsys.more s" using lg_more [OF 1(5)] by simp_all
  let ?s2 = "set_data h d s1"
  from set_data_rep [OF 1(2), of b me h d] have 2: "cache_rep ?s2 (cch (V(b := d)) D P [b \<mapsto> (me, h)])" by simp
  have lg2: "lg ?s2 = lg s" "fsys.more ?s2 = fsys.more s" using lg1 lg_more [of ?s2 s1] by simp_all
  have bn: "b_blockno (bufs ?s2 h) = b" using held_buf(1) [OF 2, of b me h] by (simp add: owns_def)
  from log_entry_inv [OF l, of b] obtain l' where
    e: "log_entry b (lg s) = Inr l'" "log_inv l' (insert b P)" "lh_n l' \<le> lh_n (lg s) + 1"
    "l_start l' = l_start (lg s)" "outstanding l' = outstanding (lg s)" "committing l' = committing (lg s)" by blast
  let ?s3 = "set_buf h (\<lambda>x. x\<lparr>b_dirty := True\<rparr>) (?s2\<lparr>lg := l'\<rparr>)"
  have w: "log_write h ?s2 = Inr ?s3" using e(1) bn lg2 by (simp add: log_write_def)
  have "cache_rep (?s2\<lparr>lg := l'\<rparr>) (cch (V(b := d)) D P [b \<mapsto> (me, h)])" by (rule cache_rep_cong [OF _ _ 2]) simp_all
  from pin_rep [OF this, of b me h] have 3: "cache_rep ?s3 (cch (V(b := d)) D (insert b P) [b \<mapsto> (me, h)])" by simp
  from brelse_rep [OF 3, of b me h] obtain s4 where
    4: "brelse me h ?s3 = Inr s4" "cache_rep s4 (quiet (V(b := d)) D (insert b P))" "disksize s4 = disksize s" "trace s4 = trace s" "bio.more s4 = bio.more ?s3"
    using 1 by auto
  have "lg s4 = l'" "fsys.more s4 = fsys.more s" using lg_more [OF 4(5)] lg2 by (simp_all add: set_buf_def)
  moreover have "update_logged rw me (b, d) s = Inr s4" using 1(1) w 4(1) l(1) by (simp add: update_logged_def log_inv_def)
  ultimately show ?thesis using 4 e by auto
qed

lemma updates_logged_rep:
  assumes "cache_rep s (quiet V D P)" "log_inv (lg s) P" "lh_n (lg s) + int (length us) \<le> 29" "1 \<le> outstanding (lg s)"
    "\<forall>u \<in> set us. fst u < disksize s"
  shows "\<exists>s'. updates_logged rw me us s = Inr s' \<and> cache_rep s' (quiet (applied us V) D (P \<union> fst ` set us)) \<and>
    log_inv (lg s') (P \<union> fst ` set us) \<and> l_start (lg s') = l_start (lg s) \<and> outstanding (lg s') = outstanding (lg s) \<and>
    committing (lg s') = committing (lg s) \<and> disksize s' = disksize s \<and> trace s' = trace s \<and> fsys.more s' = fsys.more s"
  using assms
proof (induction us arbitrary: s V P)
  case Nil
  then show ?case by simp
next
  case (Cons u us)
  obtain b d where u: "u = (b, d)" by (cases u)
  from update_logged_rep [OF Cons.prems(1,2) _ Cons.prems(4), of b me d] Cons.prems(3,5) u obtain s1 where
    1: "update_logged rw me (b, d) s = Inr s1" "cache_rep s1 (quiet (V(b := d)) D (insert b P))" "log_inv (lg s1) (insert b P)"
    "lh_n (lg s1) \<le> lh_n (lg s) + 1" "l_start (lg s1) = l_start (lg s)" "outstanding (lg s1) = outstanding (lg s)"
    "committing (lg s1) = committing (lg s)" "disksize s1 = disksize s" "trace s1 = trace s" "fsys.more s1 = fsys.more s" by auto
  have p: "P \<union> fst ` set (u # us) = insert b P \<union> fst ` set us" using u by auto
  have "applied (u # us) V = applied us (V(b := d))" "updates_logged rw me (u # us) s = updates_logged rw me us s1" using u 1(1) by simp_all
  moreover have "\<exists>s'. updates_logged rw me us s1 = Inr s' \<and> cache_rep s' (quiet (applied us (V(b := d))) D (insert b P \<union> fst ` set us)) \<and>
    log_inv (lg s') (insert b P \<union> fst ` set us) \<and> l_start (lg s') = l_start (lg s1) \<and> outstanding (lg s') = outstanding (lg s1) \<and>
    committing (lg s') = committing (lg s1) \<and> disksize s' = disksize s1 \<and> trace s' = trace s1 \<and> fsys.more s' = fsys.more s1"
    by (rule Cons.IH [OF 1(2,3)]) (use 1 Cons.prems in auto)
  ultimately show ?case unfolding p 1(5-10) by simp
qed

lemma initlog_rep:
  assumes r: "cache_rep s (quiet D D {})" and sane: "log_sane st (disksize s) D" and sb: "sb_logstart (sb_of (D 1)) = st" "1 < disksize s"
  shows "\<exists>s' tr D'. initlog rw me 1 s = Inr s' \<and> cache_rep s' (quiet D' D' {}) \<and> trace s' = tr @ trace s \<and>
    (\<forall>d \<in> insert D' (set tr). recovers_as st (disksize s) D d) \<and> (\<forall>b. b \<noteq> st \<longrightarrow> D' b = recovered st D b)"
proof -
  from read_block [OF r, of 1 me] sb(2) obtain b s1 where
    1: "bread rw me 1 1 s = Inr (b, s1)" "b_data (bufs s1 b) = D 1" "bio.more s1 = bio.more s" "disksize s1 = disksize s" "trace s1 = trace s"
    and w: "\<And>s1' :: 'a fsys_scheme. bufs s1' = bufs s1 \<Longrightarrow> disk s1' = disk s1 \<Longrightarrow>
      \<exists>s2. brelse me b s1' = Inr s2 \<and> cache_rep s2 (quiet D D {}) \<and> disksize s2 = disksize s1' \<and> trace s2 = trace s1' \<and> bio.more s2 = bio.more s1'" by auto
  from w [of s1] obtain s2 where 2: "brelse me b s1 = Inr s2" "cache_rep s2 (quiet D D {})" "disksize s2 = disksize s" "trace s2 = trace s"
    using 1 by auto
  let ?sb = "sb_of (D 1)"
  let ?s = "set_log (\<lambda>l. l\<lparr>l_start := sb_logstart ?sb, l_size := sint (sb_nlog ?sb), l_dev := 1\<rparr>) s2"
  from recover_rep [of ?s D st me] 2 sane sb(1) obtain s' tr D' where
    "recover_from_log rw me ?s = Inr s'" "cache_rep s' (quiet D' D' {})" "trace s' = tr @ trace s"
    "\<forall>d \<in> insert D' (set tr). recovers_as st (disksize s) D d" "\<forall>b. b \<noteq> st \<longrightarrow> D' b = recovered st D b" by auto
  moreover have "initlog rw me 1 s = recover_from_log rw me ?s" using 1(1,2) 2(1) by (simp add: initlog_def readsb_def)
  ultimately show ?thesis by auto
qed

end

section \<open>Booting\<close>

definition zero_buf :: buf where
  "zero_buf = \<lparr>b_valid = False, b_dirty = False, b_dev = 0, b_blockno = 0, b_lock = initsleeplock, b_refcnt = 0, b_prev = 0, b_next = 0, b_data = (\<lambda>_. 0)\<rparr>"

definition zero_log :: log where
  "zero_log = \<lparr>l_start = 0, l_size = 0, outstanding = 0, committing = False, l_dev = 0, lh_n = 0, lh_block = (\<lambda>_. 0)\<rparr>"

text \<open>The machine after \<^verbatim>\<open>binit\<close> on a disk.\<close>

definition boot :: "u32 \<Rightarrow> (u32 \<Rightarrow> block) \<Rightarrow> fsys" where
  "boot dz d = binit \<lparr>bufs = (\<lambda>_. zero_buf), disk = d, disksize = dz, trace = [], lg = zero_log\<rparr>"

lemma boot_rep: "cache_rep (boot dz d) (quiet d d {})" "disksize (boot dz d) = dz" "trace (boot dz d) = []" "lg (boot dz d) = zero_log"
proof -
  let ?s = "\<lparr>bufs = (\<lambda>_. zero_buf), disk = d, disksize = dz, trace = [], lg = zero_log\<rparr> :: fsys"
  have "zeroed (bufs ?s p)" for p by (simp add: zeroed_def zero_buf_def)
  note b = binit_rep [of ?s, OF this]
  show "cache_rep (boot dz d) (quiet d d {})" "disksize (boot dz d) = dz" "trace (boot dz d) = []" using b(1-3) by (simp_all add: boot_def)
  show "lg (boot dz d) = zero_log" using lg_more [OF b(4)] by (simp add: boot_def)
qed

lemma boot_recovers:
  assumes "log_sane st dz d" "sb_logstart (sb_of (d 1)) = st" "1 < dz"
  shows "\<exists>s'. initlog iderw me 1 (boot dz d) = Inr s' \<and> (\<forall>b. b \<noteq> st \<longrightarrow> disk s' b = recovered st d b) \<and>
    (\<forall>e \<in> set (trace s'). recovers_as st dz d e)"
  using memlog.initlog_rep [OF boot_rep(1), of st dz d me] boot_rep(2,3) [of dz d] assms
  by (fastforce dest: cache_repD(2))

section \<open>Atomic transactions\<close>

definition log_idle :: "log \<Rightarrow> u32 \<Rightarrow> bool" where
  "log_idle l st \<longleftrightarrow> lh_n l = 0 \<and> outstanding l = 0 \<and> \<not> committing l \<and> l_dev l = 1 \<and> l_size l = 30 \<and> l_start l = st"

text \<open>A list of updates that a transaction may make: 29 at most, outside the log, on the disk.\<close>

definition updates_ok :: "u32 \<Rightarrow> u32 \<Rightarrow> (u32 \<times> block) list \<Rightarrow> bool" where
  "updates_ok st dz us \<longleftrightarrow> length us \<le> 29 \<and> unat st + 29 < unat dz \<and> (\<forall>u \<in> set us. fst u < dz \<and> fst u \<notin> log_area st 29)"

lemma log_area_mono: "n \<le> m \<Longrightarrow> log_area st n \<subseteq> log_area st m"
  by (auto simp: log_area_def)

lemma updates_commit_ready:
  assumes u: "updates_ok st dz us" and l: "log_inv l (fst ` set us)" and h: "hdr_n (D st) = 0"
  shows "commit_ready st (nat (lh_n l)) (lh_block l) dz (applied us D) D"
proof -
  have n: "nat (lh_n l) \<le> 29" and P: "fst ` set us = lh_block l ` {..<nat (lh_n l)}" using l by (auto simp: log_inv_def)
  have "lh_block l t < dz \<and> lh_block l t \<notin> log_area st (nat (lh_n l))" if "t < nat (lh_n l)" for t
  proof -
    have "lh_block l t \<in> fst ` set us" using P that by auto
    then obtain u where "u \<in> set us" "lh_block l t = fst u" by auto
    then have "lh_block l t < dz" "lh_block l t \<notin> log_area st 29" using u by (simp_all add: updates_ok_def)
    then show ?thesis using log_area_mono [OF n, of st] by blast
  qed
  moreover have "unat st + nat (lh_n l) < unat dz" using u n by (simp add: updates_ok_def)
  ultimately show ?thesis using n h applied_other [of _ us D] unfolding commit_ready_def log_fits_def P by blast
qed

lemma transaction_run:
  fixes s :: fsys
  assumes r: "cache_rep s (quiet D D {})" and l: "log_idle (lg s) st" and h: "hdr_n (D st) = 0" and u: "updates_ok st (disksize s) us"
  shows "\<exists>s' n bl h' V' D'. transaction iderw me us s = Inr s' \<and> cache_rep s' (quiet V' D' {}) \<and> log_idle (lg s') st \<and> n \<le> 29 \<and> bl ` {..<n} = fst ` set us \<and>
    (\<forall>b. b \<notin> log_area st 29 \<longrightarrow> D' b = applied us D b) \<and> (n = 0 \<and> trace s' = trace s \<or>
     commit_ready st n bl (disksize s) (applied us D) D \<and> trace s' = commit_disks st n bl (applied us D) D h' @ trace s)"
proof -
  let ?l1 = "(lg s)\<lparr>outstanding := 1\<rparr>"
  let ?s1 = "s\<lparr>lg := ?l1\<rparr>"
  have b: "begin_op (lg s) = Inr ?l1" using l by (simp add: begin_op_def log_idle_def)
  have "cache_rep ?s1 (quiet D D {})" by (rule cache_rep_cong [OF _ _ r]) simp_all
  from memlog.updates_logged_rep [OF this, of us me] l u obtain s2 where
    2: "updates_logged iderw me us ?s1 = Inr s2" "cache_rep s2 (quiet (applied us D) D (fst ` set us))" "log_inv (lg s2) (fst ` set us)"
    "l_start (lg s2) = st" "outstanding (lg s2) = 1" "\<not> committing (lg s2)" "disksize s2 = disksize s" "trace s2 = trace s"
    by (auto simp: log_idle_def log_inv_def updates_ok_def)
  let ?n = "nat (lh_n (lg s2))" and ?bl = "lh_block (lg s2)"
  let ?s3 = "s2\<lparr>lg := (lg s2)\<lparr>outstanding := 0, committing := True\<rparr>\<rparr>"
  have nn: "lh_n (lg s2) = int ?n" "?n \<le> 29" "?bl ` {..<?n} = fst ` set us" "l_dev (lg s2) = 1" "l_size (lg s2) = 30" using 2(3) by (auto simp: log_inv_def)
  have run: "transaction iderw me us s = kbind (commit iderw me ?s3) (\<lambda>s1. Inr (set_log (\<lambda>l. l\<lparr>committing := False\<rparr>) s1))"
    using b 2 by (simp add: transaction_def end_op_def end_op_section_def)
  have c: "commit_ready st ?n ?bl (disksize s) (applied us D) D" using u 2(3) h by (rule updates_commit_ready)
  have r3: "cache_rep ?s3 (quiet (applied us D) D (fst ` set us))" by (rule cache_rep_cong [OF _ _ 2(2)]) simp_all
  show ?thesis
  proof (cases "?n = 0")
    case True
    then have "fst ` set us = {}" "lh_n (lg s2) = 0" using nn by auto
    moreover have "commit iderw me ?s3 = Inr ?s3" using True nn(1) by (simp add: commit_def)
    ultimately show ?thesis using run r3 2 nn True
      by (intro exI [of _ "set_log (\<lambda>l. l\<lparr>committing := False\<rparr>) ?s3"] exI [of _ 0] exI [of _ ?bl] exI [of _ "\<lambda>_. 0"] exI [of _ D])
        (auto simp: log_idle_def applied_other)
  next
    case False
    from memlog.commit_rep [OF r3, of st ?n ?bl me] False nn 2 c obtain s4 h' V' D' where
      4: "commit iderw me ?s3 = Inr s4" "lg s4 = (lg ?s3)\<lparr>lh_n := 0\<rparr>" "cache_rep s4 (quiet V' D' {})"
      "\<forall>b. b \<notin> log_area st ?n \<longrightarrow> V' b = applied us D b \<and> D' b = applied us D b" "trace s4 = commit_disks st ?n ?bl (applied us D) D h' @ trace s" by auto
    let ?s5 = "set_log (\<lambda>l. l\<lparr>committing := False\<rparr>) s4"
    have "\<forall>b. b \<notin> log_area st 29 \<longrightarrow> D' b = applied us D b" using 4(4) log_area_mono [OF nn(2), of st] by blast
    moreover have "log_idle (lg ?s5) st" "cache_rep ?s5 (quiet V' D' {})" "trace ?s5 = commit_disks st ?n ?bl (applied us D) D h' @ trace s"
      using 4 2 nn by (simp_all add: log_idle_def)
    moreover have "transaction iderw me us s = Inr ?s5" using run 4(1) by simp
    ultimately show ?thesis using nn(2,3) c by blast
  qed
qed

text \<open>Booting on a disk of a commit.\<close>

definition boots_old_or_new :: "int \<Rightarrow> u32 \<Rightarrow> u32 \<Rightarrow> (u32 \<Rightarrow> block) \<Rightarrow> (u32 \<Rightarrow> block) \<Rightarrow> (u32 \<Rightarrow> block) \<Rightarrow> bool" where
  "boots_old_or_new me st dz V D d \<longleftrightarrow> (\<exists>s'. initlog iderw me 1 (boot dz d) = Inr s' \<and>
     ((\<forall>b. b \<notin> log_area st 29 \<longrightarrow> disk s' b = D b) \<or> (\<forall>b. b \<notin> log_area st 29 \<longrightarrow> disk s' b = V b)))"

lemma commit_disk_boots:
  assumes cr: "commit_ready st n bl dz V D" and d: "d \<in> set (commit_disks st n bl V D h)" and n: "n \<le> 29"
    and sb: "sb_logstart (sb_of (D 1)) = st" "1 \<notin> log_area st 29" "1 \<notin> bl ` {..<n}" "1 < dz"
  shows "boots_old_or_new me st dz V D d"
proof -
  have area: "b \<notin> log_area st n \<and> b \<noteq> st" if "b \<notin> log_area st 29" for b
    using log_area_mono [OF n, of st] st_in_area [of st 29] that by blast
  note o = commit_disks_sane [OF cr d, unfolded old_or_new_def]
  have "d 1 = D 1" by (rule commit_disks_other [OF cr d]) (use area [OF sb(2)] sb(3) in auto)
  with boot_recovers [of st dz d me] o sb(1,4) obtain s' where
    i: "initlog iderw me 1 (boot dz d) = Inr s'" and r: "\<forall>b. b \<noteq> st \<longrightarrow> disk s' b = recovered st d b" by auto
  from o have "(\<forall>b. b \<notin> log_area st 29 \<longrightarrow> disk s' b = D b) \<or> (\<forall>b. b \<notin> log_area st 29 \<longrightarrow> disk s' b = V b)"
  proof (elim conjE disjE)
    assume "\<forall>b. b \<notin> log_area st n \<longrightarrow> recovered st d b = D b"
    then show ?thesis using r area by simp
  next
    assume "\<forall>b. b \<notin> log_area st n \<longrightarrow> recovered st d b = V b"
    then show ?thesis using r area by simp
  qed
  with i show ?thesis unfolding boots_old_or_new_def by blast
qed

text \<open>C31. A system call that updates up to 29 blocks through the log is atomic: it returns with
  all its updates on the disk, and if the machine crashes with any of the disks that it goes
  through, booting on that disk succeeds and leaves outside the log either the blocks as
  they were before the call or all of them updated.\<close>

theorem transaction_atomic:
  fixes s :: fsys
  assumes r: "cache_rep s (quiet D D {})" and l: "log_idle (lg s) st" and h: "hdr_n (D st) = 0" and u: "updates_ok st (disksize s) us"
    and sb: "sb_logstart (sb_of (D 1)) = st" "1 \<notin> log_area st 29" "1 \<notin> fst ` set us"
  shows "\<exists>s' tr. transaction iderw me us s = Inr s' \<and> log_idle (lg s') st \<and> trace s' = tr @ trace s \<and>
    (\<forall>b. b \<notin> log_area st 29 \<longrightarrow> disk s' b = applied us D b) \<and>
    (\<forall>d \<in> set tr. boots_old_or_new me' st (disksize s) (applied us D) D d)"
proof -
  from transaction_run [OF r l h u, of me] obtain s' n bl h' V' D' where
    t: "transaction iderw me us s = Inr s'" "cache_rep s' (quiet V' D' {})" "log_idle (lg s') st" "n \<le> 29" "bl ` {..<n} = fst ` set us"
    and D': "\<forall>b. b \<notin> log_area st 29 \<longrightarrow> D' b = applied us D b"
    and c: "n = 0 \<and> trace s' = trace s \<or> commit_ready st n bl (disksize s) (applied us D) D \<and> trace s' = commit_disks st n bl (applied us D) D h' @ trace s"
    by (elim exE conjE)
  have "1 < disksize s" using u by (simp add: updates_ok_def word_less_nat_alt)
  with c t(4,5) sb have "\<exists>tr. trace s' = tr @ trace s \<and> (\<forall>d \<in> set tr. boots_old_or_new me' st (disksize s) (applied us D) D d)"
    using commit_disk_boots [of st n bl "disksize s" "applied us D" D _ h' me'] by (elim disjE) auto
  moreover have "\<forall>b. b \<notin> log_area st 29 \<longrightarrow> disk s' b = applied us D b" using D' cache_repD(2) [OF t(2)] by simp
  ultimately show ?thesis using t(1,3) by blast
qed

text \<open>An empty disk of 1000 blocks with its log at block 2, as \<^verbatim>\<open>mkfs\<close> lays it out.\<close>

definition ex_disk :: "u32 \<Rightarrow> block" where
  "ex_disk = (\<lambda>b i. 0)(1 := put32 16 2 (\<lambda>_. 0))"

definition ex_fsys :: fsys where
  "ex_fsys = (boot 1000 ex_disk)\<lparr>lg := zero_log\<lparr>l_start := 2, l_size := 30, l_dev := 1\<rparr>\<rparr>"

lemma ex_fsys_facts:
  "cache_rep ex_fsys (quiet ex_disk ex_disk {})" "log_idle (lg ex_fsys) 2" "hdr_n (ex_disk 2) = 0" "disksize ex_fsys = 1000"
  "sb_logstart (sb_of (ex_disk 1)) = 2" "trace ex_fsys = []"
proof -
  show "cache_rep ex_fsys (quiet ex_disk ex_disk {})" by (rule cache_rep_cong [OF _ _ boot_rep(1) [of 1000]]) (simp_all add: ex_fsys_def)
qed (use boot_rep [of 1000 ex_disk] in \<open>simp_all add: ex_fsys_def log_idle_def zero_log_def ex_disk_def hdr_n_def get32_def put32_def sb_of_def\<close>)

lemma ex_area: "b \<in> log_area 2 29 \<longleftrightarrow> 2 \<le> unat b \<and> unat b \<le> 31"
proof
  assume "b \<in> log_area 2 29"
  then obtain i where i: "i \<le> 29" "b = 2 + of_nat i" by (auto simp: log_area_def)
  then have "unat b = 2 + i" by (simp add: unat_word_ariths unat_of_nat)
  then show "2 \<le> unat b \<and> unat b \<le> 31" using i by simp
next
  assume b: "2 \<le> unat b \<and> unat b \<le> 31"
  then have "b = 2 + of_nat (unat b - 2)" by (simp add: of_nat_diff)
  moreover have "unat b - 2 \<le> 29" using b by arith
  ultimately show "b \<in> log_area 2 29" by (metis in_log_area)
qed

theorem transaction_atomic_witness:
  "\<exists>s' tr. transaction iderw 1 [(100, \<lambda>_. 7), (200, \<lambda>_. 8)] ex_fsys = Inr s' \<and> trace s' = tr @ trace ex_fsys \<and> disk s' 200 = (\<lambda>_. 8) \<and>
    (\<forall>d \<in> set tr. boots_old_or_new 1 2 1000 (applied [(100, \<lambda>_. 7), (200, \<lambda>_. 8)] ex_disk) ex_disk d)"
proof -
  let ?us = "[(100, \<lambda>_. 7), (200, \<lambda>_. 8)] :: (u32 \<times> block) list"
  have u: "updates_ok 2 (disksize ex_fsys) ?us" by (simp add: updates_ok_def ex_area ex_fsys_facts(4))
  have "1 \<notin> log_area 2 29" "1 \<notin> fst ` set ?us" by (simp_all add: ex_area)
  from transaction_atomic [of ex_fsys ex_disk 2 ?us 1 1, OF ex_fsys_facts(1-3) u ex_fsys_facts(5) this]
  obtain s' tr where s': "transaction iderw 1 ?us ex_fsys = Inr s'" "trace s' = tr @ trace ex_fsys"
    "\<forall>b. b \<notin> log_area 2 29 \<longrightarrow> disk s' b = applied ?us ex_disk b" "\<forall>d \<in> set tr. boots_old_or_new 1 2 1000 (applied ?us ex_disk) ex_disk d"
    unfolding ex_fsys_facts(4) by (elim exE conjE)
  have "disk s' 200 = (\<lambda>_. 8)" using s'(3) [rule_format, of 200] by (simp add: ex_area)
  with s' show ?thesis by blast
qed

text \<open>C32. Recovery can be interrupted: started on a disk with a well-formed log that does not
  list the superblock it succeeds, and a recovery started on any disk that the first one
  went through succeeds too and gives outside the header the same blocks as the first.\<close>

theorem recovery_restartable:
  assumes s: "log_sane st dz d" and sb: "sb_logstart (sb_of (d 1)) = st" "1 < dz" "1 \<noteq> st" "1 \<notin> hdr_block (d st) ` {..<nat (hdr_n (d st))}"
  shows "\<exists>s'. initlog iderw me 1 (boot dz d) = Inr s' \<and>
    (\<forall>e \<in> set (trace s'). \<exists>s''. initlog iderw me' 1 (boot dz e) = Inr s'' \<and> (\<forall>b. b \<noteq> st \<longrightarrow> disk s'' b = disk s' b))"
proof -
  from boot_recovers [of st dz d me] s sb obtain s' where
    s': "initlog iderw me 1 (boot dz d) = Inr s'" "\<forall>b. b \<noteq> st \<longrightarrow> disk s' b = recovered st d b" "\<forall>e \<in> set (trace s'). recovers_as st dz d e" by blast
  have "\<exists>s''. initlog iderw me' 1 (boot dz e) = Inr s'' \<and> (\<forall>b. b \<noteq> st \<longrightarrow> disk s'' b = disk s' b)" if "e \<in> set (trace s')" for e
  proof -
    have e: "recovers_as st dz d e" using s'(3) that by blast
    then have "sb_logstart (sb_of (e 1)) = st" "log_sane st dz e" using sb by (simp_all add: recovers_as_def)
    with boot_recovers [of st dz e me'] sb(2) obtain s'' where "initlog iderw me' 1 (boot dz e) = Inr s''" "\<forall>b. b \<noteq> st \<longrightarrow> disk s'' b = recovered st e b" by blast
    then show ?thesis using e s'(2) by (simp add: recovers_as_def)
  qed
  with s'(1) show ?thesis by blast
qed

text \<open>The same disk with a committed transaction: block 100 is to become block 3.\<close>

definition ex_committed :: "u32 \<Rightarrow> block" where
  "ex_committed = ex_disk(2 := head_block 1 (\<lambda>_. 100) (\<lambda>_. 0), 3 := (\<lambda>_. 7))"

theorem recovery_restartable_witness:
  "\<exists>s'. initlog iderw 1 1 (boot 1000 ex_committed) = Inr s' \<and>
    (\<forall>e \<in> set (trace s'). \<exists>s''. initlog iderw 1 1 (boot 1000 e) = Inr s'' \<and> (\<forall>b. b \<noteq> 2 \<longrightarrow> disk s'' b = disk s' b))"
proof -
  have n: "hdr_n (ex_committed 2) = 1" "hdr_block (ex_committed 2) 0 = 100"
    by (simp_all add: ex_committed_def head_block_n head_block_bl)
  have "log_sane 2 1000 ex_committed" using n by (simp add: log_sane_def log_fits_def log_area_def atMost_Suc)
  then show ?thesis
    by (rule recovery_restartable) (use n ex_fsys_facts(5) in \<open>simp_all add: ex_committed_def lessThan_Suc\<close>)
qed

section \<open>Reserved space\<close>

fun log_entries :: "u32 list \<Rightarrow> log \<Rightarrow> log kres" where
  "log_entries [] l = Inr l"
| "log_entries (b # bs) l = kbind (log_entry b l) (log_entries bs)"

lemma log_entries_fill:
  "0 \<le> lh_n l \<Longrightarrow> lh_n l + int (length bs) \<le> 29 \<Longrightarrow> l_size l = 30 \<Longrightarrow> 1 \<le> outstanding l \<Longrightarrow> distinct bs \<Longrightarrow>
    set bs \<inter> lh_block l ` {..<nat (lh_n l)} = {} \<Longrightarrow>
    \<exists>l'. log_entries bs l = Inr l' \<and> lh_n l' = lh_n l + int (length bs) \<and> l_size l' = 30"
proof (induction bs arbitrary: l)
  case (Cons b bs)
  let ?l = "l\<lparr>lh_block := (lh_block l)(nat (lh_n l) := b), lh_n := lh_n l + 1\<rparr>"
  have "find (\<lambda>i. lh_block l i = b) [0..<nat (lh_n l)] = None" using Cons.prems(6) by (auto simp: find_None_iff)
  then have e: "log_entry b l = Inr ?l" using Cons.prems by (simp add: log_entry_def)
  have "nat (lh_n l + 1) = Suc (nat (lh_n l))" using Cons.prems(1) by linarith
  then have "set bs \<inter> lh_block ?l ` {..<nat (lh_n ?l)} = {}" using Cons.prems(5,6) by (auto simp: lessThan_Suc fun_upd_image)
  from Cons.IH [OF _ _ _ _ _ this] e Cons.prems show ?case by auto
qed simp

text \<open>C33. \<^verbatim>\<open>begin_op\<close> reserves more than the log can hold: with the log of \<^verbatim>\<open>LOGSIZE\<close> blocks
  that \<^verbatim>\<open>mkfs\<close> makes it admits three operations of \<^verbatim>\<open>MAXOPBLOCKS\<close> = 10 blocks, whose
  30th distinct block makes \<^verbatim>\<open>log_write\<close> panic.\<close>

theorem reserved_space_too_small:
  assumes l: "log_idle l st" and bs: "distinct bs" "length bs = 29" "b \<notin> set bs"
  shows "\<exists>l1 l2 l3 l4. begin_op l = Inr l1 \<and> begin_op l1 = Inr l2 \<and> begin_op l2 = Inr l3 \<and> log_entries bs l3 = Inr l4 \<and>
    log_entry b l4 = Inl (Panic ''too big a transaction'')"
proof -
  let ?l3 = "l\<lparr>outstanding := 3\<rparr>"
  from log_entries_fill [of ?l3 bs] l bs obtain l4 where "log_entries bs ?l3 = Inr l4" "lh_n l4 = 29" "l_size l4 = 30"
    by (auto simp: log_idle_def)
  then show ?thesis using l by (simp add: begin_op_def log_idle_def log_entry_def)
qed

theorem reserved_space_too_small_witness:
  "\<exists>l1 l2 l3 l4. begin_op (lg ex_fsys) = Inr l1 \<and> begin_op l1 = Inr l2 \<and> begin_op l2 = Inr l3 \<and>
    log_entries (map of_nat [100..<129]) l3 = Inr l4 \<and> log_entry 130 l4 = Inl (Panic ''too big a transaction'')"
proof -
  have "inj_on (of_nat :: nat \<Rightarrow> u32) {100..<129}" by (auto simp: inj_on_def word_unat_eq_iff unat_of_nat)
  then have "distinct (map of_nat [100..<129] :: u32 list)" by (simp add: distinct_map)
  moreover have "(130 :: u32) \<notin> set (map of_nat [100..<129])" by (auto simp: word_unat_eq_iff unat_of_nat)
  ultimately show ?thesis by (intro reserved_space_too_small [OF ex_fsys_facts(2)]) simp_all
qed

end
