(* ===== verification/Fs.thy ===== *)
theory Fs
  imports LogProps
begin

text \<open>
  The block bitmap (\<^verbatim>\<open>fs.c\<close>): \<^verbatim>\<open>bzero\<close>, \<^verbatim>\<open>balloc\<close> and
  \<^verbatim>\<open>bfree\<close> inside a transaction, on the buffer cache and the log. The superblock
  \<^verbatim>\<open>sb\<close> is an argument of \<^verbatim>\<open>balloc\<close>; \<^verbatim>\<open>bfree\<close> reads it again.
\<close>

unbundle bit_operations_syntax

abbreviation BPB :: nat where "BPB \<equiv> 4096"

definition BBLOCK :: "u32 \<Rightarrow> superblock \<Rightarrow> u32" where
  "BBLOCK b sb = b div of_nat BPB + sb_bmapstart sb"

definition bzero :: "'a fs_driver \<Rightarrow> int \<Rightarrow> u32 \<Rightarrow> u32 \<Rightarrow> 'a fsys_scheme \<Rightarrow> 'a fsys_scheme kres" where
  "bzero rw me dv bno s =
     kbind (bread rw me dv bno s) (\<lambda>(bp, s1).
     kbind (log_write bp (set_data bp (\<lambda>i. if i < 512 then 0 else b_data (bufs s1 bp) i) s1)) (\<lambda>s2.
     brelse me bp s2))"

definition bit_mask :: "nat \<Rightarrow> byte" where
  "bit_mask bi = push_bit (bi mod 8) 1"

text \<open>The inner loop of \<^verbatim>\<open>balloc\<close>: the first clear bit of a block of the map.\<close>

definition free_bit :: "superblock \<Rightarrow> u32 \<Rightarrow> block \<Rightarrow> nat option" where
  "free_bit sb b d =
     find (\<lambda>bi. d (bi div 8) AND bit_mask bi = 0) (takeWhile (\<lambda>bi. b + of_nat bi < sb_size sb) [0..<BPB])"

text \<open>The outer loop, over the values of \<^verbatim>\<open>b\<close>.\<close>

fun balloc_loop :: "'a fs_driver \<Rightarrow> int \<Rightarrow> superblock \<Rightarrow> u32 \<Rightarrow> u32 list \<Rightarrow> 'a fsys_scheme \<Rightarrow> (u32 \<times> 'a fsys_scheme) kres" where
  "balloc_loop rw me sb dv [] s = Inl (Panic ''balloc: out of blocks'')"
| "balloc_loop rw me sb dv (b # bs) s =
     kbind (bread rw me dv (BBLOCK b sb) s) (\<lambda>(bp, s1).
       let d = b_data (bufs s1 bp) in
       case free_bit sb b d of
         Some bi \<Rightarrow>
           kbind (log_write bp (set_data bp (d(bi div 8 := d (bi div 8) OR bit_mask bi)) s1)) (\<lambda>s2.
           kbind (brelse me bp s2) (\<lambda>s3.
           kbind (bzero rw me dv (b + of_nat bi) s3) (\<lambda>s4. Inr (b + of_nat bi, s4))))
       | None \<Rightarrow> kbind (brelse me bp s1) (balloc_loop rw me sb dv bs))"

definition map_starts :: "nat \<Rightarrow> superblock \<Rightarrow> u32 list" where
  "map_starts j sb = map (\<lambda>i. of_nat (BPB * i)) [j..<(unat (sb_size sb) + BPB - 1) div BPB]"

definition balloc :: "'a fs_driver \<Rightarrow> int \<Rightarrow> superblock \<Rightarrow> u32 \<Rightarrow> 'a fsys_scheme \<Rightarrow> (u32 \<times> 'a fsys_scheme) kres" where
  "balloc rw me sb dv s = balloc_loop rw me sb dv (map_starts 0 sb) s"

definition bfree :: "'a fs_driver \<Rightarrow> int \<Rightarrow> u32 \<Rightarrow> u32 \<Rightarrow> 'a fsys_scheme \<Rightarrow> 'a fsys_scheme kres" where
  "bfree rw me dv b s =
     kbind (readsb rw me dv s) (\<lambda>(sb, s0).
     kbind (bread rw me dv (BBLOCK b sb) s0) (\<lambda>(bp, s1).
       let bi = unat (b mod of_nat BPB); d = b_data (bufs s1 bp) in
       if d (bi div 8) AND bit_mask bi = 0 then Inl (Panic ''freeing free block'')
       else kbind (log_write bp (set_data bp (d(bi div 8 := d (bi div 8) AND NOT (bit_mask bi))) s1)) (\<lambda>s2.
            brelse me bp s2)))"

section \<open>Bits\<close>

definition map_bit :: "block \<Rightarrow> nat \<Rightarrow> bool" where
  "map_bit d i \<longleftrightarrow> bit (d (i div 8)) (i mod 8)"

text \<open>Whether block \<open>n\<close> is marked in use.\<close>

definition inuse :: "superblock \<Rightarrow> (u32 \<Rightarrow> block) \<Rightarrow> nat \<Rightarrow> bool" where
  "inuse sb V n \<longleftrightarrow> map_bit (V (of_nat (n div BPB) + sb_bmapstart sb)) (n mod BPB)"

lemma bit_mask_bit: "bit (bit_mask i) k \<longleftrightarrow> k = i mod 8"
proof -
  have "i mod 8 < 8" by simp
  then show ?thesis unfolding bit_mask_def by (auto simp: bit_push_bit_iff bit_exp_iff bit_1_iff)
qed

lemma masked_zero: "d (i div 8) AND bit_mask i = 0 \<longleftrightarrow> \<not> map_bit d i"
proof -
  have "bit (d (i div 8) AND bit_mask i) k \<longleftrightarrow> map_bit d i \<and> k = i mod 8" for k
    by (auto simp: bit_and_iff bit_mask_bit map_bit_def)
  then show ?thesis by (metis bit_0_eq bot_apply bot_bool_def bit_eqI)
qed

lemma same_bit: "i div 8 = k div 8 \<and> i mod 8 = k mod 8 \<longleftrightarrow> i = (k :: nat)"
  by (metis div_mult_mod_eq)

lemma map_bit_set: "map_bit (d(k div 8 := d (k div 8) OR bit_mask k)) i \<longleftrightarrow> map_bit d i \<or> i = k"
  unfolding map_bit_def using same_bit [of i k] by (auto simp: bit_or_iff bit_mask_bit)

lemma map_bit_clear: "map_bit (d(k div 8 := d (k div 8) AND NOT (bit_mask k))) i \<longleftrightarrow> map_bit d i \<and> i \<noteq> k"
  unfolding map_bit_def using same_bit [of i k] by (auto simp: bit_and_iff bit_not_iff bit_mask_bit dest: bit_imp_le_length)

section \<open>The search for a clear bit\<close>

lemma unat_of_nat_self: "of_nat (unat w) = (w :: u32)"
  by simp

lemma takeWhile_less_upt: "takeWhile (\<lambda>i. i < k) [0..<m] = [0..<min m k]"
proof (induction m)
  case (Suc m)
  show ?case using Suc by (cases "m < k") (auto simp: takeWhile_append min_def le_Suc_eq not_less)
qed simp

lemma unat_bitno:
  assumes "unat (sz' :: u32) \<le> 2 ^ 31" "BPB * j < unat sz'" "i < BPB"
  shows "unat (of_nat (BPB * j) + of_nat i :: u32) = BPB * j + i"
proof -
  have "BPB * j + i < 2 ^ 32" using assms by simp
  then show ?thesis by (simp add: unat_word_ariths unat_of_nat)
qed

lemma free_bit_cases:
  assumes "unat (sb_size sb) \<le> 2 ^ 31" "BPB * j < unat (sb_size sb)"
  shows "case free_bit sb (of_nat (BPB * j)) d of
      None \<Rightarrow> \<forall>i < BPB. BPB * j + i < unat (sb_size sb) \<longrightarrow> map_bit d i
    | Some k \<Rightarrow> k < BPB \<and> BPB * j + k < unat (sb_size sb) \<and> \<not> map_bit d k \<and> (\<forall>i < k. map_bit d i)"
proof -
  let ?n = "unat (sb_size sb) - BPB * j"
  have "takeWhile (\<lambda>i. of_nat (BPB * j) + of_nat i < sb_size sb) [0..<BPB] = takeWhile (\<lambda>i. i < ?n) [0..<BPB]"
    by (rule takeWhile_cong [OF refl]) (use unat_bitno [OF assms] in \<open>auto simp: word_less_nat_alt\<close>)
  then have "free_bit sb (of_nat (BPB * j)) d = find (\<lambda>i. \<not> map_bit d i) [0..<min BPB ?n]"
    unfolding free_bit_def masked_zero takeWhile_less_upt by simp
  then show ?thesis by (auto simp: find_None_iff find_Some_iff split: option.splits)
qed

lemma BBLOCK_start:
  assumes "unat (sb_size sb) \<le> 2 ^ 31" "BPB * j < unat (sb_size sb)"
  shows "BBLOCK (of_nat (BPB * j)) sb = of_nat j + sb_bmapstart sb"
proof -
  have u: "unat (of_nat (BPB * j) :: u32) = BPB * j" using unat_bitno [OF assms, of 0] by simp
  have "unat (of_nat (BPB * j) div of_nat BPB :: u32) = j" using u by (simp add: unat_div)
  then have "of_nat (BPB * j) div of_nat BPB = (of_nat j :: u32)" by (metis unat_of_nat_self)
  then show ?thesis by (simp add: BBLOCK_def)
qed

lemma inuse_at: "i < BPB \<Longrightarrow> inuse sb V (BPB * j + i) \<longleftrightarrow> map_bit (V (of_nat j + sb_bmapstart sb)) i"
  by (simp add: inuse_def)

lemma inuse_up_to:
  assumes "\<forall>m < BPB * j. m < n \<longrightarrow> inuse sb V m" "m < BPB * j + i" "i \<le> BPB" "m < n"
    and "\<forall>l < i. BPB * j + l < n \<longrightarrow> map_bit (V (of_nat j + sb_bmapstart sb)) l"
  shows "inuse sb V m"
proof (cases "m < BPB * j")
  case False
  then have l: "BPB * j + (m - BPB * j) = m" "m - BPB * j < i" using assms(2) by simp_all
  then have "map_bit (V (of_nat j + sb_bmapstart sb)) (m - BPB * j)" using assms(4,5) by simp
  then show ?thesis using inuse_at [of "m - BPB * j" sb V j, unfolded l(1)] l(2) assms(3) by simp
qed (use assms(1,4) in blast)

lemma map_starts_Cons:
  assumes "BPB * j < unat (sb_size sb)"
  shows "map_starts j sb = of_nat (BPB * j) # map_starts (Suc j) sb"
proof -
  have "j < (unat (sb_size sb) + BPB - 1) div BPB" using assms by (simp add: less_eq_div_iff_mult_less_eq Suc_le_eq [symmetric])
  then show ?thesis by (simp add: map_starts_def upt_rec)
qed

lemma map_starts_Nil: "unat (sb_size sb) \<le> BPB * j \<Longrightarrow> map_starts j sb = []"
  by (simp add: map_starts_def)

section \<open>Operations inside a transaction\<close>

definition in_trans :: "'a fsys_scheme \<Rightarrow> (u32 \<Rightarrow> block) \<Rightarrow> (u32 \<Rightarrow> block) \<Rightarrow> u32 set \<Rightarrow> bool" where
  "in_trans s V D P \<longleftrightarrow> cache_rep s (quiet V D P) \<and> log_inv (lg s) P \<and> 1 \<le> outstanding (lg s)"

text \<open>Only blocks as seen in the cache and entries of the log's header differ; at most \<open>n\<close> entries are new.\<close>

definition frame :: "nat \<Rightarrow> 'a fsys_scheme \<Rightarrow> 'a fsys_scheme \<Rightarrow> bool" where
  "frame n s s' \<longleftrightarrow> lh_n (lg s') \<le> lh_n (lg s) + int n \<and> l_start (lg s') = l_start (lg s) \<and> outstanding (lg s') = outstanding (lg s) \<and>
     committing (lg s') = committing (lg s) \<and> disksize s' = disksize s \<and> trace s' = trace s"

lemma frame_trans: "frame m s s' \<Longrightarrow> frame n s' s'' \<Longrightarrow> frame (m + n) s s''"
  unfolding frame_def by auto

lemma in_trans_card: "in_trans s V D P \<Longrightarrow> card P < NBUF"
  using log_inv_card [of "lg s" P] by (auto simp: in_trans_def log_inv_def)

text \<open>The blocks after \<^verbatim>\<open>balloc\<close> has taken block \<open>n\<close>.\<close>

definition map_block :: "superblock \<Rightarrow> nat \<Rightarrow> u32" where
  "map_block sb n = of_nat (n div BPB) + sb_bmapstart sb"

definition marked_at :: "nat \<Rightarrow> block \<Rightarrow> block" where
  "marked_at i d = d(i div 8 := d (i div 8) OR bit_mask i)"

definition zeroed_block :: "block \<Rightarrow> block" where
  "zeroed_block d = (\<lambda>i. if i < 512 then 0 else d i)"

definition taken_block :: "superblock \<Rightarrow> nat \<Rightarrow> (u32 \<Rightarrow> block) \<Rightarrow> u32 \<Rightarrow> block" where
  "taken_block sb n V =
     (let V1 = V(map_block sb n := marked_at (n mod BPB) (V (map_block sb n))) in V1(of_nat n := zeroed_block (V1 (of_nat n))))"

text \<open>The map lies on the disk, which holds all blocks.\<close>

definition map_fits :: "superblock \<Rightarrow> u32 \<Rightarrow> bool" where
  "map_fits sb dz \<longleftrightarrow> unat (sb_size sb) \<le> 2 ^ 31 \<and> sb_size sb \<le> dz \<and> (\<forall>n < unat (sb_size sb). map_block sb n < dz)"

context log_driver
begin

lemma read_modify:
  assumes t: "in_trans s V D P" "lh_n (lg s) < 29" and b: "b < disksize s"
  shows "\<exists>h s1. bread rw me 1 b s = Inr (h, s1) \<and> b_data (bufs s1 h) = V b \<and>
    (\<forall>d. \<exists>s2 s3. log_write h (set_data h d s1) = Inr s2 \<and> brelse me h s2 = Inr s3 \<and>
      in_trans s3 (V(b := d)) D (insert b P) \<and> frame 1 s s3)"
proof -
  have dv: "l_dev (lg s) = 1" using t(1) by (simp add: in_trans_def log_inv_def)
  from read_block [of s V D P b me] t in_trans_card [OF t(1)] b obtain h s1 where
    1: "bread rw me 1 b s = Inr (h, s1)" "b_data (bufs s1 h) = V b" by (auto simp: in_trans_def)
  have "\<exists>s2 s3. log_write h (set_data h d s1) = Inr s2 \<and> brelse me h s2 = Inr s3 \<and>
      in_trans s3 (V(b := d)) D (insert b P) \<and> frame 1 s s3" for d
    using update_logged_rep [of s V D P b me d] t b dv 1(1)
    by (auto simp: update_logged_def kbind_Inr_iff in_trans_def frame_def)
  with 1 show ?thesis by blast
qed

lemma read_release:
  assumes t: "in_trans s V D P" and b: "b < disksize s"
  shows "\<exists>h s1 s2. bread rw me 1 b s = Inr (h, s1) \<and> b_data (bufs s1 h) = V b \<and> brelse me h s1 = Inr s2 \<and>
    in_trans s2 V D P \<and> frame 0 s s2"
proof -
  from read_block [of s V D P b me] t in_trans_card [OF t(1)] b obtain h s1 s2 where
    "bread rw me 1 b s = Inr (h, s1)" "b_data (bufs s1 h) = V b" "brelse me h s1 = Inr s2" "cache_rep s2 (quiet V D P)"
    "bio.more s1 = bio.more s" "bio.more s2 = bio.more s1" "disksize s2 = disksize s" "trace s2 = trace s" by (auto simp: in_trans_def)
  then show ?thesis using t lg_more [of s1 s] lg_more [of s2 s1] by (auto simp: in_trans_def frame_def)
qed

lemma bzero_rep:
  assumes t: "in_trans s V D P" "lh_n (lg s) < 29" and b: "b < disksize s"
  shows "\<exists>s'. bzero rw me 1 b s = Inr s' \<and> in_trans s' (V(b := (\<lambda>i. if i < 512 then 0 else V b i))) D (insert b P) \<and> frame 1 s s'"
proof -
  from read_modify [OF assms, of me] obtain h s1 where
    1: "bread rw me 1 b s = Inr (h, s1)" "b_data (bufs s1 h) = V b"
    and w: "\<And>d. \<exists>s2 s3. log_write h (set_data h d s1) = Inr s2 \<and> brelse me h s2 = Inr s3 \<and> in_trans s3 (V(b := d)) D (insert b P) \<and> frame 1 s s3" by blast
  from w [of "\<lambda>i. if i < 512 then 0 else V b i"] show ?thesis
    unfolding bzero_def 1(1) kbind_simps prod.case 1(2) by auto
qed

lemma bfree_rep:
  assumes t: "in_trans s V D P" "lh_n (lg s) < 29" and b: "1 < disksize s" "BBLOCK b (sb_of (V 1)) < disksize s"
  defines "m \<equiv> BBLOCK b (sb_of (V 1))" and "i \<equiv> unat b mod BPB"
  shows "if map_bit (V m) i
    then \<exists>s'. bfree rw me 1 b s = Inr s' \<and> in_trans s' (V(m := (V m)(i div 8 := V m (i div 8) AND NOT (bit_mask i)))) D (insert m P) \<and> frame 1 s s'
    else bfree rw me 1 b s = Inl (Panic ''freeing free block'')"
proof -
  from read_release [OF t(1) b(1), of me] obtain h0 s0 s1 where
    0: "bread rw me 1 1 s = Inr (h0, s0)" "b_data (bufs s0 h0) = V 1" "brelse me h0 s0 = Inr s1" "in_trans s1 V D P" "frame 0 s s1" by blast
  have rs: "readsb rw me 1 s = Inr (sb_of (V 1), s1)" using 0 by (simp add: readsb_def)
  have i: "unat (b mod of_nat BPB) = i" by (simp add: i_def unat_mod)
  from read_modify [OF 0(4), of m me] t b(2) 0(5) obtain h s2 where
    1: "bread rw me 1 m s1 = Inr (h, s2)" "b_data (bufs s2 h) = V m"
    and w: "\<And>d. \<exists>s3 s4. log_write h (set_data h d s2) = Inr s3 \<and> brelse me h s3 = Inr s4 \<and> in_trans s4 (V(m := d)) D (insert m P) \<and> frame 1 s1 s4"
    unfolding m_def frame_def by auto
  from w [of "(V m)(i div 8 := V m (i div 8) AND NOT (bit_mask i))"] frame_trans [OF 0(5), of 1] show ?thesis
    unfolding bfree_def rs kbind_simps prod.case m_def [symmetric] 1(1) i Let_def 1(2) masked_zero by auto
qed

lemma balloc_step:
  assumes t: "in_trans s V D P" "lh_n (lg s) \<le> 27" and f: "map_fits sb (disksize s)" and j: "BPB * j < unat (sb_size sb)"
    and k: "free_bit sb (of_nat (BPB * j)) (V (of_nat j + sb_bmapstart sb)) = Some i"
  shows "\<exists>s' P'. balloc_loop rw me sb 1 (map_starts j sb) s = Inr (of_nat (BPB * j + i), s') \<and>
    in_trans s' (taken_block sb (BPB * j + i) V) D P' \<and> frame 2 s s'"
proof -
  let ?n = "BPB * j + i" and ?m = "of_nat j + sb_bmapstart sb"
  have sz: "unat (sb_size sb) \<le> 2 ^ 31" "sb_size sb \<le> disksize s" using f by (simp_all add: map_fits_def)
  have i: "i < BPB" "?n < unat (sb_size sb)" using free_bit_cases [OF sz(1) j, of "V ?m"] k by simp_all
  have m: "map_block sb ?n = ?m" "?n mod BPB = i" using i(1) by (simp_all add: map_block_def)
  have "map_block sb ?n < disksize s" using f i(2) unfolding map_fits_def by blast
  then have "?m < disksize s" unfolding m(1) .
  with read_modify [OF t(1), of ?m me] t(2) obtain h s1 where
    1: "bread rw me 1 ?m s = Inr (h, s1)" "b_data (bufs s1 h) = V ?m"
    and w: "\<And>d. \<exists>s2 s3. log_write h (set_data h d s1) = Inr s2 \<and> brelse me h s2 = Inr s3 \<and> in_trans s3 (V(?m := d)) D (insert ?m P) \<and> frame 1 s s3" by auto
  from w [of "marked_at i (V ?m)"] obtain s2 s3 where
    2: "log_write h (set_data h (marked_at i (V ?m)) s1) = Inr s2" "brelse me h s2 = Inr s3" "in_trans s3 (V(?m := marked_at i (V ?m))) D (insert ?m P)" "frame 1 s s3" by blast
  have "unat (of_nat ?n :: u32) = ?n" using unat_bitno [OF sz(1) j i(1)] by simp
  moreover have "disksize s3 = disksize s" using 2(4) by (simp add: frame_def)
  ultimately have lt: "of_nat ?n < disksize s3"
    using order.strict_trans2 [OF i(2) sz(2) [unfolded word_le_nat_alt]] by (simp only: word_less_nat_alt)
  have tb: "taken_block sb ?n V = (V(?m := marked_at i (V ?m)))(of_nat ?n := (\<lambda>x. if x < 512 then 0 else (V(?m := marked_at i (V ?m))) (of_nat ?n) x))"
    unfolding taken_block_def m Let_def zeroed_block_def ..
  have "lh_n (lg s3) < 29" using 2(4) t(2) by (simp add: frame_def)
  from bzero_rep [OF 2(3) this lt, of me, folded tb] obtain s4 where
    4: "bzero rw me 1 (of_nat ?n) s3 = Inr s4" "in_trans s4 (taken_block sb ?n V) D (insert (of_nat ?n) (insert ?m P))" "frame 1 s3 s4" by blast
  have "balloc_loop rw me sb 1 (map_starts j sb) s = Inr (of_nat ?n, s4)"
    unfolding map_starts_Cons [OF j] balloc_loop.simps BBLOCK_start [OF sz(1) j] 1(1) kbind_simps prod.case Let_def 1(2) k option.case
      marked_at_def [symmetric] 2(1,2) of_nat_add [symmetric] 4(1) ..
  moreover have "frame 2 s s4" using frame_trans [OF 2(4) 4(3)] by (simp add: numeral_2_eq_2)
  ultimately show ?thesis using 4(2) by blast
qed

lemma balloc_loop_rep:
  assumes "in_trans s V D P" "lh_n (lg s) \<le> 27" "map_fits sb (disksize s)" "\<forall>m < BPB * j. m < unat (sb_size sb) \<longrightarrow> inuse sb V m"
  shows "if \<forall>m < unat (sb_size sb). inuse sb V m then balloc_loop rw me sb 1 (map_starts j sb) s = Inl (Panic ''balloc: out of blocks'')
    else \<exists>n s' P'. balloc_loop rw me sb 1 (map_starts j sb) s = Inr (of_nat n, s') \<and> n < unat (sb_size sb) \<and> \<not> inuse sb V n \<and> (\<forall>m < n. inuse sb V m) \<and>
      in_trans s' (taken_block sb n V) D P' \<and> frame 2 s s'"
  using assms
proof (induction "unat (sb_size sb) - BPB * j" arbitrary: j s rule: less_induct)
  case less
  note p = less.prems
  show ?case
  proof (cases "BPB * j < unat (sb_size sb)")
    case False
    then show ?thesis using p(4) map_starts_Nil [of sb j] by simp
  next
    case True
    have sz: "unat (sb_size sb) \<le> 2 ^ 31" using p(3) by (simp add: map_fits_def)
    let ?m = "of_nat j + sb_bmapstart sb"
    note c = free_bit_cases [OF sz True, of "V ?m"]
    note low = inuse_up_to [OF p(4)]
    show ?thesis
    proof (cases "free_bit sb (of_nat (BPB * j)) (V ?m)")
      case (Some i)
      with c have i: "i < BPB" "BPB * j + i < unat (sb_size sb)" "\<not> map_bit (V ?m) i" "\<forall>l < i. map_bit (V ?m) l" by simp_all
      have n: "\<not> inuse sb V (BPB * j + i)" using i inuse_at by blast
      have "\<forall>m < BPB * j + i. inuse sb V m" by (intro allI impI, rule low [of _ i]) (use i in auto)
      moreover have "\<not> (\<forall>m < unat (sb_size sb). inuse sb V m)" using n i(2) by blast
      moreover obtain s' P' where "balloc_loop rw me sb 1 (map_starts j sb) s = Inr (of_nat (BPB * j + i), s')"
        "in_trans s' (taken_block sb (BPB * j + i) V) D P'" "frame 2 s s'" using balloc_step [OF p(1-3) True Some, of me] by (elim exE conjE)
      ultimately show ?thesis using n i(2) by (subst if_not_P) blast+
    next
      case None
      have "map_block sb (BPB * j) < disksize s" using p(3) True unfolding map_fits_def by blast
      then have "?m < disksize s" by (simp add: map_block_def)
      from read_release [OF p(1) this, of me] obtain h s1 s2 where
        2: "bread rw me 1 ?m s = Inr (h, s1)" "b_data (bufs s1 h) = V ?m" "brelse me h s1 = Inr s2" "in_trans s2 V D P" "frame 0 s s2" by blast
      have e: "balloc_loop rw me sb 1 (map_starts j sb) s = balloc_loop rw me sb 1 (map_starts (Suc j) sb) s2"
        unfolding map_starts_Cons [OF True] balloc_loop.simps BBLOCK_start [OF sz True] 2(1) kbind_simps prod.case Let_def 2(2) None option.case 2(3) ..
      have fr: "frame 2 s x" if "frame 2 s2 x" for x using that 2(5) by (auto simp: frame_def)
      have "\<forall>m < BPB * Suc j. m < unat (sb_size sb) \<longrightarrow> inuse sb V m"
        by (intro allI impI, rule low [of _ BPB]) (use c None in auto)
      note ih = less.hyps [OF _ 2(4) _ _ this]
      have "unat (sb_size sb) - BPB * Suc j < unat (sb_size sb) - BPB * j" "lh_n (lg s2) \<le> 27" "map_fits sb (disksize s2)"
        using p(2,3) True 2(5) by (simp_all add: frame_def)
      note ih' = ih [OF this]
      show ?thesis
      proof (cases "\<forall>m < unat (sb_size sb). inuse sb V m")
        case full: True
        show ?thesis using ih' unfolding e if_P [OF full] .
      next
        case part: False
        show ?thesis using ih' fr unfolding e if_not_P [OF part] by blast
      qed
    qed
  qed
qed

end

section \<open>The bitmap\<close>

lemma map_block_eq:
  assumes "m < 2 ^ 31" "n < 2 ^ 31"
  shows "map_block sb m = map_block sb n \<longleftrightarrow> m div BPB = n div BPB"
proof -
  have "unat (of_nat (k div BPB) :: u32) = k div BPB" if "k < 2 ^ 31" for k
  proof -
    have "k div BPB \<le> k" by simp
    then show ?thesis using that by (simp add: unat_of_nat)
  qed
  then show ?thesis unfolding map_block_def using assms by (metis add_right_cancel)
qed

lemma inuse_map: "inuse sb V n \<longleftrightarrow> map_bit (V (map_block sb n)) (n mod BPB)"
  by (simp add: inuse_def map_block_def)

lemma same_mod: "m div BPB = n div BPB \<Longrightarrow> m mod BPB = n mod BPB \<longleftrightarrow> m = n"
  by (metis div_mult_mod_eq)

lemma inuse_upd:
  assumes "m < 2 ^ 31" "n < 2 ^ 31" "\<And>i. map_bit d i \<longleftrightarrow> (if i = n mod BPB then x else map_bit (V (map_block sb n)) i)"
  shows "inuse sb (V(map_block sb n := d)) m \<longleftrightarrow> (if m = n then x else inuse sb V m)"
  unfolding inuse_map using map_block_eq [OF assms(1,2), of sb] same_mod [of m n] assms(3) by auto

lemma inuse_taken:
  assumes "m < 2 ^ 31" "n < 2 ^ 31" "map_block sb m \<noteq> of_nat n"
  shows "inuse sb (taken_block sb n V) m \<longleftrightarrow> inuse sb V m \<or> m = n"
proof -
  have "inuse sb (taken_block sb n V) m \<longleftrightarrow> inuse sb (V(map_block sb n := marked_at (n mod BPB) (V (map_block sb n)))) m"
    using assms(3) by (simp add: inuse_map taken_block_def Let_def)
  also have "\<dots> \<longleftrightarrow> (if m = n then True else inuse sb V m)"
    by (rule inuse_upd [OF assms(1,2)]) (simp add: marked_at_def map_bit_set)
  finally show ?thesis by auto
qed

text \<open>The blocks of the map are themselves marked in use.\<close>

definition map_reserved :: "superblock \<Rightarrow> (u32 \<Rightarrow> block) \<Rightarrow> bool" where
  "map_reserved sb V \<longleftrightarrow> (\<forall>n < unat (sb_size sb). inuse sb V (unat (map_block sb n)))"

text \<open>C39. Inside a transaction with room for two blocks, \<^verbatim>\<open>balloc\<close> returns the first block that
  the bitmap shows as free; afterwards the bitmap shows exactly this block as taken in addition, the
  block is zero, and no block but it and its block of the map has changed. It panics exactly when
  every block is in use.\<close>

theorem balloc_takes_first_free:
  fixes s :: fsys
  assumes t: "in_trans s V D P" "lh_n (lg s) \<le> 27" and f: "map_fits sb (disksize s)" "map_reserved sb V"
  shows "case balloc iderw me sb 1 s of
      Inl e \<Rightarrow> e = Panic ''balloc: out of blocks'' \<and> (\<forall>m < unat (sb_size sb). inuse sb V m)
    | Inr (b, s') \<Rightarrow> b < sb_size sb \<and> \<not> inuse sb V (unat b) \<and> (\<forall>m < unat b. inuse sb V m) \<and> frame 2 s s' \<and>
        (\<exists>V' P'. in_trans s' V' D P' \<and> (\<forall>m < unat (sb_size sb). inuse sb V' m \<longleftrightarrow> inuse sb V m \<or> m = unat b) \<and>
          (\<forall>i < 512. V' b i = 0) \<and> (\<forall>x. x \<noteq> b \<and> x \<noteq> map_block sb (unat b) \<longrightarrow> V' x = V x))"
proof (cases "\<forall>m < unat (sb_size sb). inuse sb V m")
  case True
  then show ?thesis using memlog.balloc_loop_rep [OF t f(1), of 0 me] by (simp add: balloc_def)
next
  case False
  with memlog.balloc_loop_rep [OF t f(1), of 0 me] obtain n s' P' where
    n: "balloc iderw me sb 1 s = Inr (of_nat n, s')" "n < unat (sb_size sb)" "\<not> inuse sb V n" "\<forall>m < n. inuse sb V m"
    "in_trans s' (taken_block sb n V) D P'" "frame 2 s s'" unfolding if_not_P [OF False] balloc_def by auto
  have sz: "unat (sb_size sb) \<le> 2 ^ 31" using f(1) by (simp add: map_fits_def)
  then have u: "unat (of_nat n :: u32) = n" using n(2) by (simp add: unat_of_nat)
  have "map_block sb m \<noteq> of_nat n" if "m < unat (sb_size sb)" for m
    using f(2) that n(3) u unfolding map_reserved_def by metis
  then have "\<forall>m < unat (sb_size sb). inuse sb (taken_block sb n V) m \<longleftrightarrow> inuse sb V m \<or> m = n"
    using inuse_taken [of _ n sb V] sz n(2) by simp
  moreover have "\<forall>i < 512. taken_block sb n V (of_nat n) i = 0" "\<forall>x. x \<noteq> of_nat n \<and> x \<noteq> map_block sb n \<longrightarrow> taken_block sb n V x = V x"
    by (simp_all add: taken_block_def Let_def zeroed_block_def)
  moreover have "of_nat n < sb_size sb" unfolding word_less_nat_alt u by (rule n(2))
  ultimately show ?thesis unfolding n(1) sum.case prod.case u using n(3-6) by blast
qed

text \<open>A disk of 1000 blocks whose map is block 58; the blocks up to 58 are in use.\<close>

definition ex_mapped :: "u32 \<Rightarrow> block" where
  "ex_mapped = (\<lambda>b i. 0)(1 := put32 0 1000 (put32 24 58 (put32 16 2 (\<lambda>_. 0))), 58 := (\<lambda>i. if i < 7 then 0xFF else if i = 7 then 7 else 0))"

definition ex_op :: fsys where
  "ex_op = (boot 1000 ex_mapped)\<lparr>lg := zero_log\<lparr>l_start := 2, l_size := 30, l_dev := 1, outstanding := 1\<rparr>\<rparr>"

lemma ex_sb: "sb_size (sb_of (ex_mapped 1)) = 1000" "sb_bmapstart (sb_of (ex_mapped 1)) = 58"
  by (simp_all add: ex_mapped_def sb_of_def get32_def put32_def)

lemma ex_op_facts: "in_trans ex_op ex_mapped ex_mapped {}" "lh_n (lg ex_op) = 0" "disksize ex_op = 1000"
proof -
  have "cache_rep ex_op (quiet ex_mapped ex_mapped {})" by (rule cache_rep_cong [OF _ _ boot_rep(1) [of 1000]]) (simp_all add: ex_op_def)
  then show "in_trans ex_op ex_mapped ex_mapped {}" by (simp add: in_trans_def log_inv_def ex_op_def zero_log_def)
qed (use boot_rep [of 1000 ex_mapped] in \<open>simp_all add: ex_op_def zero_log_def\<close>)

lemma ex_map_block: "n < 1000 \<Longrightarrow> map_block (sb_of (ex_mapped 1)) n = 58"
  by (simp add: map_block_def ex_sb)

lemma ex_inuse: "inuse (sb_of (ex_mapped 1)) ex_mapped 58" "\<not> inuse (sb_of (ex_mapped 1)) ex_mapped 59"
proof -
  have "ex_mapped 58 7 = 7" by (simp add: ex_mapped_def)
  then have "map_bit (ex_mapped 58) 58" "\<not> map_bit (ex_mapped 58) 59" by (simp_all add: map_bit_def bit_iff_odd)
  then show "inuse (sb_of (ex_mapped 1)) ex_mapped 58" "\<not> inuse (sb_of (ex_mapped 1)) ex_mapped 59" by (simp_all add: inuse_map ex_map_block)
qed

theorem balloc_takes_first_free_witness:
  "\<exists>b s'. balloc iderw 1 (sb_of (ex_mapped 1)) 1 ex_op = Inr (b, s') \<and> b < 1000 \<and> \<not> inuse (sb_of (ex_mapped 1)) ex_mapped (unat b)"
proof -
  have "map_fits (sb_of (ex_mapped 1)) (disksize ex_op)" "map_reserved (sb_of (ex_mapped 1)) ex_mapped"
    using ex_inuse(1) by (auto simp: map_fits_def map_reserved_def ex_sb ex_op_facts(3) ex_map_block)
  from balloc_takes_first_free [OF ex_op_facts(1) _ this, of 1] ex_inuse(2) show ?thesis
    by (cases "balloc iderw 1 (sb_of (ex_mapped 1)) 1 ex_op") (auto simp: ex_op_facts(2) ex_sb)
qed

text \<open>C40. \<^verbatim>\<open>bfree\<close> of a block in use clears exactly its bit of the map and changes nothing
  else; freeing a free block panics.\<close>

theorem bfree_clears_exactly:
  fixes s :: fsys
  assumes t: "in_trans s V D P" "lh_n (lg s) < 29" and b: "1 < disksize s" "unat b < 2 ^ 31"
  defines "sb \<equiv> sb_of (V 1)"
  assumes m: "map_block sb (unat b) < disksize s"
  shows "if inuse sb V (unat b)
    then \<exists>s' V' P'. bfree iderw me 1 b s = Inr s' \<and> in_trans s' V' D P' \<and> frame 1 s s' \<and>
      (\<forall>n < 2 ^ 31. inuse sb V' n \<longleftrightarrow> inuse sb V n \<and> n \<noteq> unat b) \<and> (\<forall>x. x \<noteq> map_block sb (unat b) \<longrightarrow> V' x = V x)
    else bfree iderw me 1 b s = Inl (Panic ''freeing free block'')"
proof -
  let ?m = "map_block sb (unat b)" and ?i = "unat b mod BPB"
  let ?d = "(V ?m)(?i div 8 := V ?m (?i div 8) AND NOT (bit_mask ?i))"
  have "unat (b div (of_nat BPB :: u32)) = unat b div BPB" by (simp add: unat_div)
  then have "of_nat (unat b div BPB) = b div (of_nat BPB :: u32)" by (metis unat_of_nat_self)
  then have B: "BBLOCK b (sb_of (V 1)) = ?m" by (simp add: BBLOCK_def map_block_def sb_def)
  have "inuse sb (V(?m := ?d)) n \<longleftrightarrow> (if n = unat b then False else inuse sb V n)" if "n < 2 ^ 31" for n
    by (rule inuse_upd [OF that b(2)]) (simp add: map_bit_clear)
  then have V': "\<forall>n < 2 ^ 31. inuse sb (V(?m := ?d)) n \<longleftrightarrow> inuse sb V n \<and> n \<noteq> unat b" by simp
  note r = memlog.bfree_rep [OF t b(1), of b me, unfolded B, OF m]
  show ?thesis
  proof (cases "map_bit (V ?m) ?i")
    case True
    from r [unfolded if_P [OF True]] obtain s' where "bfree iderw me 1 b s = Inr s'" "in_trans s' (V(?m := ?d)) D (insert ?m P)" "frame 1 s s'" by blast
    then have "\<exists>s' V' P'. bfree iderw me 1 b s = Inr s' \<and> in_trans s' V' D P' \<and> frame 1 s s' \<and>
      (\<forall>n < 2 ^ 31. inuse sb V' n \<longleftrightarrow> inuse sb V n \<and> n \<noteq> unat b) \<and> (\<forall>x. x \<noteq> ?m \<longrightarrow> V' x = V x)"
      by (intro exI [of _ s'] exI [of _ "V(?m := ?d)"] exI [of _ "insert ?m P"] conjI V') simp_all
    then show ?thesis unfolding inuse_map [of sb V "unat b"] if_P [OF True] .
  next
    case False
    show ?thesis using r unfolding inuse_map [of sb V "unat b"] if_not_P [OF False] .
  qed
qed

theorem bfree_clears_exactly_witness:
  "(\<exists>s' V' P'. bfree iderw 1 1 58 ex_op = Inr s' \<and> in_trans s' V' ex_mapped P' \<and> \<not> inuse (sb_of (ex_mapped 1)) V' 58) \<and>
   bfree iderw 1 1 59 ex_op = Inl (Panic ''freeing free block'')"
proof -
  note f = bfree_clears_exactly [OF ex_op_facts(1), of "58" 1] bfree_clears_exactly [OF ex_op_facts(1), of "59" 1]
  have u: "unat (58 :: u32) = 58" "unat (59 :: u32) = 59" by simp_all
  have "bfree iderw 1 1 59 ex_op = Inl (Panic ''freeing free block'')"
    using f(2) [unfolded u if_not_P [OF ex_inuse(2)]] by (simp add: ex_op_facts(2,3) ex_map_block)
  moreover obtain s' V' P' where "bfree iderw 1 1 58 ex_op = Inr s'" "in_trans s' V' ex_mapped P'"
    "\<forall>n < 2 ^ 31. inuse (sb_of (ex_mapped 1)) V' n \<longleftrightarrow> inuse (sb_of (ex_mapped 1)) ex_mapped n \<and> n \<noteq> 58"
    using f(1) [unfolded u if_P [OF ex_inuse(1)]] by (simp add: ex_op_facts(2,3) ex_map_block) blast
  moreover from this(3) have "\<not> inuse (sb_of (ex_mapped 1)) V' 58" by simp
  ultimately show ?thesis by blast
qed

end
