(* ===== verification/Sh.thy ===== *)
theory Sh
  imports Kprelude "HOL-Library.Sublist"
begin

text \<open>
  The parser of the shell (\<^verbatim>\<open>sh.c\<close>). A pointer \<^verbatim>\<open>s\<close> into the command line with its end
  \<^verbatim>\<open>es\<close> is the list of characters from \<^verbatim>\<open>s\<close> to \<^verbatim>\<open>es\<close>, so advancing a pointer drops
  characters and reading at \<^verbatim>\<open>es\<close> gives the NUL. A word is the pair of pointers
  \<^verbatim>\<open>q\<close>, \<^verbatim>\<open>eq\<close>. The commands are the nodes that the constructors allocate; \<^verbatim>\<open>panic\<close>
  prints its message and exits. The four mutually recursive functions take fuel, the
  bound on the depth of their calls, whose end is \<open>Hang\<close>; \<^verbatim>\<open>parsecmd\<close> supplies enough.
\<close>

type_synonym ptr = string
type_synonym word_ptrs = "ptr \<times> ptr"

abbreviation NUL :: char where "NUL \<equiv> CHR 0x00"

datatype cmd =
    EXEC "word_ptrs list"
  | REDIR cmd word_ptrs int int
  | PIPE cmd cmd
  | LIST cmd cmd
  | BACK cmd

abbreviation MAXARGS :: nat where "MAXARGS \<equiv> 10"
abbreviation O_RDONLY :: int where "O_RDONLY \<equiv> 0"
abbreviation O_WRONLY_CREATE :: int where "O_WRONLY_CREATE \<equiv> 0x201"

definition pipecmd :: "cmd \<Rightarrow> cmd \<Rightarrow> cmd" where
  [simp]: "pipecmd left right = PIPE left right"

definition listcmd :: "cmd \<Rightarrow> cmd \<Rightarrow> cmd" where
  [simp]: "listcmd left right = LIST left right"

definition backcmd :: "cmd \<Rightarrow> cmd" where
  [simp]: "backcmd subcmd = BACK subcmd"

section \<open>Tokens\<close>

definition whitespace :: string where
  "whitespace = [CHR 0x20, CHR 0x09, CHR 0x0D, CHR 0x0A, CHR 0x0B]"

definition symbols :: string where
  "symbols = ''<|>&;()''"

definition special :: "char \<Rightarrow> bool" where
  "special c \<longleftrightarrow> c \<in> set whitespace \<or> c \<in> set symbols"

definition skip_ws :: "ptr \<Rightarrow> ptr" where
  "skip_ws s = dropWhile (\<lambda>c. c \<in> set whitespace) s"

definition deref :: "ptr \<Rightarrow> char" where
  "deref s = (case s of [] \<Rightarrow> NUL | c # t \<Rightarrow> c)"

text \<open>The switch of \<^verbatim>\<open>gettoken\<close>: its result and the end of the token that starts at \<open>q\<close>.\<close>

definition lex :: "ptr \<Rightarrow> char \<times> ptr" where
  "lex q =
     (if deref q = NUL then (NUL, q)
      else if deref q \<in> set ''|();&<'' then (deref q, tl q)
      else if deref q = CHR ''>''
      then (if deref (tl q) = CHR ''>'' then (CHR ''+'', tl (tl q)) else (CHR ''>'', tl q))
      else (CHR ''a'', dropWhile (\<lambda>c. \<not> special c) q))"

text \<open>The result, \<^verbatim>\<open>*q\<close>, \<^verbatim>\<open>*eq\<close> and the new \<^verbatim>\<open>*ps\<close>.\<close>

definition gettoken :: "ptr \<Rightarrow> char \<times> ptr \<times> ptr \<times> ptr" where
  "gettoken s = (let q = skip_ws s; (ret, eq) = lex q in (ret, q, eq, skip_ws eq))"

definition peek :: "string \<Rightarrow> ptr \<Rightarrow> bool \<times> ptr" where
  "peek toks s = (let q = skip_ws s in (deref q \<noteq> NUL \<and> deref q \<in> set toks, q))"

lemma suffix_skip_ws: "suffix (skip_ws s) s"
  unfolding skip_ws_def by (rule suffix_dropWhile)

lemma peek_simps [simp]: "snd (peek toks s) = skip_ws s" "fst (peek toks s) \<longleftrightarrow> deref (skip_ws s) \<noteq> NUL \<and> deref (skip_ws s) \<in> set toks"
  by (simp_all add: peek_def Let_def)

lemma suffix_tl: "suffix (tl s) s"
  by (cases s) (auto simp: suffix_def)

lemma suffix_lex: "suffix (snd (lex q)) q"
proof -
  have "suffix (tl (tl q)) q" using suffix_order.trans [OF suffix_tl suffix_tl] .
  then show ?thesis unfolding lex_def using suffix_tl [of q] suffix_dropWhile [of "\<lambda>c. \<not> special c" q] by simp
qed

lemma length_lex:
  assumes "fst (lex q) \<noteq> NUL" "q = skip_ws s"
  shows "length (snd (lex q)) < length q"
proof (cases q)
  case Nil
  then show ?thesis using assms by (simp add: lex_def deref_def)
next
  case (Cons c t)
  then have ws: "c \<notin> set whitespace" using assms(2) unfolding skip_ws_def by (metis dropWhile_eq_Cons_conv)
  have "length (dropWhile (\<lambda>c. \<not> special c) q) < length q" if "deref q \<notin> set ''|();&<''" "deref q \<noteq> CHR ''>''"
  proof -
    have "\<not> special c" using that ws Cons by (auto simp: special_def symbols_def deref_def)
    then show ?thesis using Cons length_dropWhile_le [of "\<lambda>c. \<not> special c" t] by simp
  qed
  moreover have "length (tl q) < length q" "length (tl (tl q)) < length q" using Cons by simp_all
  ultimately show ?thesis using assms(1) unfolding lex_def by (simp split: if_splits)
qed

abbreviation tok_kind :: "ptr \<Rightarrow> char" where "tok_kind s \<equiv> fst (gettoken s)"
abbreviation tok_word :: "ptr \<Rightarrow> word_ptrs" where "tok_word s \<equiv> (fst (snd (gettoken s)), fst (snd (snd (gettoken s))))"
abbreviation tok_rest :: "ptr \<Rightarrow> ptr" where "tok_rest s \<equiv> snd (snd (snd (gettoken s)))"

lemma gettoken_parts:
  "tok_kind s = fst (lex (skip_ws s))" "tok_word s = (skip_ws s, snd (lex (skip_ws s)))" "tok_rest s = skip_ws (snd (lex (skip_ws s)))"
  by (simp_all add: gettoken_def case_prod_beta Let_def)

lemma suffix_tok_rest: "suffix (tok_rest s) s"
  unfolding gettoken_parts
  using suffix_order.trans [OF suffix_skip_ws suffix_order.trans [OF suffix_lex suffix_skip_ws]] .

lemma length_tok_rest: "tok_kind s \<noteq> NUL \<Longrightarrow> length (tok_rest s) < length s"
  unfolding gettoken_parts
  using length_lex [of "skip_ws s" s] suffix_length_le [OF suffix_skip_ws [of "snd (lex (skip_ws s))"]] suffix_length_le [OF suffix_skip_ws [of s]]
  by simp

lemma length_skip_ws: "length (skip_ws s) \<le> length s"
  by (rule suffix_length_le [OF suffix_skip_ws])

lemma skip_ws_idem [simp]: "skip_ws (skip_ws s) = skip_ws s"
  by (simp add: skip_ws_def)

lemma tok_kind_peek: "deref (skip_ws s) \<noteq> NUL \<Longrightarrow> tok_kind (skip_ws s) \<noteq> NUL"
  by (simp add: gettoken_parts lex_def)

section \<open>Redirections and arguments\<close>

text \<open>
  \<^verbatim>\<open>parseredirs\<close> wraps a command; here it is the list of the wrappers, the innermost first, so
  that \<^verbatim>\<open>parseexec\<close> can go on adding arguments to the node inside them.
\<close>

type_synonym redir = "word_ptrs \<times> int \<times> int"

definition redircmd :: "redir \<Rightarrow> cmd \<Rightarrow> cmd" where
  "redircmd r c = (case r of (w, mode, fd) \<Rightarrow> REDIR c w mode fd)"

definition redir_of :: "char \<Rightarrow> word_ptrs \<Rightarrow> redir" where
  "redir_of tok w = (if tok = CHR ''<'' then (w, O_RDONLY, 0) else (w, O_WRONLY_CREATE, 1))"

function parseredirs :: "ptr \<Rightarrow> (redir list \<times> ptr) kres" where
  "parseredirs s =
     (let s1 = snd (peek ''<>'' s); s2 = tok_rest s1 in
      if \<not> fst (peek ''<>'' s) then Inr ([], s1)
      else if tok_kind s2 \<noteq> CHR ''a'' then Inl (Panic ''missing file for redirection'')
      else kbind (parseredirs (tok_rest s2)) (\<lambda>(rs, s4). Inr (redir_of (tok_kind s1) (tok_word s2) # rs, s4)))"
  by pat_completeness auto

termination
proof (relation "measure length")
  fix s s1 s2
  assume "s1 = snd (peek ''<>'' s)" "s2 = tok_rest s1" "\<not> tok_kind s2 \<noteq> CHR ''a''"
  then have "length (tok_rest s2) < length s2" "length s2 \<le> length s1" "length s1 \<le> length s"
    using length_tok_rest [of s2] suffix_length_le [OF suffix_tok_rest [of s1]] length_skip_ws [of s] by simp_all
  then show "(tok_rest s2, s) \<in> measure length" by simp
qed simp

declare parseredirs.simps [simp del]

text \<open>The loop of \<^verbatim>\<open>parseexec\<close>.\<close>

function parse_args :: "nat \<Rightarrow> ptr \<Rightarrow> (word_ptrs list \<times> redir list \<times> ptr) kres" where
  "parse_args argc s =
     (let s1 = snd (peek ''|)&;'' s) in
      if fst (peek ''|)&;'' s) then Inr ([], [], s1)
      else if tok_kind s1 = NUL then Inr ([], [], tok_rest s1)
      else if tok_kind s1 \<noteq> CHR ''a'' then Inl (Panic ''syntax'')
      else if MAXARGS \<le> argc + 1 then Inl (Panic ''too many args'')
      else kbind (parseredirs (tok_rest s1)) (\<lambda>(rs, s3).
           kbind (parse_args (argc + 1) s3) (\<lambda>(ws, rs', s4). Inr (tok_word s1 # ws, rs @ rs', s4))))"
  by pat_completeness auto

termination
  by (relation "measure (\<lambda>(argc, s). MAXARGS - argc)") auto

declare parse_args.simps [simp del]

text \<open>The loop of \<^verbatim>\<open>parseline\<close> over \<^verbatim>\<open>&\<close>.\<close>

function parse_backs :: "cmd \<Rightarrow> ptr \<Rightarrow> cmd \<times> ptr" where
  "parse_backs c s =
     (if fst (peek ''&'' s) then parse_backs (backcmd c) (tok_rest (snd (peek ''&'' s)))
      else (c, snd (peek ''&'' s)))"
  by pat_completeness auto

termination
proof (relation "measure (\<lambda>(c, s). length s)")
  fix c s
  assume "fst (peek ''&'' s)"
  then have "length (tok_rest (skip_ws s)) < length (skip_ws s)" using length_tok_rest [OF tok_kind_peek [of s]] by simp
  then show "((backcmd c, tok_rest (snd (peek ''&'' s))), c, s) \<in> measure (\<lambda>(c, s). length s)" using length_skip_ws [of s] by simp
qed simp

declare parse_backs.simps [simp del]

section \<open>Commands\<close>

fun parseline :: "nat \<Rightarrow> ptr \<Rightarrow> (cmd \<times> ptr) kres"
  and parsepipe :: "nat \<Rightarrow> ptr \<Rightarrow> (cmd \<times> ptr) kres"
  and parseexec :: "nat \<Rightarrow> ptr \<Rightarrow> (cmd \<times> ptr) kres"
  and parseblock :: "nat \<Rightarrow> ptr \<Rightarrow> (cmd \<times> ptr) kres" where
  "parseline 0 s = Inl Hang"
| "parseline (Suc n) s =
     kbind (parsepipe n s) (\<lambda>(c, s1).
     let (c2, s2) = parse_backs c s1; s3 = snd (peek '';'' s2) in
     if fst (peek '';'' s2)
     then kbind (parseline n (tok_rest s3)) (\<lambda>(c4, s4). Inr (listcmd c2 c4, s4))
     else Inr (c2, s3))"
| "parsepipe 0 s = Inl Hang"
| "parsepipe (Suc n) s =
     kbind (parseexec n s) (\<lambda>(c, s1).
     let s2 = snd (peek ''|'' s1) in
     if fst (peek ''|'' s1)
     then kbind (parsepipe n (tok_rest s2)) (\<lambda>(c3, s3). Inr (pipecmd c c3, s3))
     else Inr (c, s2))"
| "parseexec 0 s = Inl Hang"
| "parseexec (Suc n) s =
     (if fst (peek ''('' s) then parseblock n (snd (peek ''('' s))
      else kbind (parseredirs (snd (peek ''('' s))) (\<lambda>(rs, s1).
           kbind (parse_args 0 s1) (\<lambda>(ws, rs', s2). Inr (fold redircmd (rs @ rs') (EXEC ws), s2))))"
| "parseblock 0 s = Inl Hang"
| "parseblock (Suc n) s =
     (if \<not> fst (peek ''('' s) then Inl (Panic ''parseblock'')
      else kbind (parseline n (tok_rest (snd (peek ''('' s)))) (\<lambda>(c, s1).
           let s2 = snd (peek '')'' s1) in
           if \<not> fst (peek '')'' s1) then Inl (Panic ''syntax - missing )'')
           else kbind (parseredirs (tok_rest s2)) (\<lambda>(rs, s3). Inr (fold redircmd rs c, s3))))"

text \<open>
  \<^verbatim>\<open>nulterminate\<close> writes a NUL at the end \<^verbatim>\<open>eq\<close> of every word into the line, which is
  followed by its own NUL.
\<close>

definition put_nul :: "word_ptrs \<Rightarrow> string \<Rightarrow> string" where
  "put_nul w b = b[length b - 1 - length (snd w) := NUL]"

fun nulterminate :: "cmd \<Rightarrow> string \<Rightarrow> string" where
  "nulterminate (EXEC ws) b = fold put_nul ws b"
| "nulterminate (REDIR c w mode fd) b = put_nul w (nulterminate c b)"
| "nulterminate (PIPE l r) b = nulterminate r (nulterminate l b)"
| "nulterminate (LIST l r) b = nulterminate r (nulterminate l b)"
| "nulterminate (BACK c) b = nulterminate c b"

definition parsecmd :: "string \<Rightarrow> (cmd \<times> string) kres" where
  "parsecmd line =
     (let s = takeWhile (\<lambda>c. c \<noteq> NUL) line in
      kbind (parseline (4 * length s + 4) s) (\<lambda>(c, s1).
      if snd (peek [] s1) \<noteq> [] then Inl (Panic ''syntax'')
      else Inr (c, nulterminate c (s @ [NUL]))))"

end
