(* ===== verification/ShProps.thy ===== *)
theory ShProps
  imports Sh
begin

text \<open>
  The parser of the shell ends on every line, and the words of the commands it returns are
  NUL-terminated strings of the line.
\<close>

section \<open>Words\<close>

definition tok_ok :: "ptr \<Rightarrow> word_ptrs \<Rightarrow> bool" where
  "tok_ok S w \<longleftrightarrow> suffix (fst w) S \<and> (\<exists>x. fst w = x @ snd w \<and> x \<noteq> [] \<and> (\<forall>c \<in> set x. \<not> special c) \<and> (snd w = [] \<or> special (hd (snd w))))"

fun words :: "cmd \<Rightarrow> word_ptrs list" where
  "words (EXEC ws) = ws"
| "words (REDIR c w mode fd) = words c @ [w]"
| "words (PIPE l r) = words l @ words r"
| "words (LIST l r) = words l @ words r"
| "words (BACK c) = words c"

lemma nulterminate_words: "nulterminate c b = fold put_nul (words c) b"
  by (induction c arbitrary: b) simp_all

lemma words_redirs: "words (fold redircmd rs c) = words c @ map fst rs"
  by (induction rs arbitrary: c) (auto simp: redircmd_def split: prod.split)

lemma lex_word:
  assumes "fst (lex q) = CHR ''a''"
  shows "snd (lex q) = dropWhile (\<lambda>c. \<not> special c) q"
  using assms unfolding lex_def by (auto split: if_splits)

lemma tok_word_ok:
  assumes k: "tok_kind s = CHR ''a''" and s: "suffix s S"
  shows "tok_ok S (tok_word s)"
proof -
  let ?q = "skip_ws s" and ?p = "\<lambda>c. \<not> special c"
  have e: "snd (lex ?q) = dropWhile ?p ?q" using k lex_word [of ?q] by (simp add: gettoken_parts)
  have "length (dropWhile ?p ?q) < length ?q" using length_lex [of ?q s] k e by (simp add: gettoken_parts)
  then have ne: "takeWhile ?p ?q \<noteq> []" by (metis append_Nil less_irrefl takeWhile_dropWhile_id)
  have "suffix ?q S" using suffix_order.trans [OF suffix_skip_ws s] .
  moreover have "?q = takeWhile ?p ?q @ dropWhile ?p ?q" by simp
  moreover have "\<forall>c \<in> set (takeWhile ?p ?q). ?p c" by (auto dest: set_takeWhileD)
  moreover have "dropWhile ?p ?q = [] \<or> special (hd (dropWhile ?p ?q))" using hd_dropWhile [of ?p ?q] by blast
  ultimately show ?thesis unfolding tok_ok_def gettoken_parts fst_conv snd_conv e using ne by blast
qed

section \<open>The parser ends and keeps within the line\<close>

definition redirs_ok :: "ptr \<Rightarrow> ptr \<Rightarrow> (redir list \<times> ptr) kres \<Rightarrow> bool" where
  "redirs_ok S s r \<longleftrightarrow> r \<noteq> Inl Hang \<and> (\<forall>rs s'. r = Inr (rs, s') \<longrightarrow> suffix s' s \<and> list_all (tok_ok S) (map fst rs))"

definition args_ok :: "ptr \<Rightarrow> ptr \<Rightarrow> (word_ptrs list \<times> redir list \<times> ptr) kres \<Rightarrow> bool" where
  "args_ok S s r \<longleftrightarrow> r \<noteq> Inl Hang \<and>
     (\<forall>ws rs s'. r = Inr (ws, rs, s') \<longrightarrow> suffix s' s \<and> list_all (tok_ok S) ws \<and> list_all (tok_ok S) (map fst rs))"

definition cmd_ok :: "ptr \<Rightarrow> ptr \<Rightarrow> (cmd \<times> ptr) kres \<Rightarrow> bool" where
  "cmd_ok S s r \<longleftrightarrow> r \<noteq> Inl Hang \<and> (\<forall>c s'. r = Inr (c, s') \<longrightarrow> suffix s' s \<and> list_all (tok_ok S) (words c))"

lemma kbind_not_Hang: "m \<noteq> Inl Hang \<Longrightarrow> (\<And>x. m = Inr x \<Longrightarrow> f x \<noteq> Inl Hang) \<Longrightarrow> kbind m f \<noteq> Inl Hang"
  by (cases m) auto

lemma parseredirs_ok: "suffix s S \<Longrightarrow> redirs_ok S s (parseredirs s)"
proof (induction s rule: parseredirs.induct)
  case (1 s)
  let ?s1 = "skip_ws s" and ?s2 = "tok_rest (skip_ws s)"
  have s2: "suffix ?s2 s" using suffix_order.trans [OF suffix_tok_rest suffix_skip_ws] .
  then have s3: "suffix (tok_rest ?s2) s" using suffix_order.trans [OF suffix_tok_rest] by blast
  show ?case
  proof (cases "fst (peek ''<>'' s) \<and> tok_kind ?s2 = CHR ''a''")
    case True
    then have "redirs_ok S (tok_rest ?s2) (parseredirs (tok_rest ?s2))"
      using "1.IH" [of ?s1 ?s2] suffix_order.trans [OF s3 "1.prems"] by simp
    moreover have "tok_ok S (tok_word ?s2)" using True tok_word_ok [of ?s2 S] suffix_order.trans [OF s2 "1.prems"] by blast
    ultimately show ?thesis using True suffix_order.trans [OF _ s3]
      by (subst parseredirs.simps) (auto simp: redirs_ok_def Let_def kbind_def redir_of_def split: sum.splits)
  next
    case False
    then show ?thesis using suffix_skip_ws [of s] by (subst parseredirs.simps) (auto simp: redirs_ok_def Let_def)
  qed
qed

lemma parse_args_ok: "suffix s S \<Longrightarrow> args_ok S s (parse_args argc s)"
proof (induction argc s rule: parse_args.induct)
  case (1 argc s)
  let ?s1 = "skip_ws s" and ?s2 = "tok_rest (skip_ws s)"
  have s2: "suffix ?s2 s" using suffix_order.trans [OF suffix_tok_rest suffix_skip_ws] .
  note r = parseredirs_ok [OF suffix_order.trans [OF s2 "1.prems"]]
  show ?case
  proof (cases "\<not> fst (peek ''|)&;'' s) \<and> tok_kind ?s1 = CHR ''a'' \<and> argc + 1 < MAXARGS")
    case False
    then show ?thesis using suffix_skip_ws [of s] s2 by (subst parse_args.simps) (auto simp: args_ok_def Let_def)
  next
    case True
    have w: "tok_ok S (tok_word ?s1)" using True tok_word_ok [of ?s1 S] suffix_order.trans [OF suffix_skip_ws "1.prems"] by blast
    show ?thesis
    proof (cases "parseredirs ?s2")
      case (Inl e)
      then show ?thesis using True r by (subst parse_args.simps) (auto simp: args_ok_def redirs_ok_def Let_def)
    next
      case (Inr x)
      obtain rs s3 where x: "x = (rs, s3)" by (cases x)
      have s3: "suffix s3 s" using r Inr x suffix_order.trans [OF _ s2] by (auto simp: redirs_ok_def)
      have "args_ok S s3 (parse_args (argc + 1) s3)"
        by (rule "1.IH" [OF refl]) (use True x Inr suffix_order.trans [OF s3 "1.prems"] in auto)
      then show ?thesis using True r w x Inr suffix_order.trans [OF _ s3]
        by (subst parse_args.simps) (auto simp: args_ok_def redirs_ok_def Let_def kbind_def split: sum.splits)
    qed
  qed
qed

lemma parse_backs_ok: "suffix (snd (parse_backs c s)) s \<and> words (fst (parse_backs c s)) = words c"
proof (induction c s rule: parse_backs.induct)
  case (1 c s)
  have "suffix (tok_rest (skip_ws s)) s" using suffix_order.trans [OF suffix_tok_rest suffix_skip_ws] .
  then show ?case using 1 suffix_skip_ws [of s] suffix_order.trans by (subst (1 2) parse_backs.simps) auto
qed

lemma suffix_rest: "suffix (tok_rest (skip_ws x)) x"
  using suffix_order.trans [OF suffix_tok_rest suffix_skip_ws] .

lemma peek_shorter: "fst (peek t x) \<Longrightarrow> length (tok_rest (skip_ws x)) < length x"
  using length_tok_rest [OF tok_kind_peek [of x]] length_skip_ws [of x] by simp

text \<open>One level of each function, given its callees on shorter or equal lines.\<close>

lemma parseline_step:
  assumes p: "cmd_ok S s (parsepipe n s)" and l: "\<And>r. suffix r s \<Longrightarrow> length r < length s \<Longrightarrow> cmd_ok S r (parseline n r)"
  shows "cmd_ok S s (parseline (Suc n) s)"
proof (cases "parsepipe n s")
  case (Inl e)
  then show ?thesis using p by (simp add: cmd_ok_def)
next
  case (Inr x)
  obtain c s1 c2 s2 where x: "x = (c, s1)" "parse_backs c s1 = (c2, s2)" by (cases x) (metis surj_pair)
  have a: "suffix s1 s" "list_all (tok_ok S) (words c)" using p Inr x by (auto simp: cmd_ok_def)
  have b: "suffix s2 s" "words c2 = words c" using parse_backs_ok [of c s1] x(2) suffix_order.trans [OF _ a(1)] by auto
  show ?thesis
  proof (cases "fst (peek '';'' s2)")
    case True
    let ?r = "tok_rest (skip_ws s2)"
    have r: "suffix ?r s" "length ?r < length s"
      using suffix_order.trans [OF suffix_rest b(1)] peek_shorter [OF True] suffix_length_le [OF b(1)] by auto
    show ?thesis using l [OF r] x Inr a b True r suffix_order.trans [OF _ r(1)]
      by (auto simp: cmd_ok_def Let_def kbind_def split: sum.splits)
  next
    case False
    then show ?thesis using x Inr a b suffix_order.trans [OF suffix_skip_ws b(1)] by (auto simp: cmd_ok_def Let_def)
  qed
qed

lemma parsepipe_step:
  assumes p: "cmd_ok S s (parseexec n s)" and l: "\<And>r. suffix r s \<Longrightarrow> length r < length s \<Longrightarrow> cmd_ok S r (parsepipe n r)"
  shows "cmd_ok S s (parsepipe (Suc n) s)"
proof (cases "parseexec n s")
  case (Inl e)
  then show ?thesis using p by (simp add: cmd_ok_def)
next
  case (Inr x)
  obtain c s1 where x: "x = (c, s1)" by (cases x)
  have a: "suffix s1 s" "list_all (tok_ok S) (words c)" using p Inr x by (auto simp: cmd_ok_def)
  show ?thesis
  proof (cases "fst (peek ''|'' s1)")
    case True
    let ?r = "tok_rest (skip_ws s1)"
    have r: "suffix ?r s" "length ?r < length s"
      using suffix_order.trans [OF suffix_rest a(1)] peek_shorter [OF True] suffix_length_le [OF a(1)] by auto
    show ?thesis using l [OF r] x Inr a True r suffix_order.trans [OF _ r(1)]
      by (auto simp: cmd_ok_def Let_def kbind_def split: sum.splits)
  next
    case False
    then show ?thesis using x Inr a suffix_order.trans [OF suffix_skip_ws a(1)] by (auto simp: cmd_ok_def Let_def)
  qed
qed

lemma parseexec_step:
  assumes S: "suffix s S" and b: "cmd_ok S (skip_ws s) (parseblock n (skip_ws s))"
  shows "cmd_ok S s (parseexec (Suc n) s)"
proof (cases "fst (peek ''('' s)")
  case True
  then show ?thesis using b suffix_order.trans [OF _ suffix_skip_ws [of s]] by (auto simp: cmd_ok_def)
next
  case False
  have w: "suffix (skip_ws s) S" using suffix_order.trans [OF suffix_skip_ws S] .
  note r = parseredirs_ok [OF w]
  show ?thesis
  proof (cases "parseredirs (skip_ws s)")
    case (Inl e)
    then show ?thesis using False r by (auto simp: cmd_ok_def redirs_ok_def)
  next
    case (Inr x)
    obtain rs s1 where x: "x = (rs, s1)" by (cases x)
    have s1: "suffix s1 s" "list_all (tok_ok S) (map fst rs)" using r Inr x suffix_order.trans [OF _ suffix_skip_ws [of s]] by (auto simp: redirs_ok_def)
    show ?thesis using parse_args_ok [OF suffix_order.trans [OF s1(1) S], of 0] False Inr x s1 suffix_order.trans [OF _ s1(1)]
      by (auto simp: cmd_ok_def args_ok_def kbind_def words_redirs split: sum.splits)
  qed
qed

lemma parseblock_step:
  assumes S: "suffix s S" and l: "\<And>r. suffix r s \<Longrightarrow> length r < length s \<Longrightarrow> cmd_ok S r (parseline n r)"
  shows "cmd_ok S s (parseblock (Suc n) s)"
proof (cases "fst (peek ''('' s)")
  case False
  then show ?thesis by (auto simp: cmd_ok_def)
next
  case True
  let ?r = "tok_rest (skip_ws s)"
  note p = l [OF suffix_rest peek_shorter [OF True]]
  show ?thesis
  proof (cases "parseline n ?r")
    case (Inl e)
    then show ?thesis using True p by (auto simp: cmd_ok_def)
  next
    case (Inr x)
    obtain c s1 where x: "x = (c, s1)" by (cases x)
    have s1: "suffix s1 s" "list_all (tok_ok S) (words c)" using p Inr x suffix_order.trans [OF _ suffix_rest [of s]] by (auto simp: cmd_ok_def)
    have s2: "suffix (tok_rest (skip_ws s1)) s" using suffix_order.trans [OF suffix_rest s1(1)] .
    show ?thesis using True Inr x s1 parseredirs_ok [OF suffix_order.trans [OF s2 S]] suffix_order.trans [OF _ s2]
      by (auto simp: cmd_ok_def redirs_ok_def Let_def kbind_def words_redirs split: sum.splits)
  qed
qed

lemma parse_ok:
  "suffix s S \<Longrightarrow> 4 * length s + 4 \<le> n \<Longrightarrow> cmd_ok S s (parseline n s)"
  "suffix s S \<Longrightarrow> 4 * length s + 3 \<le> n \<Longrightarrow> cmd_ok S s (parsepipe n s)"
  "suffix s S \<Longrightarrow> 4 * length s + 2 \<le> n \<Longrightarrow> cmd_ok S s (parseexec n s)"
  "suffix s S \<Longrightarrow> 4 * length s + 1 \<le> n \<Longrightarrow> cmd_ok S s (parseblock n s)"
proof (induction n arbitrary: s)
  case (Suc n)
  { case 1
    show ?case by (rule parseline_step) (use 1 Suc.IH(1,2) suffix_order.trans in force)+ }
  { case 2
    show ?case by (rule parsepipe_step) (use 2 Suc.IH(2,3) suffix_order.trans in force)+ }
  { case 3
    show ?case
      by (rule parseexec_step [OF 3(1)], rule Suc.IH(4)) (use 3 length_skip_ws [of s] suffix_order.trans [OF suffix_skip_ws 3(1)] in auto) }
  { case 4
    show ?case by (rule parseblock_step [OF 4(1)]) (use 4 Suc.IH(1) suffix_order.trans in force) }
qed simp_all

section \<open>The words are strings\<close>

definition cstr_at :: "string \<Rightarrow> ptr \<Rightarrow> string" where
  "cstr_at b p = takeWhile (\<lambda>c. c \<noteq> NUL) (drop (length b - 1 - length p) b)"

definition word_text :: "word_ptrs \<Rightarrow> string" where
  "word_text w = take (length (fst w) - length (snd w)) (fst w)"

lemma put_nuls_nth:
  assumes "\<forall>w \<in> set ws. length (snd w) < length b" "i < length b"
  shows "fold put_nul ws b ! i = (if i \<in> (\<lambda>w. length b - 1 - length (snd w)) ` set ws then NUL else b ! i)" "length (fold put_nul ws b) = length b"
  using assms by (induction ws arbitrary: b) (auto simp: put_nul_def nth_list_update)

lemma suffix_nth: "suffix t s \<Longrightarrow> t \<noteq> [] \<Longrightarrow> (s @ [x]) ! (length s - length t) = hd t"
  by (auto simp: suffix_def nth_append hd_conv_nth)

lemma takeWhile_at:
  assumes "length x < length b" "\<And>j. j < length x \<Longrightarrow> b ! j = x ! j" "b ! length x = NUL" "NUL \<notin> set x"
  shows "takeWhile (\<lambda>c. c \<noteq> NUL) b = x"
proof (rule takeWhile_eq_take_P_nth [THEN trans])
  show "take (length x) b = x" by (rule nth_equalityI) (use assms in auto)
  show "b ! i \<noteq> NUL" if "i < length x" "i < length b" for i
    using assms(2) [OF that(1)] assms(4) nth_mem [OF that(1)] by metis
  show "\<not> b ! length x \<noteq> NUL" using assms(3) by simp
qed

lemma cstr_word:
  assumes ok: "list_all (tok_ok S) ws" and w: "w \<in> set ws" and S: "NUL \<notin> set S"
  shows "cstr_at (fold put_nul ws (S @ [NUL])) (fst w) = word_text w"
proof -
  let ?b = "fold put_nul ws (S @ [NUL])" and ?n = "length S"
  have tk: "tok_ok S v" if "v \<in> set ws" for v using ok that by (auto simp: list_all_iff)
  obtain x where x: "fst w = x @ snd w" "\<forall>c \<in> set x. \<not> special c" and sw: "suffix (fst w) S" using tk [OF w] by (auto simp: tok_ok_def)
  have le: "length (snd v) \<le> ?n" "suffix (snd v) S" if "v \<in> set ws" for v
    using tk [OF that] suffix_length_le [of "fst v" S] suffix_order.trans [of "snd v" "fst v" S] by (auto simp: tok_ok_def suffix_def)
  have nth: "?b ! i = (if i \<in> (\<lambda>v. ?n - length (snd v)) ` set ws then NUL else (S @ [NUL]) ! i)" if "i \<le> ?n" for i
    using put_nuls_nth(1) [of ws "S @ [NUL]" i] le that by (auto simp: less_Suc_eq_le)
  have lb: "length ?b = Suc ?n" using put_nuls_nth(2) [of ws "S @ [NUL]" 0] le by (auto simp: less_Suc_eq_le)
  obtain p where p: "S = p @ x @ snd w" using sw x(1) by (auto simp: suffix_def)
  have keep: "?b ! (length p + j) = x ! j" if "j < length x" for j
  proof -
    have xj: "(S @ [NUL]) ! (length p + j) = x ! j" using that by (simp add: p nth_append)
    have "\<not> special (x ! j)" using x(2) that by simp
    moreover have "special ((S @ [NUL]) ! (?n - length (snd v)))" if v: "v \<in> set ws" "?n - length (snd v) = length p + j" for v
    proof -
      have "snd v \<noteq> []" using v(2) that \<open>j < length x\<close> p by auto
      then show ?thesis using tk [OF v(1)] suffix_nth [OF le(2) [OF v(1)]] by (auto simp: tok_ok_def)
    qed
    ultimately have "length p + j \<notin> (\<lambda>v. ?n - length (snd v)) ` set ws" using xj by force
    then show ?thesis using nth [of "length p + j"] that xj p by simp
  qed
  have "?b ! (length p + length x) = NUL" using nth [of "length p + length x"] w p by (auto intro!: rev_image_eqI)
  then have "takeWhile (\<lambda>c. c \<noteq> NUL) (drop (length p) ?b) = x"
    by (intro takeWhile_at) (use lb p keep S in simp_all)
  then show ?thesis unfolding cstr_at_def word_text_def using lb p x(1) by simp
qed

lemma parsecmd_ok:
  fixes line :: string
  defines "s \<equiv> takeWhile (\<lambda>c. c \<noteq> NUL) line"
  shows "cmd_ok s s (parseline (4 * length s + 4) s)"
  by (rule parse_ok(1)) simp_all

text \<open>C34. The parser of the shell ends on every line: the recursion of \<^verbatim>\<open>parseline\<close>,
  \<^verbatim>\<open>parsepipe\<close>, \<^verbatim>\<open>parseexec\<close> and \<^verbatim>\<open>parseblock\<close> is at most four calls deep for each
  character, so the result is a command or one of the parser's own errors.
\<close>

theorem parsecmd_returns: "parsecmd line \<noteq> Inl Hang"
proof -
  let ?s = "takeWhile (\<lambda>c. c \<noteq> NUL) line"
  have "parseline (4 * length ?s + 4) ?s \<noteq> Inl Hang" using parsecmd_ok [of line] unfolding cmd_ok_def by blast
  then show ?thesis unfolding parsecmd_def Let_def by (rule kbind_not_Hang) (auto split: if_splits)
qed

text \<open>C35. When the parser accepts a line, every word of the command (an argument or the file of a
  redirection) is, after \<^verbatim>\<open>nulterminate\<close>, a C string in the buffer: reading from its
  start up to the first NUL gives exactly the text between the two pointers of its token, which is
  not empty and holds no white space and no symbol. So no NUL of one word cuts another.
\<close>

theorem words_are_strings:
  assumes "parsecmd line = Inr (c, b)" "w \<in> set (words c)"
  shows "cstr_at b (fst w) = word_text w \<and> word_text w \<noteq> [] \<and> (\<forall>x \<in> set (word_text w). \<not> special x) \<and> suffix (fst w) (takeWhile (\<lambda>c. c \<noteq> NUL) line)"
proof -
  let ?s = "takeWhile (\<lambda>c. c \<noteq> NUL) line"
  obtain s1 where p: "parseline (4 * length ?s + 4) ?s = Inr (c, s1)" "b = nulterminate c (?s @ [NUL])"
    using assms(1) unfolding parsecmd_def Let_def by (cases "parseline (4 * length ?s + 4) ?s") (auto split: if_splits)
  have ok: "list_all (tok_ok ?s) (words c)" using parsecmd_ok [of line] p(1) unfolding cmd_ok_def by blast
  then have "tok_ok ?s w" using assms(2) by (auto simp: list_all_iff)
  moreover have "cstr_at b (fst w) = word_text w"
    unfolding p(2) nulterminate_words by (rule cstr_word [OF ok assms(2)]) (auto dest: set_takeWhileD)
  ultimately show ?thesis by (auto simp: tok_ok_def word_text_def)
qed

theorem words_are_strings_witness:
  "cstr_at (''ls'' @ [NUL] @ ''>f'' @ [NUL]) ''f'' = ''f'' \<and>
   cstr_at (''ls'' @ [NUL] @ ''>f'' @ [NUL]) ''ls >f'' = ''ls''"
proof -
  have p: "parsecmd ''ls >f'' = Inr (REDIR (EXEC [(''ls >f'', '' >f'')]) (''f'', []) 0x201 1, ''ls'' @ [NUL] @ ''>f'' @ [NUL])"
    by code_simp
  show ?thesis
    using words_are_strings [OF p, of "(''f'', [])"] words_are_strings [OF p, of "(''ls >f'', '' >f'')"] by (simp add: word_text_def)
qed

end
