(* ===== verification/Spec2Isabelle.thy ===== *)
theory Spec2Isabelle
  imports SchedProps ProcProps VMProps SyscallProps Kstring Printf Grep Pipe LogProps Fs ShProps
begin

text \<open>
  This development models the kernel and part of the user library of xv6 as changed for an
  assignment on system calls and scheduling policies, in \<^verbatim>\<open>src\<close>. The changes are a scheduler with a
  priority queue and a round-robin queue (\<^verbatim>\<open>ass1ds.cpp\<close>), exit statuses, \<^verbatim>\<open>detach\<close> and
  \<^verbatim>\<open>priority\<close> (\<^verbatim>\<open>proc.c\<close>, \<^verbatim>\<open>sysproc.c\<close>).

  \<^bold>\<open>Conventions.\<close> A C \<^verbatim>\<open>uint\<close> or pointer is a 32-bit word and wraps; a C \<^verbatim>\<open>int\<close> that is
  only compared, stored or negated is an integer, and \<^verbatim>\<open>Kprelude\<close> has its wrap-around where the
  code computes with it. Code that may not return normally has the result type \<^verbatim>\<open>kres\<close>:
  \<^verbatim>\<open>Panic\<close> for a call of \<^verbatim>\<open>panic\<close>, \<^verbatim>\<open>Spin\<close> for waiting that only another CPU or process
  ends, \<^verbatim>\<open>Hang\<close> for a loop that never ends, \<^verbatim>\<open>Fault\<close> for an access through null or outside
  an array. Pointer loops are partial functions whose \<^verbatim>\<open>None\<close> is non-termination, and every
  theorem about one says that it returns.

  \<^bold>\<open>The parts and their theories, in the order of dependence.\<close>

  \<^item> \<^verbatim>\<open>Kprelude\<close>: types, results, chains of pointers. \<^verbatim>\<open>Kalloc\<close>: the page allocator
    (\<^verbatim>\<open>kalloc.c\<close>), whose free list runs through the free pages themselves.
  \<^item> \<^verbatim>\<open>SchedDS\<close>: the links, lists, map nodes and the map of \<^verbatim>\<open>ass1ds.cpp\<close> at the level of
    their pointers, one definition per method. \<^verbatim>\<open>SchedLists\<close> and \<^verbatim>\<open>SchedMap\<close> prove what each
    method does to its part of the heap. \<^verbatim>\<open>SchedRef\<close> has the abstract state (a list sorted by
    accumulator, a queue, the running processes, the number of free links) and the refinement of each
    interface function; \<^verbatim>\<open>SchedSwitch\<close> the operations that rebuild a structure; \<^verbatim>\<open>SchedInit\<close>
    the initialisation from two pages and the 64-bit remainder. \<^verbatim>\<open>SchedSpec\<close> states the three
    interfaces of \<^verbatim>\<open>schedulinginterface.h\<close> as locales and interprets them on the heap model;
    \<^verbatim>\<open>SchedEx\<close> has concrete states and \<^verbatim>\<open>SchedProps\<close> the properties.
  \<^item> \<^verbatim>\<open>Spinlock\<close>: \<^verbatim>\<open>spinlock.c\<close> with the interrupt flag and the nesting of \<^verbatim>\<open>pushcli\<close> on
    each CPU. \<^verbatim>\<open>VM\<close>, \<^verbatim>\<open>VMProps\<close>: page tables (\<^verbatim>\<open>vm.c\<close>) in the memory of the page allocator.
  \<^item> \<^verbatim>\<open>Proc\<close>: the process table and \<^verbatim>\<open>proc.c\<close>. \<^verbatim>\<open>swtch\<close> cuts a function in two; the field
    \<^verbatim>\<open>pcontext\<close> of a process says how it goes on. \<^verbatim>\<open>ProcInv\<close> has the invariant \<^verbatim>\<open>kinv\<close>,
    \<^verbatim>\<open>ProcFrame\<close> what successful operations leave alone, and
    \<^verbatim>\<open>ProcYield\<close>, \<^verbatim>\<open>ProcWake\<close>, \<^verbatim>\<open>ProcSleep\<close>, \<^verbatim>\<open>ProcSched\<close> prove that each section
    under \<^verbatim>\<open>ptable.lock\<close> neither panics nor breaks it. \<^verbatim>\<open>ProcSteps\<close> is the kernel as a step
    relation of all CPUs with the invariant for every reachable state. \<^verbatim>\<open>ProcRace\<close> interleaves the
    single actions of \<^verbatim>\<open>sleep\<close> and \<^verbatim>\<open>wakeup\<close>, which are defined as sequences of actions;
    \<^verbatim>\<open>ProcExit\<close> has the whole call of \<^verbatim>\<open>exit\<close> with the contract of the file-system calls
    (\<^verbatim>\<open>file_call\<close>). \<^verbatim>\<open>ProcEx\<close> is a concrete state and \<^verbatim>\<open>ProcProps\<close> has the properties.
  \<^item> \<^verbatim>\<open>Syscall\<close>, \<^verbatim>\<open>SyscallProps\<close>: fetching arguments from user memory, the dispatch
    (\<^verbatim>\<open>syscall.c\<close>), the handlers of \<^verbatim>\<open>sysproc.c\<close> on the functions of \<^verbatim>\<open>Proc\<close>, and
    \<^verbatim>\<open>trap\<close> (\<^verbatim>\<open>trap.c\<close>). The memory of the process and the tick counter are arguments.
  \<^item> \<^verbatim>\<open>Kstring\<close>: \<^verbatim>\<open>string.c\<close> and \<^verbatim>\<open>ulib.c\<close> on byte memory. \<^verbatim>\<open>Printf\<close>: \<^verbatim>\<open>printf.c\<close>.
    \<^verbatim>\<open>Grep\<close>: \<^verbatim>\<open>grep.c\<close>, with its buffer, and \<^verbatim>\<open>wc.c\<close> on the results of \<^verbatim>\<open>read\<close>. \<^verbatim>\<open>Pipe\<close>: \<^verbatim>\<open>pipe.c\<close>
    as runs between two sleeps.
  \<^item> \<^verbatim>\<open>Bio\<close>: \<^verbatim>\<open>sleeplock.c\<close>, \<^verbatim>\<open>bio.c\<close> and the disk of \<^verbatim>\<open>memide.c\<close>, which records the
    disk after every write. \<^verbatim>\<open>BioRing\<close> proves the list of buffers, \<^verbatim>\<open>BioRep\<close> the contract of
    the cache for every driver that meets the locale \<^verbatim>\<open>disk_driver\<close>, interpreted on \<^verbatim>\<open>iderw\<close>
    of \<^verbatim>\<open>memide.c\<close>. \<^verbatim>\<open>Log\<close>: \<^verbatim>\<open>log.c\<close>. \<^verbatim>\<open>LogRep\<close>, \<^verbatim>\<open>LogCrash\<close>, \<^verbatim>\<open>LogAtomic\<close>,
    \<^verbatim>\<open>LogRun\<close> derive what commit and recovery do to the disks a crash can leave, and
    \<^verbatim>\<open>LogProps\<close> has the properties of transactions. \<^verbatim>\<open>Fs\<close>: the block bitmap of \<^verbatim>\<open>fs.c\<close>.
  \<^item> \<^verbatim>\<open>Sh\<close>, \<^verbatim>\<open>ShProps\<close>: the tokens and the parser of the shell (\<^verbatim>\<open>sh.c\<close>).

  \<^bold>\<open>What the lemmas show.\<close> The queues refine lists: sorting, first in first out, bounded
  waiting, both policy switches. In every interleaving of the CPUs the scheduler's structures stay
  well formed, the running holder is exactly the set of RUNNING processes and no process is on two
  CPUs; no interleaving of the actions of \<^verbatim>\<open>sleep\<close> and \<^verbatim>\<open>wakeup\<close> loses a wake-up; exit, wait, kill and detach do what their callers rely on,
  and the exceptions are stated (a process queued twice by \<^verbatim>\<open>yield\<close>, a kill of pid 0, a detached
  zombie). Pointers and strings that system calls accept lie inside the process. A transaction is
  atomic under a crash after any disk write, also during recovery; the space that \<^verbatim>\<open>begin_op\<close>
  reserves is shown to be too small. Allocating a block takes the first free one and marks exactly it.
  Bytes leave a pipe in the order they entered although the counters
  wrap. \<^verbatim>\<open>memmove\<close>, \<^verbatim>\<open>safestrcpy\<close>, the digits of \<^verbatim>\<open>printf\<close>, the matcher and the line loop of
  \<^verbatim>\<open>grep\<close> meet their specifications, and the parser of the shell ends and leaves proper strings.

  \<^bold>\<open>Fuel and bounds.\<close> The loops of \<^verbatim>\<open>mappages\<close> and of the page-wise functions of
  \<^verbatim>\<open>vm.c\<close> recurse on the number of pages, computed from the addresses. The four mutually
  recursive functions of the shell's parser take as fuel the depth of their calls; four for each
  character and four more are proved to be enough. Everything else recurses on its data, on a counter
  of the code, or is a partial function.

  \<^bold>\<open>Not modelled.\<close> Inodes, directories and path names (the rest of \<^verbatim>\<open>fs.c\<close>), the
  file table and its system calls (\<^verbatim>\<open>file.c\<close>, \<^verbatim>\<open>sysfile.c\<close>, \<^verbatim>\<open>exec.c\<close>): \<^verbatim>\<open>Proc\<close> and
  \<^verbatim>\<open>Syscall\<close> take their operations as arguments. What \<^verbatim>\<open>exit\<close> relies on in \<^verbatim>\<open>fileclose\<close> and
  \<^verbatim>\<open>iput\<close> is the hypothesis \<^verbatim>\<open>file_call\<close>; the other results need no more than what the argument's
  type says. The device drivers (\<^verbatim>\<open>ide.c\<close>, \<^verbatim>\<open>console.c\<close>, \<^verbatim>\<open>kbd.c\<close>, \<^verbatim>\<open>uart.c\<close>,
  \<^verbatim>\<open>lapic.c\<close>, \<^verbatim>\<open>ioapic.c\<close>, \<^verbatim>\<open>picirq.c\<close>, \<^verbatim>\<open>mp.c\<close>), the segment and descriptor tables,
  booting and assembly code: port and register access. \<^verbatim>\<open>runcmd\<close> and the other user programs:
  sequences of system calls. \<^verbatim>\<open>umalloc.c\<close> and the host program \<^verbatim>\<open>mkfs.c\<close>. \<^verbatim>\<open>update_fields\<close>,
  which \<^verbatim>\<open>trap.c\<close> calls and no file defines, is an argument. The model of the disk stack runs one
  process at a time between two points where it could sleep.
\<close>

end
